(* ===== verification/FastDL_Prelude.thy ===== *)
theory FastDL_Prelude
  imports Main "HOL-Library.Word" "HOL-Library.AList" "HOL-Library.Multiset"
begin

text \<open>
  What the components of FastDL share: the machine integer types, the bytes of a
  \<open>std::string\<close> and the few string operations of the C++ standard library the sources use
  (searching, trimming, splitting at a separator, lower-casing, decimal and hexadecimal
  printing), saturating 64 bit addition, association lists standing for
  \<open>std::unordered_map\<close>, and the collections of lemmas the component proofs draw on.

  The target is the 32 bit Linux build (\<^verbatim>\<open>CMakeLists.txt\<close> compiles with \<^verbatim>\<open>-m32\<close>), so
  \<open>std::size_t\<close> is a 32 bit and \<open>std::uint64_t\<close> a 64 bit word.
\<close>

section \<open>Lemma collections\<close>

named_theorems fdl_str \<open>facts on byte strings and their library operations\<close>
named_theorems fdl_word \<open>facts that move word arithmetic to the naturals\<close>
named_theorems fdl_map \<open>facts on association lists used as maps\<close>

section \<open>Machine integers\<close>

type_synonym u16 = "16 word"
type_synonym u32 = "32 word"
type_synonym u64 = "64 word"
type_synonym size_t = "32 word"

abbreviation UINT64_MAX :: u64 where "UINT64_MAX \<equiv> - 1"
abbreviation INT64_MAX :: int where "INT64_MAX \<equiv> 9223372036854775807"
abbreviation INT64_MIN :: int where "INT64_MIN \<equiv> - 9223372036854775808"

text \<open>The expression \<open>amount > max - current ? max : current + amount\<close>, which the metrics,
  the snapshot and the cache accounting share.\<close>

definition saturate :: "u64 \<Rightarrow> u64 \<Rightarrow> u64" where
  "saturate current amount =
     (if amount > UINT64_MAX - current then UINT64_MAX else current + amount)"

section \<open>Byte strings\<close>

abbreviation byte :: "char \<Rightarrow> nat" where "byte c \<equiv> of_char c"

text \<open>\<open>std::tolower\<close> in the C locale.\<close>

definition tolower :: "char \<Rightarrow> char" where
  "tolower c = (if 65 \<le> byte c \<and> byte c \<le> 90 then char_of (byte c + 32) else c)"

text \<open>\<open>std::isspace\<close> in the C locale.\<close>

definition is_space :: "char \<Rightarrow> bool" where
  "is_space c \<longleftrightarrow> c \<in> {CHR '' '', CHR 0x09, CHR 0x0A, CHR 0x0B, CHR 0x0C, CHR 0x0D}"

definition lowerAscii :: "string \<Rightarrow> string" where
  "lowerAscii value = map tolower value"

text \<open>\<open>find_first_not_of\<close> and \<open>find_last_not_of\<close> with the \<open>substr\<close> between them, the empty
  string when every byte is a blank.\<close>

definition trim_of :: "(char \<Rightarrow> bool) \<Rightarrow> string \<Rightarrow> string" where
  "trim_of blanks s = rev (dropWhile blanks (rev (dropWhile blanks s)))"

text \<open>\<open>std::string::find(c, start)\<close>: the first position at or after \<open>start\<close> that holds \<open>c\<close>,
  \<open>None\<close> for \<open>npos\<close>.\<close>

definition find_from :: "char \<Rightarrow> string \<Rightarrow> nat \<Rightarrow> nat option" where
  "find_from c s start =
     (let n = length (takeWhile (\<lambda>x. x \<noteq> c) (drop start s))
      in if start + n < length s then Some (start + n) else None)"

text \<open>\<open>std::string::substr(pos, count)\<close>.\<close>

definition substr :: "string \<Rightarrow> nat \<Rightarrow> nat \<Rightarrow> string" where
  "substr s pos n = take n (drop pos s)"

text \<open>\<open>s.rfind(prefix, 0) == 0\<close>: the usual C++ spelling of a prefix test.\<close>

definition starts_with :: "string \<Rightarrow> string \<Rightarrow> bool" where
  "starts_with pre s \<longleftrightarrow> take (length pre) s = pre"

text \<open>\<open>s.find(needle) != npos\<close>.\<close>

fun contains :: "string \<Rightarrow> string \<Rightarrow> bool" where
  "contains needle [] = (needle = [])"
| "contains needle (c # cs) = (starts_with needle (c # cs) \<or> contains needle cs)"

text \<open>The pieces between separators. Several sources walk a list with the loop
  \<^verbatim>\<open>while (start <= s.size()) { end = s.find(c, start); ...; start = end + 1; }\<close>;
  \<open>segments_from\<close> is that loop over positions and \<open>segments\<close> its structural form.\<close>

fun segments :: "char \<Rightarrow> string \<Rightarrow> string list" where
  "segments c [] = [[]]"
| "segments c (x # xs) =
     (if x = c then [] # segments c xs
      else (case segments c xs of [] \<Rightarrow> [[x]] | g # gs \<Rightarrow> (x # g) # gs))"

function segments_from :: "char \<Rightarrow> string \<Rightarrow> nat \<Rightarrow> string list" where
  "segments_from c s start =
     (if start \<le> length s then
        (case find_from c s start of
           None \<Rightarrow> [substr s start (length s - start)]
         | Some e \<Rightarrow> substr s start (e - start) # segments_from c s (e + 1))
      else [])"
  by pat_completeness auto
termination
  by (relation "measure (\<lambda>(c, s, start). Suc (length s) - start)")
    (auto simp: find_from_def Let_def split: if_splits)

text \<open>Unsigned numbers in a base, most significant digit first: \<open>std::to_string\<close> and
  \<open>std::ostream <<\<close> print base 10, \<open>std::hex\<close> base 16 with lower case letters.\<close>

definition digit_char :: "nat \<Rightarrow> char" where
  "digit_char d = (if d < 10 then char_of (48 + d) else char_of (87 + d))"

function digits_of :: "nat \<Rightarrow> nat \<Rightarrow> nat list" where
  "digits_of b n = (if n < b \<or> b < 2 then [n] else digits_of b (n div b) @ [n mod b])"
  by pat_completeness auto
termination
  by (relation "measure snd") (auto simp: div_less_dividend)

definition to_string :: "nat \<Rightarrow> string" where
  "to_string n = map digit_char (digits_of 10 n)"

definition to_hex :: "nat \<Rightarrow> string" where
  "to_hex n = map digit_char (digits_of 16 n)"

section \<open>Lemmas\<close>

subsection \<open>Words\<close>

lemma unat_UINT64_MAX [simp, fdl_word]: "unat UINT64_MAX = 18446744073709551615"
  by (simp add: unsigned_minus_1_eq_mask mask_eq_exp_minus_1)

lemma unat_u64_le [fdl_word]: "unat (a :: u64) \<le> 18446744073709551615"
  using unsigned_less [of a, where ?'a = nat] by simp

lemma unat_size_t_less [fdl_word]: "unat (a :: size_t) < 4294967296"
  using unsigned_less [of a, where ?'a = nat] by simp

lemma unat_widen [fdl_word]: "unat (ucast (a :: size_t) :: u64) = unat a"
  using unat_size_t_less [of a] by (simp add: unsigned_ucast_eq take_bit_nat_eq_self_iff)

lemma unat_mult_small [fdl_word]:
  "unat (a :: u64) * unat b < 18446744073709551616 \<Longrightarrow> unat (a * b) = unat a * unat b"
  using unat_mult_lem [of a b] by simp

lemma unat_add_small [fdl_word]:
  "unat (a :: u64) + unat b < 18446744073709551616 \<Longrightarrow> unat (a + b) = unat a + unat b"
  using unat_add_lem [of a b] by simp

lemma unat_sub_small [fdl_word]:
  "unat (b :: u64) \<le> unat a \<Longrightarrow> unat (a - b) = unat a - unat b"
  by (simp add: unat_sub word_le_nat_alt)

lemma unat_saturate [fdl_word]:
  "unat (saturate a b) = min 18446744073709551615 (unat a + unat b)"
proof -
  have lim: "unat (UINT64_MAX - a) = 18446744073709551615 - unat a"
    by (simp add: unat_sub)
  have le: "unat a \<le> 18446744073709551615"
    by (rule unat_u64_le)
  show ?thesis
  proof (cases "b > UINT64_MAX - a")
    case True
    then have "unat b > 18446744073709551615 - unat a"
      by (simp add: word_less_nat_alt lim)
    with True le show ?thesis by (simp add: saturate_def)
  next
    case False
    then have "unat b \<le> 18446744073709551615 - unat a"
      by (simp add: word_less_nat_alt lim not_less)
    with le have "unat a + unat b < 2 ^ LENGTH(64)" by simp
    then have "unat (a + b) = unat a + unat b" by (rule unat_add_lem [THEN iffD1])
    with False le \<open>unat b \<le> _\<close> show ?thesis by (simp add: saturate_def)
  qed
qed

lemma min_min_add [fdl_word]: "min (c :: nat) (min c a + b) = min c (a + b)"
  by (simp add: min_def)

lemma min_add_min [fdl_word]: "min (c :: nat) (a + min c b) = min c (a + b)"
  by (simp add: min_def)

subsection \<open>Strings\<close>

lemma tolower_idem [simp]: "tolower (tolower c) = tolower c"
  by (auto simp: tolower_def)

lemma lowerAscii_idem [simp]: "lowerAscii (lowerAscii s) = lowerAscii s"
  by (simp add: lowerAscii_def)

lemma length_lowerAscii [simp]: "length (lowerAscii s) = length s"
  by (simp add: lowerAscii_def)

lemma lowerAscii_Nil_iff [simp]: "lowerAscii s = [] \<longleftrightarrow> s = []"
  by (simp add: lowerAscii_def)

lemma segments_not_Nil [simp]: "segments c s \<noteq> []"
  by (induction s) (auto split: list.splits)

lemma segments_unfold [fdl_str]:
  "segments c s =
     (let g = takeWhile (\<lambda>x. x \<noteq> c) s
      in if length g < length s then g # segments c (drop (Suc (length g)) s) else [s])"
  by (induction s) (auto simp: Let_def split: list.splits)

text \<open>One round of a position loop: either the next separator ends the piece, or the rest of the
  string is the last piece.\<close>

lemma segment_round:
  assumes "start \<le> length s"
  obtains (more) i where "find_from c s start = Some i" "start \<le> i" "i < length s"
      "segments c (drop start s) = substr s start (i - start) # segments c (drop (Suc i) s)"
  | (final) "find_from c s start = None" "segments c (drop start s) = [substr s start (length s - start)]"
proof (cases "start + length (takeWhile (\<lambda>x. x \<noteq> c) (drop start s)) < length s")
  case True
  let ?g = "takeWhile (\<lambda>x. x \<noteq> c) (drop start s)"
  have "substr s start (start + length ?g - start) = ?g"
    by (simp add: substr_def takeWhile_eq_take [symmetric])
  moreover have "segments c (drop start s) = ?g # segments c (drop (Suc (start + length ?g)) s)"
    using True by (subst segments_unfold) (simp add: Let_def ac_simps)
  ultimately show ?thesis
    using True by (intro more [of "start + length ?g"]) (simp_all add: find_from_def Let_def)
next
  case False
  then have "segments c (drop start s) = [substr s start (length s - start)]"
    using assms by (subst segments_unfold) (simp add: Let_def substr_def)
  with False show ?thesis by (intro final) (simp_all add: find_from_def Let_def)
qed

text \<open>The position loop computes the pieces, from any start inside the string.\<close>

lemma segments_from_eq: "start \<le> length s \<Longrightarrow> segments_from c s start = segments c (drop start s)"
proof (induction "length s - start" arbitrary: start rule: less_induct)
  case less
  from less.prems show ?case
  proof (cases rule: segment_round [of start s c])
    case (more i)
    with less.hyps [of "Suc i"] less.prems show ?thesis by (subst segments_from.simps) simp
  next
    case final
    with less.prems show ?thesis by (subst segments_from.simps) simp
  qed
qed

lemma segments_from_0 [fdl_str]: "segments_from c s 0 = segments c s"
  by (simp add: segments_from_eq del: segments_from.simps)

declare segments_from.simps [simp del]

lemma segments_no_sep [fdl_str]: "g \<in> set (segments c s) \<Longrightarrow> c \<notin> set g"
  by (induction s arbitrary: g) (auto split: list.splits if_splits)

lemma segments_subset [fdl_str]: "g \<in> set (segments c s) \<Longrightarrow> set g \<subseteq> set s"
  by (induction s arbitrary: g) (fastforce split: list.splits if_splits)+

lemma segments_plain [fdl_str]: "c \<notin> set s \<Longrightarrow> segments c s = [s]"
  by (induction s) auto

lemma segments_sep [fdl_str]: "segments c (xs @ c # ys) = segments c xs @ segments c ys"
  by (induction xs) (auto split: list.splits)

lemma segments_append [fdl_str]: "c \<notin> set g \<Longrightarrow> segments c (g @ c # s) = g # segments c s"
  by (induction g) auto

declare digits_of.simps [simp del]

lemma digits_of_not_Nil [simp]: "digits_of b n \<noteq> []"
  by (subst digits_of.simps) simp

lemma digits_of_less:
  assumes "2 \<le> b"
  shows "d \<in> set (digits_of b n) \<Longrightarrow> d < b"
proof (induction n rule: less_induct)
  case (less n)
  show ?case
  proof (cases "n < b")
    case True
    with less.prems show ?thesis by (simp add: digits_of.simps [of b n])
  next
    case False
    with assms have "n div b < n" by (simp add: div_less_dividend)
    then have "d \<in> set (digits_of b (n div b)) \<Longrightarrow> d < b" by (rule less.IH)
    with False less.prems assms show ?thesis by (auto simp: digits_of.simps [of b n])
  qed
qed

lemma digits_of_length:
  assumes "2 \<le> b"
  shows "n < b ^ Suc k \<Longrightarrow> length (digits_of b n) \<le> Suc k"
proof (induction k arbitrary: n)
  case 0
  then show ?case by (simp add: digits_of.simps [of b n])
next
  case (Suc k)
  have "n div b < b ^ Suc k" using Suc.prems by (intro less_mult_imp_div_less) (simp add: mult.commute)
  from Suc.IH [OF this] show ?case by (simp add: digits_of.simps [of b n])
qed

lemma digits_of_value:
  assumes "2 \<le> b"
  shows "foldl (\<lambda>a d. a * b + d) 0 (digits_of b n) = n"
proof (induction n rule: less_induct)
  case (less n)
  show ?case
  proof (cases "n < b")
    case False
    with assms have "n div b < n" by (simp add: div_less_dividend)
    with False less assms show ?thesis by (simp add: digits_of.simps [of b n])
  qed (simp add: digits_of.simps [of b n])
qed

lemma digits_of_inject: "2 \<le> b \<Longrightarrow> digits_of b m = digits_of b n \<Longrightarrow> m = n"
  by (metis digits_of_value)

lemma byte_digit_char: "d < 16 \<Longrightarrow> byte (digit_char d) = (if d < 10 then 48 + d else 87 + d)"
  by (simp add: digit_char_def)

lemma digit_char_inj: "inj_on digit_char {..<16}"
proof (rule inj_onI)
  fix x y assume "x \<in> {..<16}" "y \<in> {..<16}" "digit_char x = digit_char y"
  then have "byte (digit_char x) = byte (digit_char y)" and "x < 16" "y < 16" by simp_all
  then show "x = y" by (auto simp: byte_digit_char split: if_splits)
qed

lemma to_hex_inject: "to_hex m = to_hex n \<longleftrightarrow> m = n"
proof
  assume "to_hex m = to_hex n"
  moreover have "set (digits_of 16 m) \<union> set (digits_of 16 n) \<subseteq> {..<16}"
    using digits_of_less [of 16] by auto
  ultimately have "digits_of 16 m = digits_of 16 n"
    unfolding to_hex_def by (meson digit_char_inj inj_on_map_eq_map inj_on_subset)
  then show "m = n" using digits_of_inject [of 16] by simp
qed simp

lemma to_hex_byte: "c \<in> set (to_hex n) \<Longrightarrow> 48 \<le> byte c \<and> byte c \<le> 57 \<or> 97 \<le> byte c \<and> byte c \<le> 102"
proof -
  assume "c \<in> set (to_hex n)"
  then obtain d where "d \<in> set (digits_of 16 n)" "c = digit_char d" by (auto simp: to_hex_def)
  then show ?thesis using digits_of_less [of 16 d n] by (simp add: byte_digit_char)
qed

lemma to_hex_not_Nil [simp]: "to_hex n \<noteq> []"
  by (simp add: to_hex_def)

subsection \<open>Association lists as maps\<close>

lemma length_update_Some [fdl_map]:
  "map_of xs k = Some v \<Longrightarrow> length (AList.update k w xs) = length xs"
  by (induction xs) (auto split: if_splits)

lemma length_update_None [fdl_map]:
  "map_of xs k = None \<Longrightarrow> length (AList.update k w xs) = Suc (length xs)"
  by (induction xs) (auto split: if_splits)

lemma update_update [fdl_map, simp]:
  "AList.update k w (AList.update k v xs) = AList.update k w xs"
  by (induction xs) auto

lemma length_delete_le [fdl_map]: "length (AList.delete k xs) \<le> length xs"
  by (simp add: AList.delete_eq)

lemma map_of_filter_Some [fdl_map]:
  assumes "distinct (map fst table)"
  shows "map_of (filter keep table) key =
    (case map_of table key of Some entry \<Rightarrow> if keep (key, entry) then Some entry else None | None \<Rightarrow> None)"
  using assms
proof (induction table)
  case (Cons x table)
  then have "fst x \<notin> fst ` set table" by auto
  then have "map_of table (fst x) = None" by (simp add: map_of_eq_None_iff)
  with Cons show ?case by (cases x) (auto split: option.splits)
qed simp

text \<open>A weight summed over an association list, as a counter kept beside the table has it.\<close>

definition weigh :: "('v \<Rightarrow> nat) \<Rightarrow> ('k \<times> 'v) list \<Rightarrow> nat" where
  "weigh f xs = sum_list (map (f \<circ> snd) xs)"

lemma weigh_simps [simp]:
  "weigh f [] = 0" "weigh f ((k, v) # xs) = f v + weigh f xs"
  by (simp_all add: weigh_def)

lemma weigh_update_Some [fdl_map]:
  "map_of xs k = Some v \<Longrightarrow> weigh f (AList.update k w xs) + f v = weigh f xs + f w"
  by (induction xs) (auto split: if_splits)

lemma weigh_update_None [fdl_map]:
  "map_of xs k = None \<Longrightarrow> weigh f (AList.update k w xs) = weigh f xs + f w"
  by (induction xs) (auto split: if_splits)

lemma weigh_delete [fdl_map]:
  assumes "distinct (map fst xs)" and "map_of xs k = Some v"
  shows "weigh f (AList.delete k xs) + f v = weigh f xs"
  using assms
proof (induction xs)
  case Nil
  then show ?case by simp
next
  case (Cons x xs)
  obtain k' v' where x: "x = (k', v')" by fastforce
  show ?case
  proof (cases "k' = k")
    case True
    with Cons.prems(1) x have "k \<notin> fst ` set xs" by auto
    with True Cons.prems(2) x show ?thesis by (simp add: AList.delete_notin_dom)
  next
    case False
    with Cons x show ?thesis by simp
  qed
qed

lemma weigh_filter [fdl_map]:
  "weigh f (filter P xs) + weigh f (filter (\<lambda>x. \<not> P x) xs) = weigh f xs"
  by (induction xs) auto

lemma weigh_ge [fdl_map]: "map_of xs k = Some v \<Longrightarrow> f v \<le> weigh f xs"
  by (induction xs) (auto split: if_splits intro: trans_le_add1)

section \<open>Components as transition systems\<close>

text \<open>A component's public operations, run one at a time under its mutex, make a
  transition system: an initial state, a step per operation, and an invariant that every
  step keeps. The run of a history is a left fold.\<close>

locale transition_system =
  fixes start :: 's
    and step :: "'s \<Rightarrow> 'e \<Rightarrow> 's"
    and inv :: "'s \<Rightarrow> bool"
  assumes inv_start: "inv start"
    and inv_step: "inv s \<Longrightarrow> inv (step s e)"
begin

lemma inv_run: "inv s \<Longrightarrow> inv (foldl step s es)"
  by (induction es arbitrary: s) (auto intro: inv_step)

lemma inv_reachable: "inv (foldl step start es)"
  by (rule inv_run [OF inv_start])

lemma inv_prefix: "inv (foldl step start (take n es))"
  by (rule inv_reachable)

end

end
