(* ===== verification/Rate_Limiter.thy ===== *)
theory Rate_Limiter
  imports FastDL_Prelude
begin

text \<open>
  The request and denial limiter (\<^verbatim>\<open>src/src/rate_limiter.cpp\<close>, \<^verbatim>\<open>rate_limiter.h\<close>): one
  record per client address with the time stamps of its accepted requests and its denials,
  a table bounded by \<open>kMaximumClients\<close> and a global number of stamps bounded by
  \<open>kMaximumEvents\<close>. Every public operation runs under the mutex, so a history is a
  sequence of operations; each takes the value \<open>now\<close> it read from the steady clock, in
  nanoseconds. The hash table is an association list with distinct keys; the stamp counter
  is the 32 bit \<open>std::size_t\<close> the code has, subtracted with wrap-around.
\<close>

section \<open>State\<close>

definition kMaximumClients :: nat where "kMaximumClients = 1024"

definition kMaximumEvents :: nat where "kMaximumEvents = 131072"

record client =
  requests :: "int list"
  denials :: "int list"
  blockedUntil :: int
  lastSeen :: int

record rate_limiter =
  rl_clients :: "(string \<times> client) list"
  rl_nextCleanup :: int
  rl_eventCount :: size_t

definition new_client :: client where
  "new_client = \<lparr>requests = [], denials = [], blockedUntil = 0, lastSeen = 0\<rparr>"

definition rl_init :: rate_limiter where
  "rl_init = \<lparr>rl_clients = [], rl_nextCleanup = 0, rl_eventCount = 0\<rparr>"

text \<open>\<open>std::chrono::seconds\<close> and \<open>minutes\<close> in the clock's nanoseconds.\<close>

definition seconds :: "int \<Rightarrow> int" where "seconds n = n * 1000000000"

definition minutes :: "int \<Rightarrow> int" where "minutes n = seconds (60 * n)"

section \<open>Operations\<close>

fun trim_stamps :: "int list \<Rightarrow> int \<Rightarrow> int list \<times> nat" where
  "trim_stamps [] cutoff = ([], 0)"
| "trim_stamps (v # vs) cutoff =
     (if v \<le> cutoff then (case trim_stamps vs cutoff of (rest, removed) \<Rightarrow> (rest, removed + 1))
      else (v # vs, 0))"

definition stale_client :: "int \<Rightarrow> client \<Rightarrow> bool" where
  "stale_client now c \<longleftrightarrow> lastSeen c < now - minutes 15 \<and> blockedUntil c \<le> now"

fun cleanup_loop :: "int \<Rightarrow> (string \<times> client) list \<Rightarrow> size_t \<Rightarrow> (string \<times> client) list \<times> size_t"
where
  "cleanup_loop now [] events = ([], events)"
| "cleanup_loop now ((ip, c) # rest) events =
     (if stale_client now c
      then cleanup_loop now rest (events - of_nat (length (requests c) + length (denials c)))
      else (case cleanup_loop now rest events of (kept, events') \<Rightarrow> ((ip, c) # kept, events')))"

definition cleanup :: "int \<Rightarrow> bool \<Rightarrow> rate_limiter \<Rightarrow> rate_limiter" where
  "cleanup now force s =
     (if \<not> force \<and> rl_nextCleanup s \<noteq> 0 \<and> now < rl_nextCleanup s then s
      else (case cleanup_loop now (rl_clients s) (rl_eventCount s) of (kept, events) \<Rightarrow>
        s\<lparr>rl_clients := kept, rl_eventCount := events, rl_nextCleanup := now + minutes 10\<rparr>))"

text \<open>The pointer \<open>findOrCreate\<close> returns is the client it found, \<open>None\<close> for \<open>nullptr\<close>;
  callers write the record back under the same key.\<close>

definition findOrCreate ::
  "string \<Rightarrow> int \<Rightarrow> rate_limiter \<Rightarrow> client option \<times> rate_limiter" where
  "findOrCreate ip now s =
     (case map_of (rl_clients s) ip of
        Some c \<Rightarrow> (Some c, s)
      | None \<Rightarrow>
          (let s1 = (if length (rl_clients s) \<ge> kMaximumClients then cleanup now True s else s)
           in if length (rl_clients s1) \<ge> kMaximumClients then (None, s1)
              else (Some new_client,
                    s1\<lparr>rl_clients := AList.update ip new_client (rl_clients s1)\<rparr>)))"

definition write_client :: "string \<Rightarrow> client \<Rightarrow> rate_limiter \<Rightarrow> rate_limiter" where
  "write_client ip c s = s\<lparr>rl_clients := AList.update ip c (rl_clients s)\<rparr>"

definition blocked :: "string \<Rightarrow> int \<Rightarrow> rate_limiter \<Rightarrow> bool \<times> rate_limiter" where
  "blocked ip now s =
     (let s1 = cleanup now False s
      in (case map_of (rl_clients s1) ip of
            None \<Rightarrow> (False, s1)
          | Some c \<Rightarrow> (blockedUntil c > now, s1)))"

definition requestExceeded ::
  "string \<Rightarrow> u32 \<Rightarrow> int \<Rightarrow> rate_limiter \<Rightarrow> bool \<times> rate_limiter" where
  "requestExceeded ip limit now s =
     (let s1 = cleanup now False s
      in if limit = 0 then (True, s1)
         else (case findOrCreate ip now s1 of
             (None, s2) \<Rightarrow> (True, s2)
           | (Some c, s2) \<Rightarrow>
               (case trim_stamps (requests c) (now - minutes 1) of (kept, removed) \<Rightarrow>
                 (let c1 = c\<lparr>lastSeen := now, requests := kept\<rparr>;
                      events = rl_eventCount s2 - of_nat removed
                  in if length kept \<ge> unat limit \<or> unat events \<ge> kMaximumEvents
                     then (True, write_client ip c1 s2\<lparr>rl_eventCount := events\<rparr>)
                     else (False, write_client ip (c1\<lparr>requests := kept @ [now]\<rparr>)
                             s2\<lparr>rl_eventCount := events + 1\<rparr>)))))"

definition recordDenial ::
  "string \<Rightarrow> u32 \<Rightarrow> u32 \<Rightarrow> int \<Rightarrow> rate_limiter \<Rightarrow> rate_limiter" where
  "recordDenial ip limit blockSeconds now s =
     (case findOrCreate ip now (cleanup now False s) of
        (None, s2) \<Rightarrow> s2
      | (Some c, s2) \<Rightarrow>
          (case trim_stamps (denials c) (now - minutes 1) of (kept, removed) \<Rightarrow>
            (let c1 = c\<lparr>lastSeen := now, denials := kept\<rparr>;
                 events = rl_eventCount s2 - of_nat removed;
                 until = now + seconds (int (unat blockSeconds))
             in if unat events \<ge> kMaximumEvents
                then write_client ip (c1\<lparr>denials := [], blockedUntil := until\<rparr>)
                       s2\<lparr>rl_eventCount := events - of_nat (length kept)\<rparr>
                else if limit = 0 \<or> length kept + 1 \<ge> unat limit
                then write_client ip (c1\<lparr>denials := [], blockedUntil := until\<rparr>)
                       s2\<lparr>rl_eventCount := events + 1 - of_nat (length kept + 1)\<rparr>
                else write_client ip (c1\<lparr>denials := kept @ [now]\<rparr>)
                       s2\<lparr>rl_eventCount := events + 1\<rparr>)))"

definition unblock :: "string \<Rightarrow> rate_limiter \<Rightarrow> bool \<times> rate_limiter" where
  "unblock ip s =
     (case map_of (rl_clients s) ip of
        None \<Rightarrow> (False, s)
      | Some c \<Rightarrow>
          (True, s\<lparr>rl_eventCount :=
                     rl_eventCount s - of_nat (length (requests c) + length (denials c)),
                   rl_clients := AList.delete ip (rl_clients s)\<rparr>))"

definition clear :: "rate_limiter \<Rightarrow> rate_limiter" where
  "clear s = s\<lparr>rl_clients := [], rl_nextCleanup := 0, rl_eventCount := 0\<rparr>"

section \<open>Histories\<close>

datatype rl_event =
    Blocked string
  | RequestExceeded string u32
  | RecordDenial string u32 u32
  | Unblock string
  | Clear

fun rl_step :: "rate_limiter \<Rightarrow> int \<times> rl_event \<Rightarrow> rate_limiter" where
  "rl_step s (now, Blocked ip) = snd (blocked ip now s)"
| "rl_step s (now, RequestExceeded ip limit) = snd (requestExceeded ip limit now s)"
| "rl_step s (now, RecordDenial ip limit secs) = recordDenial ip limit secs now s"
| "rl_step s (now, Unblock ip) = snd (unblock ip s)"
| "rl_step s (now, Clear) = clear s"

text \<open>The stamps a client record holds, and the invariant that ties the counter to the
  table: the counter is exact, so its subtractions never wrap, and both bounds hold.\<close>

definition stamps :: "client \<Rightarrow> nat" where
  "stamps c = length (requests c) + length (denials c)"

definition rl_inv :: "rate_limiter \<Rightarrow> bool" where
  "rl_inv s \<longleftrightarrow>
     distinct (map fst (rl_clients s)) \<and>
     length (rl_clients s) \<le> kMaximumClients \<and>
     rl_eventCount s = of_nat (weigh stamps (rl_clients s)) \<and>
     weigh stamps (rl_clients s) \<le> kMaximumEvents"

section \<open>The counter is exact and the tables are bounded\<close>

lemmas limits = kMaximumClients_def kMaximumEvents_def

lemma trim_stamps_eq:
  "trim_stamps vs cutoff =
     (dropWhile (\<lambda>v. v \<le> cutoff) vs, length (takeWhile (\<lambda>v. v \<le> cutoff) vs))"
  by (induction vs) auto

lemma length_drop_take_While: "length (dropWhile P xs) + length (takeWhile P xs) = length xs"
  by (metis add.commute length_append takeWhile_dropWhile_id)

lemma cleanup_loop_eq:
  "cleanup_loop now cs events =
     (filter (\<lambda>x. \<not> stale_client now (snd x)) cs,
      events - of_nat (weigh stamps (filter (\<lambda>x. stale_client now (snd x)) cs)))"
  by (induction cs arbitrary: events) (auto simp: stamps_def algebra_simps)

lemma cleanup_eq:
  "cleanup now force s =
     (if \<not> force \<and> rl_nextCleanup s \<noteq> 0 \<and> now < rl_nextCleanup s then s
      else s\<lparr>rl_clients := filter (\<lambda>x. \<not> stale_client now (snd x)) (rl_clients s),
             rl_eventCount := rl_eventCount s -
               of_nat (weigh stamps (filter (\<lambda>x. stale_client now (snd x)) (rl_clients s))),
             rl_nextCleanup := now + minutes 10\<rparr>)"
  by (simp add: cleanup_def cleanup_loop_eq)

lemma rl_inv_cleanup [intro]:
  assumes "rl_inv s"
  shows "rl_inv (cleanup now force s)"
proof -
  let ?keep = "filter (\<lambda>x. \<not> stale_client now (snd x)) (rl_clients s)"
  let ?drop = "filter (\<lambda>x. stale_client now (snd x)) (rl_clients s)"
  have split: "weigh stamps (rl_clients s) = weigh stamps ?drop + weigh stamps ?keep"
    using weigh_filter [of stamps "\<lambda>x. stale_client now (snd x)" "rl_clients s"] by simp
  have len: "length ?keep \<le> length (rl_clients s)" by simp
  from assms split len show ?thesis
    by (auto simp: rl_inv_def cleanup_eq distinct_map_filter
        intro: order_trans [OF length_filter_le])
qed

lemma rl_inv_write:
  assumes inv: "rl_inv s" and old: "map_of (rl_clients s) ip = Some c0"
    and cnt: "rl_eventCount s + of_nat (stamps c) = n + of_nat (stamps c0)"
    and cap: "weigh stamps (rl_clients s) + stamps c \<le> kMaximumEvents + stamps c0"
  shows "rl_inv ((write_client ip c s)\<lparr>rl_eventCount := n\<rparr>)"
proof -
  let ?w = "weigh stamps (AList.update ip c (rl_clients s))"
  have w: "?w + stamps c0 = weigh stamps (rl_clients s) + stamps c"
    using weigh_update_Some [OF old] .
  from inv cnt have "n + of_nat (stamps c0) = of_nat (weigh stamps (rl_clients s) + stamps c)"
    by (simp add: rl_inv_def)
  also have "\<dots> = of_nat ?w + of_nat (stamps c0)"
    by (simp flip: w)
  finally have "n = of_nat ?w" by simp
  with inv old w cap show ?thesis
    by (simp add: rl_inv_def write_client_def length_update_Some distinct_update)
qed

lemma findOrCreate_cases:
  assumes "rl_inv s"
  obtains (full) s' where "findOrCreate ip now s = (None, s')" "rl_inv s'"
  | (found) c s' where "findOrCreate ip now s = (Some c, s')" "rl_inv s'"
      "map_of (rl_clients s') ip = Some c"
proof (cases "map_of (rl_clients s) ip")
  case (Some c)
  with assms found show ?thesis by (simp add: findOrCreate_def)
next
  case None
  define s1 where
    "s1 = (if length (rl_clients s) \<ge> kMaximumClients then cleanup now True s else s)"
  have inv1: "rl_inv s1" using assms by (auto simp: s1_def)
  have none1: "map_of (rl_clients s1) ip = None"
    using None assms by (auto simp: s1_def cleanup_eq map_of_filter_Some rl_inv_def)
  show ?thesis
  proof (cases "length (rl_clients s1) \<ge> kMaximumClients")
    case True
    with None full inv1 show ?thesis by (simp add: findOrCreate_def s1_def [symmetric] Let_def)
  next
    case False
    let ?s2 = "s1\<lparr>rl_clients := AList.update ip new_client (rl_clients s1)\<rparr>"
    have "rl_inv ?s2" using inv1 none1 False
      by (simp add: rl_inv_def length_update_None weigh_update_None distinct_update
          stamps_def new_client_def)
    moreover have "map_of (rl_clients ?s2) ip = Some new_client"
      by (simp add: AList.update_conv')
    moreover have "findOrCreate ip now s = (Some new_client, ?s2)"
      using None False by (simp add: findOrCreate_def s1_def [symmetric] Let_def)
    ultimately show ?thesis using found by blast
  qed
qed

lemma rl_inv_requestExceeded:
  assumes "rl_inv s"
  shows "rl_inv (snd (requestExceeded ip limit now s))"
proof (cases "limit = 0")
  case True
  with assms show ?thesis by (auto simp: requestExceeded_def)
next
  case False
  from assms have inv1: "rl_inv (cleanup now False s)" by auto
  show ?thesis using inv1
  proof (cases rule: findOrCreate_cases [where ip = ip and now = now])
    case (full s')
    with False show ?thesis by (simp add: requestExceeded_def Let_def)
  next
    case (found c s2)
    let ?old = "\<lambda>v. v \<le> now - minutes 1"
    let ?kept = "dropWhile ?old (requests c)"
    let ?n = "length (takeWhile ?old (requests c))"
    let ?events = "rl_eventCount s2 - of_nat ?n"
    have len: "length ?kept + ?n = length (requests c)" by (rule length_drop_take_While)
    have le: "weigh stamps (rl_clients s2) \<le> kMaximumEvents" "stamps c \<le> weigh stamps (rl_clients s2)"
      using found by (auto simp: rl_inv_def intro: weigh_ge)
    have cnt: "rl_eventCount s2 = of_nat (weigh stamps (rl_clients s2))"
      using found(2) by (simp add: rl_inv_def)
    have nle: "?n \<le> weigh stamps (rl_clients s2)"
      using le(2) len by (simp add: stamps_def)
    have ucnt: "unat ?events = weigh stamps (rl_clients s2) - ?n"
    proof -
      have "?events = of_nat (weigh stamps (rl_clients s2) - ?n)"
        using nle by (simp add: cnt of_nat_diff)
      then show ?thesis using le(1) by (simp add: unat_of_nat limits)
    qed
    have keep: "rl_inv ((write_client ip (c\<lparr>lastSeen := now, requests := ?kept\<rparr>) s2)
        \<lparr>rl_eventCount := ?events\<rparr>)"
      by (rule rl_inv_write [OF found(2,3)])
        (use len le in \<open>auto simp: stamps_def algebra_simps simp flip: of_nat_add\<close>)
    have add: "unat ?events < kMaximumEvents \<Longrightarrow>
      rl_inv ((write_client ip (c\<lparr>lastSeen := now, requests := ?kept @ [now]\<rparr>) s2)
        \<lparr>rl_eventCount := ?events + 1\<rparr>)"
      by (rule rl_inv_write [OF found(2,3)])
        (use len le ucnt nle in \<open>auto simp: stamps_def algebra_simps simp flip: of_nat_add\<close>)
    from False found keep add show ?thesis
      by (simp add: requestExceeded_def Let_def trim_stamps_eq)
  qed
qed

lemma rl_inv_recordDenial:
  assumes "rl_inv s"
  shows "rl_inv (recordDenial ip limit secs now s)"
proof -
  from assms have inv1: "rl_inv (cleanup now False s)" by auto
  show ?thesis using inv1
  proof (cases rule: findOrCreate_cases [where ip = ip and now = now])
    case (full s')
    then show ?thesis by (simp add: recordDenial_def Let_def)
  next
    case (found c s2)
    let ?old = "\<lambda>v. v \<le> now - minutes 1"
    let ?kept = "dropWhile ?old (denials c)"
    let ?n = "length (takeWhile ?old (denials c))"
    let ?events = "rl_eventCount s2 - of_nat ?n"
    let ?until = "now + seconds (int (unat secs))"
    have len: "length ?kept + ?n = length (denials c)" by (rule length_drop_take_While)
    have le: "weigh stamps (rl_clients s2) \<le> kMaximumEvents" "stamps c \<le> weigh stamps (rl_clients s2)"
      using found by (auto simp: rl_inv_def intro: weigh_ge)
    have nle: "?n \<le> weigh stamps (rl_clients s2)"
      using le(2) len by (simp add: stamps_def)
    have ucnt: "unat ?events = weigh stamps (rl_clients s2) - ?n"
    proof -
      have "?events = of_nat (weigh stamps (rl_clients s2) - ?n)"
        using nle found(2) by (simp add: rl_inv_def of_nat_diff)
      then show ?thesis using le(1) by (simp add: unat_of_nat limits)
    qed
    have wipe: "rl_inv ((write_client ip
          (c\<lparr>lastSeen := now, denials := [], blockedUntil := ?until\<rparr>) s2)
        \<lparr>rl_eventCount := ?events - of_nat (length ?kept)\<rparr>)"
      by (rule rl_inv_write [OF found(2,3)])
        (use len le in \<open>auto simp: stamps_def algebra_simps simp flip: of_nat_add\<close>)
    have add: "unat ?events < kMaximumEvents \<Longrightarrow>
      rl_inv ((write_client ip (c\<lparr>lastSeen := now, denials := ?kept @ [now]\<rparr>) s2)
        \<lparr>rl_eventCount := ?events + 1\<rparr>)"
      by (rule rl_inv_write [OF found(2,3)])
        (use len le ucnt nle in \<open>auto simp: stamps_def algebra_simps simp flip: of_nat_add\<close>)
    from found wipe add show ?thesis
      by (simp add: recordDenial_def Let_def trim_stamps_eq algebra_simps)
  qed
qed

lemma rl_inv_unblock:
  assumes "rl_inv s"
  shows "rl_inv (snd (unblock ip s))"
proof (cases "map_of (rl_clients s) ip")
  case None
  with assms show ?thesis by (simp add: unblock_def)
next
  case (Some c)
  have w: "weigh stamps (AList.delete ip (rl_clients s)) + stamps c = weigh stamps (rl_clients s)"
    using assms Some by (intro weigh_delete) (simp_all add: rl_inv_def)
  have "(of_nat (weigh stamps (rl_clients s)) :: size_t) - of_nat (stamps c) =
      of_nat (weigh stamps (AList.delete ip (rl_clients s)))"
    by (simp flip: w)
  with assms Some w show ?thesis
    by (auto simp: unblock_def rl_inv_def stamps_def distinct_delete
        intro: order_trans [OF length_delete_le])
qed

lemma rl_inv_step: "rl_inv s \<Longrightarrow> rl_inv (rl_step s e)"
proof (induction s e rule: rl_step.induct)
  case (1 s now ip)
  then show ?case by (auto simp: blocked_def Let_def split: option.splits)
next
  case (5 s now)
  then show ?case by (simp add: clear_def rl_inv_def)
qed (simp_all add: rl_inv_requestExceeded rl_inv_recordDenial rl_inv_unblock)

interpretation rl: transition_system rl_init rl_step rl_inv
proof unfold_locales
  show "rl_inv rl_init" by (simp add: rl_inv_def rl_init_def)
next
  show "rl_inv (rl_step s e)" if "rl_inv s" for s e
    using that by (rule rl_inv_step)
qed

section \<open>One client's record under each operation\<close>

abbreviation entry :: "rate_limiter \<Rightarrow> string \<Rightarrow> client option" where
  "entry s ip \<equiv> map_of (rl_clients s) ip"

text \<open>What the clean-up can do to a record at time \<open>now\<close>: keep it, or erase it when stale.\<close>

inductive ages :: "int \<Rightarrow> client option \<Rightarrow> client option \<Rightarrow> bool" for now where
  keep: "ages now x x"
| erase: "stale_client now c \<Longrightarrow> ages now (Some c) None"

inductive_cases ages_NoneE [elim!]: "ages now None y"
inductive_cases ages_SomeE: "ages now (Some c) y"
inductive_cases ages_to_SomeE [elim!]: "ages now x (Some c)"

lemma ages_trans: "ages now x y \<Longrightarrow> ages now y z \<Longrightarrow> ages now x z"
  by (auto elim!: ages.cases intro: ages.intros)

lemma cleanup_ages:
  "rl_inv s \<Longrightarrow> ages now (entry s ip) (entry (cleanup now force s) ip)"
  by (auto simp: cleanup_eq rl_inv_def map_of_filter_Some split: option.split
      intro: ages.intros)

text \<open>The record \<open>findOrCreate\<close> hands out, from the one that survives the clean-ups.\<close>

definition or_new :: "client option \<Rightarrow> client" where
  "or_new x = (case x of None \<Rightarrow> new_client | Some c \<Rightarrow> c)"

lemma or_new_simps [simp]: "or_new None = new_client" "or_new (Some c) = c"
  by (simp_all add: or_new_def)

lemma findOrCreate_entry:
  assumes inv: "rl_inv s" and run: "findOrCreate ip now s = (r, s')"
  shows "(case r of None \<Rightarrow> entry s ip = None \<and> entry s' ip = None
            | Some c \<Rightarrow> c = or_new (entry s ip) \<and> entry s' ip = Some c) \<and>
         (\<forall>ip'. ip' \<noteq> ip \<longrightarrow> ages now (entry s ip') (entry s' ip'))"
proof (cases "entry s ip")
  case (Some c)
  with run have "r = Some c" "s' = s" by (simp_all add: findOrCreate_def)
  with Some show ?thesis by (simp add: ages.keep)
next
  case None
  define s1 where
    "s1 = (if length (rl_clients s) \<ge> kMaximumClients then cleanup now True s else s)"
  have old: "ages now (entry s x) (entry s1 x)" for x
    using cleanup_ages [OF inv] by (auto simp: s1_def intro: ages.intros)
  with None have "entry s1 ip = None" by (metis ages_NoneE)
  with None run old show ?thesis
    by (auto simp: findOrCreate_def s1_def [symmetric] Let_def AList.update_conv'
        split: if_splits)
qed

lemma write_client_entry [simp]:
  "entry (write_client ip c s) x = (if x = ip then Some c else entry s x)"
  by (simp add: write_client_def AList.update_conv')

lemma requestExceeded_0 [simp]: "requestExceeded ip 0 now s = (True, cleanup now False s)"
  by (simp add: requestExceeded_def Let_def)

lemma requestExceeded_other:
  assumes inv: "rl_inv s" and "ip' \<noteq> ip"
  shows "ages now (entry s ip') (entry (snd (requestExceeded ip limit now s)) ip')"
proof (cases "limit = 0")
  case True
  with inv show ?thesis by (auto simp: requestExceeded_def Let_def intro: cleanup_ages)
next
  case False
  let ?s1 = "cleanup now False s"
  obtain r s2 where run: "findOrCreate ip now ?s1 = (r, s2)" by fastforce
  have "ages now (entry ?s1 ip') (entry s2 ip')"
    using findOrCreate_entry [OF rl_inv_cleanup [OF inv] run] assms(2) by blast
  with cleanup_ages [OF inv] have "ages now (entry s ip') (entry s2 ip')"
    by (rule ages_trans)
  with False run assms(2) show ?thesis
    by (auto simp: requestExceeded_def Let_def split: option.splits prod.splits)
qed

lemma recordDenial_other:
  assumes inv: "rl_inv s" and "ip' \<noteq> ip"
  shows "ages now (entry s ip') (entry (recordDenial ip limit secs now s) ip')"
proof -
  let ?s1 = "cleanup now False s"
  obtain r s2 where run: "findOrCreate ip now ?s1 = (r, s2)" by fastforce
  have "ages now (entry ?s1 ip') (entry s2 ip')"
    using findOrCreate_entry [OF rl_inv_cleanup [OF inv] run] assms(2) by blast
  with cleanup_ages [OF inv] have "ages now (entry s ip') (entry s2 ip')"
    by (rule ages_trans)
  with run assms(2) show ?thesis
    by (auto simp: recordDenial_def Let_def split: option.splits prod.splits)
qed

text \<open>The whole behaviour of \<open>requestExceeded\<close> on the requesting client: which record it
  works on, when it refuses, and what it leaves behind.\<close>

lemma requestExceeded_entry:
  assumes inv: "rl_inv s" and lim: "limit \<noteq> 0"
    and run: "requestExceeded ip limit now s = (r, s')"
  obtains (full) "ages now (entry s ip) None" "r" "entry s' ip = None"
  | (tracked) x kept where "ages now (entry s ip) x"
      "kept = dropWhile (\<lambda>v. v \<le> now - minutes 1) (requests (or_new x))"
      "unat limit \<le> length kept \<Longrightarrow> r"
      "entry s' ip = Some ((or_new x)\<lparr>lastSeen := now,
         requests := (if r then kept else kept @ [now])\<rparr>)"
proof -
  let ?s1 = "cleanup now False s"
  have age: "ages now (entry s ip) (entry ?s1 ip)" by (rule cleanup_ages [OF inv])
  obtain q s2 where fc: "findOrCreate ip now ?s1 = (q, s2)" by fastforce
  note ent = findOrCreate_entry [OF rl_inv_cleanup [OF inv] fc]
  show thesis
  proof (cases q)
    case None
    with ent have "entry ?s1 ip = None" "entry s2 ip = None" by auto
    with None run fc lim age show thesis
      by (intro full) (auto simp: requestExceeded_def Let_def)
  next
    case (Some c)
    with ent have c: "c = or_new (entry ?s1 ip)" by auto
    from Some run fc lim c show thesis
      by (intro tracked [OF age refl])
        (auto simp: requestExceeded_def Let_def trim_stamps_eq split: if_splits)
  qed
qed

lemma recordDenial_entry:
  assumes inv: "rl_inv s"
  obtains (full) "ages now (entry s ip) None" "entry (recordDenial ip limit secs now s) ip = None"
  | (tracked) x c' where "ages now (entry s ip) x"
      "entry (recordDenial ip limit secs now s) ip = Some c'"
      "requests c' = requests (or_new x)" "lastSeen c' = now"
      "blockedUntil c' \<in> {blockedUntil (or_new x), now + seconds (int (unat secs))}"
proof -
  let ?s1 = "cleanup now False s"
  have age: "ages now (entry s ip) (entry ?s1 ip)" by (rule cleanup_ages [OF inv])
  obtain q s2 where fc: "findOrCreate ip now ?s1 = (q, s2)" by fastforce
  note ent = findOrCreate_entry [OF rl_inv_cleanup [OF inv] fc]
  show thesis
  proof (cases q)
    case None
    with ent have "entry ?s1 ip = None" "entry s2 ip = None" by auto
    with None fc age show thesis
      by (intro full) (auto simp: recordDenial_def Let_def)
  next
    case (Some c)
    with ent have c: "c = or_new (entry ?s1 ip)" by auto
    from Some fc have "\<exists>c'. entry (recordDenial ip limit secs now s) ip = Some c' \<and>
        requests c' = requests c \<and> lastSeen c' = now \<and>
        blockedUntil c' \<in> {blockedUntil c, now + seconds (int (unat secs))}"
      by (auto simp: recordDenial_def Let_def trim_stamps_eq)
    with c show thesis by (auto intro: tracked [OF age])
  qed
qed

section \<open>The sliding window\<close>

text \<open>The accepted requests of one address along a history, and the events that leave its
  history alone: no \<open>unblock\<close> of the address, no \<open>clear\<close>, and one request limit.\<close>

fun accepted_of :: "string \<Rightarrow> rate_limiter \<Rightarrow> (int \<times> rl_event) list \<Rightarrow> int list" where
  "accepted_of ip s [] = []"
| "accepted_of ip s ((now, e) # es) =
     (case e of
        RequestExceeded ip' limit \<Rightarrow>
          (if ip' = ip \<and> \<not> fst (requestExceeded ip limit now s) then [now] else [])
      | _ \<Rightarrow> []) @ accepted_of ip (rl_step s (now, e)) es"

fun undisturbed :: "string \<Rightarrow> nat \<Rightarrow> rl_event \<Rightarrow> bool" where
  "undisturbed ip n (RequestExceeded ip' limit) \<longleftrightarrow> ip' = ip \<longrightarrow> unat limit = n"
| "undisturbed ip n (Unblock ip') \<longleftrightarrow> ip' \<noteq> ip"
| "undisturbed ip n Clear \<longleftrightarrow> False"
| "undisturbed ip n (Blocked ip') \<longleftrightarrow> True"
| "undisturbed ip n (RecordDenial ip' limit secs) \<longleftrightarrow> True"

definition in_window :: "int \<Rightarrow> int \<Rightarrow> bool" where
  "in_window t h \<longleftrightarrow> t - minutes 1 < h \<and> h \<le> t"

text \<open>The record of an address against its true history \<open>acc\<close>: what the record no longer
  holds is at least a minute old.\<close>

definition tracks :: "int \<Rightarrow> int list \<Rightarrow> client option \<Rightarrow> bool" where
  "tracks now acc x \<longleftrightarrow>
     (\<forall>h \<in> set (requests (or_new x)). h \<le> lastSeen (or_new x)) \<and>
     (\<exists>old. acc = old @ requests (or_new x) \<and> (\<forall>h \<in> set old. h \<le> now - minutes 1))"

lemma tracks_mono: "tracks t acc x \<Longrightarrow> t \<le> now \<Longrightarrow> tracks now acc x"
  unfolding tracks_def by force

lemma tracks_ages:
  assumes "tracks now acc x" and "ages now x y"
  shows "tracks now acc y"
  using assms(2)
proof cases
  case keep
  with assms(1) show ?thesis by simp
next
  case (erase c)
  from assms(1) erase have "\<forall>h \<in> set acc. h \<le> now - minutes 1"
    by (fastforce simp: tracks_def stale_client_def minutes_def seconds_def)
  with erase show ?thesis by (simp add: tracks_def new_client_def)
qed

lemma tracks_trim:
  assumes "tracks now acc x" and "\<forall>h \<in> set acc. h \<le> now"
    and "kept = dropWhile (\<lambda>v. v \<le> now - minutes 1) (requests (or_new x))"
    and "requests c = kept" "lastSeen c = now"
  shows "tracks now acc (Some c)"
proof -
  let ?gone = "takeWhile (\<lambda>v. v \<le> now - minutes 1) (requests (or_new x))"
  from assms(1) obtain old where old: "acc = old @ requests (or_new x)"
    "\<forall>h \<in> set old. h \<le> now - minutes 1" by (auto simp: tracks_def)
  have "acc = (old @ ?gone) @ requests c"
    using old(1) assms(3,4) by simp
  moreover have "\<forall>h \<in> set (old @ ?gone). h \<le> now - minutes 1"
    using old(2) by (auto dest: set_takeWhileD)
  moreover from assms(2) calculation(1) have "\<forall>h \<in> set (requests c). h \<le> now" by auto
  ultimately show ?thesis using assms(5) unfolding tracks_def or_new_simps by blast
qed

lemma tracks_extend:
  assumes "tracks now acc (Some c)" and "lastSeen c = now" and "requests c' = requests c @ [now]"
    and "lastSeen c' = now"
  shows "tracks now (acc @ [now]) (Some c')"
  using assms by (fastforce simp: tracks_def)

lemma window_extend:
  assumes tr: "tracks now acc (Some c)" and short: "length (requests c) < n"
    and win: "\<And>t. length (filter (in_window t) acc) \<le> n"
  shows "length (filter (in_window t) (acc @ [now])) \<le> n"
proof (cases "in_window t now")
  case True
  from tr obtain old where old: "acc = old @ requests c" "\<forall>h \<in> set old. h \<le> now - minutes 1"
    by (auto simp: tracks_def)
  from True old(2) have "filter (in_window t) old = []"
    by (force simp: in_window_def filter_empty_conv)
  then have "length (filter (in_window t) acc) \<le> length (requests c)"
    by (simp add: old(1))
  with True short show ?thesis by simp
next
  case False
  with win show ?thesis by simp
qed

definition window_inv :: "string \<Rightarrow> nat \<Rightarrow> int \<Rightarrow> rate_limiter \<Rightarrow> int list \<Rightarrow> bool" where
  "window_inv ip n now s acc \<longleftrightarrow>
     rl_inv s \<and> sorted acc \<and> (\<forall>h \<in> set acc. h \<le> now) \<and> tracks now acc (entry s ip) \<and>
     (\<forall>t. length (filter (in_window t) acc) \<le> n)"

lemma window_inv_ages:
  assumes "window_inv ip n t s acc" and "t \<le> now" and "rl_inv s'"
    and "ages now (entry s ip) (entry s' ip)"
  shows "window_inv ip n now s' acc"
proof -
  have "tracks now acc (entry s' ip)"
    using assms by (auto simp: window_inv_def intro: tracks_ages tracks_mono)
  with assms show ?thesis by (auto simp: window_inv_def)
qed

lemma window_inv_request:
  assumes W: "window_inv ip n t s acc" and le: "t \<le> now" and lim: "unat limit = n"
  shows "window_inv ip n now (snd (requestExceeded ip limit now s))
    (acc @ (if fst (requestExceeded ip limit now s) then [] else [now]))"
proof (cases "limit = 0")
  case True
  then have "requestExceeded ip limit now s = (True, cleanup now False s)" by simp
  moreover from W have inv: "rl_inv s" by (simp add: window_inv_def)
  ultimately show ?thesis
    using window_inv_ages [OF W le rl_inv_cleanup [OF inv] cleanup_ages [OF inv]] by simp
next
  case False
  obtain r s' where run: "requestExceeded ip limit now s = (r, s')" by fastforce
  from W have inv: "rl_inv s" by (simp add: window_inv_def)
  have inv': "rl_inv s'" using rl_inv_requestExceeded [OF inv, of ip limit now] run by simp
  from W le have tr: "tracks now acc (entry s ip)" and bnd: "\<forall>h \<in> set acc. h \<le> now"
    by (auto simp: window_inv_def intro: tracks_mono)
  show ?thesis using inv False run
  proof (cases rule: requestExceeded_entry)
    case full
    with W le inv' run show ?thesis by (auto intro: window_inv_ages)
  next
    case (tracked x kept)
    let ?c = "(or_new x)\<lparr>lastSeen := now, requests := kept\<rparr>"
    have trc: "tracks now acc (Some ?c)"
      using tracks_trim [OF tracks_ages [OF tr tracked(1)] bnd tracked(2), of ?c] by simp
    show ?thesis
    proof (cases r)
      case True
      with tracked trc run inv' bnd W show ?thesis by (simp add: window_inv_def)
    next
      case False
      with tracked(3) have "\<not> unat limit \<le> length kept" by blast
      with lim have short: "length (requests ?c) < n" by simp
      have "tracks now (acc @ [now]) (Some (?c\<lparr>requests := kept @ [now]\<rparr>))"
        by (rule tracks_extend [OF trc]) simp_all
      moreover have "length (filter (in_window u) (acc @ [now])) \<le> n" for u
        using window_extend [OF trc short] W by (simp add: window_inv_def)
      moreover from W bnd have "sorted (acc @ [now])"
        by (simp add: window_inv_def sorted_append)
      ultimately show ?thesis using False tracked(4) run inv' bnd
        by (simp add: window_inv_def del: filter_append)
    qed
  qed
qed

lemma window_inv_denial:
  assumes W: "window_inv ip n t s acc" and le: "t \<le> now"
  shows "window_inv ip n now (recordDenial ip limit secs now s) acc"
proof -
  let ?s' = "recordDenial ip limit secs now s"
  from W have inv: "rl_inv s" by (simp add: window_inv_def)
  have inv': "rl_inv ?s'" by (rule rl_inv_recordDenial [OF inv])
  from W le have tr: "tracks now acc (entry s ip)" and bnd: "\<forall>h \<in> set acc. h \<le> now"
    by (auto simp: window_inv_def intro: tracks_mono)
  have "tracks now acc (entry ?s' ip)" using inv
  proof (cases rule: recordDenial_entry [where ip = ip and now = now and limit = limit and secs = secs])
    case full
    with tracks_ages [OF tr] show ?thesis by simp
  next
    case (tracked x c')
    from tracks_ages [OF tr tracked(1)] tracked(2-4) bnd show ?thesis
      by (auto simp: tracks_def)
  qed
  with W le inv' show ?thesis by (auto simp: window_inv_def)
qed

text \<open>A step against one address: the operation is its own request or denial, or its
  record can only have aged.\<close>

lemma rl_step_cases:
  assumes inv: "rl_inv s" and e: "e \<noteq> Unblock ip" "e \<noteq> Clear"
  obtains (request) limit where "e = RequestExceeded ip limit" "limit \<noteq> 0"
  | (denial) limit secs where "e = RecordDenial ip limit secs"
  | (aged) "ages now (entry s ip) (entry (rl_step s (now, e)) ip)"
      "accepted_of ip s [(now, e)] = []"
proof (cases e)
  case (Blocked ip')
  then have "entry (rl_step s (now, e)) ip = entry (cleanup now False s) ip"
    by (simp add: blocked_def Let_def split: option.split)
  with Blocked cleanup_ages [OF inv] show thesis by (intro aged) simp_all
next
  case (RequestExceeded ip' limit)
  show thesis
  proof (cases "ip' = ip \<and> limit \<noteq> 0")
    case True
    then show thesis using RequestExceeded by (auto intro: request [of limit])
  next
    case False
    with RequestExceeded requestExceeded_other [OF inv] cleanup_ages [OF inv] show thesis
      by (intro aged) auto
  qed
next
  case (RecordDenial ip' limit secs)
  then show thesis using recordDenial_other [OF inv]
    by (cases "ip' = ip") (auto intro: denial aged)
next
  case (Unblock ip')
  with e have "entry (rl_step s (now, e)) ip = entry s ip"
    by (auto simp: unblock_def AList.delete_conv' split: option.split)
  with Unblock show thesis by (intro aged) (simp_all add: ages.keep)
next
  case Clear
  with e show thesis by simp
qed

lemma window_inv_step:
  assumes W: "window_inv ip n t s acc" and le: "t \<le> now" and ok: "undisturbed ip n e"
  shows "window_inv ip n now (rl_step s (now, e)) (acc @ accepted_of ip s [(now, e)])"
proof -
  from W have inv: "rl_inv s" by (simp add: window_inv_def)
  from ok have e: "e \<noteq> Unblock ip" "e \<noteq> Clear" by auto
  from inv e show ?thesis
  proof (cases rule: rl_step_cases [where now = now])
    case (request limit)
    with window_inv_request [OF W le, of limit] ok show ?thesis by (auto split: if_splits)
  next
    case (denial limit secs)
    with window_inv_denial [OF W le] show ?thesis by simp
  next
    case aged
    with window_inv_ages [OF W le rl_inv_step [OF inv]] show ?thesis by simp
  qed
qed

lemma window_inv_run:
  assumes "window_inv ip n t s acc" and "sorted (t # map fst es @ [now])"
    and "\<forall>(u, e) \<in> set es. undisturbed ip n e"
  shows "window_inv ip n now (foldl rl_step s es) (acc @ accepted_of ip s es)"
  using assms
proof (induction es arbitrary: t s acc)
  case Nil
  then have "t \<le> now" "rl_inv s" by (auto simp: window_inv_def)
  with window_inv_ages [OF Nil.prems(1) _ _ ages.keep] show ?case by simp
next
  case (Cons te es)
  obtain u e where te: "te = (u, e)" by fastforce
  have "window_inv ip n u (rl_step s te) (acc @ accepted_of ip s [te])"
    using window_inv_step [OF Cons.prems(1)] Cons.prems(2,3) te by auto
  from Cons.IH [OF this] Cons.prems(2,3) te show ?case by auto
qed

lemma window_inv_init: "window_inv ip n t rl_init []"
  by (simp add: window_inv_def rl_init_def tracks_def rl_inv_def new_client_def)

lemma window_inv_history:
  assumes "sorted (map fst es @ [now])" and "\<forall>(t, e) \<in> set es. undisturbed ip n e"
  shows "window_inv ip n now (foldl rl_step rl_init es) (accepted_of ip rl_init es)"
proof -
  have "sorted (hd (map fst es @ [now]) # map fst es @ [now])"
    using assms(1) by (cases es) auto
  from window_inv_run [OF window_inv_init this assms(2)] show ?thesis by simp
qed

lemma window_bound:
  assumes "sorted (map fst es)" and "\<forall>(u, e) \<in> set es. undisturbed ip n e"
  shows "length (filter (in_window t) (accepted_of ip rl_init es)) \<le> n"
proof -
  define now where "now = (if es = [] then 0 else fst (last es))"
  have "sorted (map fst es @ [now])"
    using assms(1) by (cases es rule: rev_cases) (auto simp: now_def sorted_append)
  from window_inv_history [OF this assms(2)] show ?thesis by (simp add: window_inv_def)
qed

lemma accepted_of_append:
  "accepted_of ip s (xs @ ys) = accepted_of ip s xs @ accepted_of ip (foldl rl_step s xs) ys"
  by (induction ip s xs rule: accepted_of.induct) simp_all

text \<open>The clients that are still in the table when the record of \<open>ip\<close> is looked up or created:
  a clean-up that is due, or the one a full table forces for a new address, leaves the clients
  that are not stale.\<close>

definition surviving :: "string \<Rightarrow> int \<Rightarrow> rate_limiter \<Rightarrow> (string \<times> client) list" where
  "surviving ip now s =
     (if rl_nextCleanup s = 0 \<or> rl_nextCleanup s \<le> now \<or>
         entry s ip = None \<and> kMaximumClients \<le> length (rl_clients s)
      then filter (\<lambda>x. \<not> stale_client now (snd x)) (rl_clients s) else rl_clients s)"

text \<open>No record for the address and no place for one, and the time stamps stored in all records
  when the expired ones of \<open>ip\<close> (of its requests or its denials) are dropped.\<close>

definition no_slot :: "string \<Rightarrow> int \<Rightarrow> rate_limiter \<Rightarrow> bool" where
  "no_slot ip now s \<longleftrightarrow>
     map_of (surviving ip now s) ip = None \<and> kMaximumClients \<le> length (surviving ip now s)"

definition stamps_held :: "(client \<Rightarrow> int list) \<Rightarrow> string \<Rightarrow> int \<Rightarrow> rate_limiter \<Rightarrow> nat" where
  "stamps_held kind ip now s = weigh stamps (surviving ip now s) -
     length (takeWhile (\<lambda>v. v \<le> now - minutes 1) (kind (or_new (map_of (surviving ip now s) ip))))"

definition crowded :: "string \<Rightarrow> int \<Rightarrow> rate_limiter \<Rightarrow> bool" where
  "crowded ip now s \<longleftrightarrow> no_slot ip now s \<or> kMaximumEvents \<le> stamps_held requests ip now s"

definition has_room :: "string \<Rightarrow> rate_limiter \<Rightarrow> bool" where
  "has_room ip s \<longleftrightarrow>
     (entry s ip \<noteq> None \<or> length (rl_clients s) < kMaximumClients) \<and>
     unat (rl_eventCount s) < kMaximumEvents"

lemma surviving_ages: "rl_inv s \<Longrightarrow> ages now (entry s ip) (map_of (surviving ip now s) ip)"
  using cleanup_ages [of s now ip True] by (auto simp: surviving_def cleanup_eq intro: ages.keep)

lemma surviving_weigh: "weigh stamps (surviving ip now s) \<le> weigh stamps (rl_clients s)"
  using weigh_filter [of stamps "\<lambda>x. \<not> stale_client now (snd x)" "rl_clients s"]
  by (simp add: surviving_def)

lemma unat_eventCount: "rl_inv s \<Longrightarrow> unat (rl_eventCount s) = weigh stamps (rl_clients s)"
  by (simp add: rl_inv_def unat_of_nat limits)

lemma crowded_no_room:
  assumes inv: "rl_inv s" and cr: "crowded ip now s"
  shows "\<not> has_room ip s"
proof (cases "no_slot ip now s")
  case True
  have slot: "\<not> kMaximumClients \<le> length (surviving ip now s)" if c: "entry s ip = Some c" for c
  proof -
    from c True inv have "stale_client now c"
      using surviving_ages [OF inv, of now ip] by (auto simp: no_slot_def elim: ages_SomeE)
    with c have "length (filter (\<lambda>x. \<not> stale_client now (snd x)) (rl_clients s)) < length (rl_clients s)"
      by (intro length_filter_less [of "(ip, c)"]) (auto dest: map_of_SomeD)
    with c True inv show ?thesis by (auto simp: no_slot_def surviving_def rl_inv_def split: if_splits)
  qed
  with True have "entry s ip = None" by (cases "entry s ip") (auto simp: no_slot_def dest: slot)
  moreover have "length (surviving ip now s) \<le> length (rl_clients s)" by (simp add: surviving_def)
  ultimately show ?thesis using True by (simp add: has_room_def no_slot_def)
next
  case False
  with cr have "kMaximumEvents \<le> stamps_held requests ip now s" by (simp add: crowded_def)
  also have "\<dots> \<le> weigh stamps (rl_clients s)"
    unfolding stamps_held_def using surviving_weigh by (rule order_trans [OF diff_le_self])
  finally show ?thesis by (simp add: has_room_def unat_eventCount [OF inv])
qed

lemma findOrCreate_surviving:
  assumes inv: "rl_inv s"
  obtains s' where "findOrCreate ip now (cleanup now False s) =
      (if no_slot ip now s then None else Some (or_new (map_of (surviving ip now s) ip)), s')"
    "rl_eventCount s' = of_nat (weigh stamps (surviving ip now s))"
    "\<not> no_slot ip now s \<Longrightarrow> entry s' ip = Some (or_new (map_of (surviving ip now s) ip))"
proof -
  let ?s1 = "cleanup now False s" and ?t = "surviving ip now s"
  have inv1: "rl_inv ?s1" using inv by auto
  define s2 where
    "s2 = (if entry ?s1 ip = None \<and> kMaximumClients \<le> length (rl_clients ?s1) then cleanup now True ?s1 else ?s1)"
  have inv2: "rl_inv s2" using inv1 by (auto simp: s2_def)
  have t: "?t = rl_clients s2" by (auto simp: surviving_def s2_def cleanup_eq)
  have cnt: "rl_eventCount s2 = of_nat (weigh stamps ?t)" using inv2 by (simp add: rl_inv_def t)
  show thesis
  proof (cases "entry ?s1 ip")
    case (Some c)
    then have "s2 = ?s1" by (simp add: s2_def)
    with Some t cnt show thesis by (intro that [of ?s1]) (simp_all add: findOrCreate_def no_slot_def)
  next
    case None
    then have none: "map_of ?t ip = None"
      using cleanup_ages [OF inv1, of now ip True] by (auto simp: t s2_def)
    have "findOrCreate ip now ?s1 = (if kMaximumClients \<le> length (rl_clients s2) then (None, s2)
        else (Some new_client, s2\<lparr>rl_clients := AList.update ip new_client (rl_clients s2)\<rparr>))"
      using None by (simp add: findOrCreate_def s2_def Let_def)
    with none t cnt show thesis
      by (intro that [of "snd (findOrCreate ip now ?s1)"]) (auto simp: no_slot_def AList.update_conv')
  qed
qed

lemma stamps_held_unat:
  assumes inv: "rl_inv s" and kind: "\<And>c. length (kind c) \<le> stamps c"
    and cnt: "held = of_nat (weigh stamps (surviving ip now s))"
  shows "unat (held - of_nat (length (takeWhile (\<lambda>v. v \<le> now - minutes 1)
    (kind (or_new (map_of (surviving ip now s) ip)))))  :: size_t) = stamps_held kind ip now s"
proof -
  let ?t = "surviving ip now s"
  let ?n = "length (takeWhile (\<lambda>v. v \<le> now - minutes 1) (kind (or_new (map_of ?t ip))))"
  have "stamps (or_new (map_of ?t ip)) \<le> weigh stamps ?t"
  proof (cases "map_of ?t ip")
    case None
    then show ?thesis by (simp add: new_client_def stamps_def)
  next
    case (Some c)
    with weigh_ge [OF this, of stamps] show ?thesis by simp
  qed
  then have le: "?n \<le> weigh stamps ?t"
    by (rule order_trans [OF length_takeWhile_le order_trans [OF kind]])
  have max: "weigh stamps ?t \<le> kMaximumEvents"
    using surviving_weigh [of ip now s] inv by (simp add: rl_inv_def)
  have "held - of_nat ?n = of_nat (weigh stamps ?t - ?n)"
    using le by (simp add: cnt of_nat_diff)
  then show ?thesis using max by (simp add: unat_of_nat limits stamps_held_def)
qed

lemma requestExceeded_refuses:
  assumes inv: "rl_inv s" and lim: "limit \<noteq> 0"
  shows "fst (requestExceeded ip limit now s) \<longleftrightarrow> crowded ip now s \<or>
    unat limit \<le> length (dropWhile (\<lambda>v. v \<le> now - minutes 1)
      (requests (or_new (map_of (surviving ip now s) ip))))"
proof -
  obtain s' where fc: "findOrCreate ip now (cleanup now False s) =
      (if no_slot ip now s then None else Some (or_new (map_of (surviving ip now s) ip)), s')"
    "rl_eventCount s' = of_nat (weigh stamps (surviving ip now s))"
    by (rule findOrCreate_surviving [OF inv, of ip now])
  have "length (requests c) \<le> stamps c" for c by (simp add: stamps_def)
  from stamps_held_unat [where kind = requests, OF inv this fc(2)] fc(1) lim show ?thesis
    by (auto simp: requestExceeded_def Let_def trim_stamps_eq crowded_def)
qed

lemma window_count:
  assumes "tracks now acc x" and "sorted acc" and "\<forall>h \<in> set acc. h \<le> now"
  shows "length (dropWhile (\<lambda>v. v \<le> now - minutes 1) (requests (or_new x))) =
    length (filter (in_window now) acc)"
proof -
  from assms(1) obtain old where old: "acc = old @ requests (or_new x)"
    "\<forall>h \<in> set old. h \<le> now - minutes 1" by (auto simp: tracks_def)
  have "filter (in_window now) old = []"
    using old(2) by (force simp: in_window_def filter_empty_conv)
  moreover have "filter (in_window now) vs = dropWhile (\<lambda>v. v \<le> now - minutes 1) vs"
    if "sorted vs" "\<forall>h \<in> set vs. h \<le> now" for vs
    using that
  proof (induction vs)
    case (Cons v vs)
    show ?case
    proof (cases "v \<le> now - minutes 1")
      case True
      with Cons show ?thesis by (simp add: in_window_def)
    next
      case False
      with Cons.prems have "\<forall>h \<in> set (v # vs). in_window now h"
        by (auto simp: in_window_def)
      with False show ?thesis by (simp add: filter_id_conv)
    qed
  qed simp
  moreover have "sorted (requests (or_new x))" "\<forall>h \<in> set (requests (or_new x)). h \<le> now"
    using assms(2,3) old(1) by (auto simp: sorted_append)
  ultimately show ?thesis by (simp add: old(1))
qed

section \<open>Blocks\<close>

text \<open>The events that do not lift a block of \<open>ip\<close> before time \<open>t\<close>: any but an explicit
  unblock, a clear, or a later denial of the same address with a shorter block.\<close>

fun keeps_block :: "string \<Rightarrow> int \<Rightarrow> int \<times> rl_event \<Rightarrow> bool" where
  "keeps_block ip t (u, RecordDenial ip' limit secs) \<longleftrightarrow>
     u \<le> t \<and> (ip' = ip \<longrightarrow> t < u + seconds (int (unat secs)))"
| "keeps_block ip t (u, Unblock ip') \<longleftrightarrow> u \<le> t \<and> ip' \<noteq> ip"
| "keeps_block ip t (u, Clear) \<longleftrightarrow> False"
| "keeps_block ip t (u, Blocked ip') \<longleftrightarrow> u \<le> t"
| "keeps_block ip t (u, RequestExceeded ip' limit) \<longleftrightarrow> u \<le> t"

definition blocked_past :: "string \<Rightarrow> int \<Rightarrow> rate_limiter \<Rightarrow> bool" where
  "blocked_past ip t s \<longleftrightarrow> (\<exists>c. entry s ip = Some c \<and> t < blockedUntil c)"

lemma ages_blocked:
  "ages u x y \<Longrightarrow> x = Some c \<Longrightarrow> t < blockedUntil c \<Longrightarrow> u \<le> t \<Longrightarrow> y = Some c"
  by (auto elim!: ages.cases simp: stale_client_def)

lemma blocked_past_ages:
  assumes "blocked_past ip t s" and "u \<le> t" and "ages u (entry s ip) (entry s' ip)"
  shows "blocked_past ip t s'"
  using assms ages_blocked by (fastforce simp: blocked_past_def)

lemma blocked_past_request:
  assumes inv: "rl_inv s" and bl: "blocked_past ip t s" and le: "u \<le> t" and lim: "limit \<noteq> 0"
  shows "blocked_past ip t (snd (requestExceeded ip limit u s))"
proof -
  from bl obtain c where c: "entry s ip = Some c" "t < blockedUntil c"
    by (auto simp: blocked_past_def)
  obtain r s' where run: "requestExceeded ip limit u s = (r, s')" by fastforce
  from inv lim run have "blocked_past ip t s'"
  proof (cases rule: requestExceeded_entry)
    case full
    with ages_blocked [OF _ c le] show ?thesis by auto
  next
    case (tracked x kept)
    with ages_blocked [OF tracked(1) c le] c show ?thesis by (auto simp: blocked_past_def)
  qed
  with run show ?thesis by simp
qed

lemma blocked_past_denial:
  assumes inv: "rl_inv s" and bl: "blocked_past ip t s" and le: "u \<le> t"
    and longer: "t < u + seconds (int (unat secs))"
  shows "blocked_past ip t (recordDenial ip limit secs u s)"
proof -
  from bl obtain c where c: "entry s ip = Some c" "t < blockedUntil c"
    by (auto simp: blocked_past_def)
  from inv show ?thesis
  proof (cases rule: recordDenial_entry
      [where ip = ip and now = u and limit = limit and secs = secs])
    case full
    with ages_blocked [OF _ c le] show ?thesis by auto
  next
    case (tracked x c')
    with ages_blocked [OF tracked(1) c le] c longer show ?thesis
      by (auto simp: blocked_past_def)
  qed
qed

lemma blocked_past_step:
  assumes inv: "rl_inv s" and bl: "blocked_past ip t s" and ok: "keeps_block ip t e"
  shows "blocked_past ip t (rl_step s e)"
proof -
  obtain u ev where e: "e = (u, ev)" by fastforce
  from ok e have le: "u \<le> t" and ev: "ev \<noteq> Unblock ip" "ev \<noteq> Clear" by (cases ev; auto)+
  from inv ev show ?thesis
  proof (cases rule: rl_step_cases [where now = u])
    case (request limit)
    with blocked_past_request [OF inv bl le] e show ?thesis by simp
  next
    case (denial limit secs)
    with blocked_past_denial [OF inv bl le] e ok show ?thesis by simp
  next
    case aged
    with blocked_past_ages [OF bl le] e show ?thesis by simp
  qed
qed

lemma blocked_past_run:
  "rl_inv s \<Longrightarrow> blocked_past ip t s \<Longrightarrow> \<forall>e \<in> set es. keeps_block ip t e \<Longrightarrow>
     blocked_past ip t (foldl rl_step s es)"
  by (induction es arbitrary: s) (auto intro: blocked_past_step rl_inv_step)

lemma blocked_iff_past:
  assumes "rl_inv s"
  shows "fst (blocked ip t s) \<longleftrightarrow> blocked_past ip t s"
proof -
  have age: "ages t (entry s ip) (entry (cleanup t False s) ip)"
    by (rule cleanup_ages [OF assms])
  then show ?thesis
    by cases (auto simp: blocked_def blocked_past_def Let_def stale_client_def
        split: option.split)
qed

text \<open>When a denial blocks at once: there is a record or a place for one, and the denials of
  the last minute with this one reach the limit, or no further time stamp can be stored.\<close>

definition denial_blocks :: "string \<Rightarrow> u32 \<Rightarrow> int \<Rightarrow> rate_limiter \<Rightarrow> bool" where
  "denial_blocks ip limit now s \<longleftrightarrow> \<not> no_slot ip now s \<and>
     (limit = 0 \<or>
      unat limit \<le> Suc (length (dropWhile (\<lambda>v. v \<le> now - minutes 1)
        (denials (or_new (map_of (surviving ip now s) ip))))) \<or>
      kMaximumEvents \<le> stamps_held denials ip now s)"

lemma recordDenial_outcome:
  assumes inv: "rl_inv s" and slot: "\<not> no_slot ip now s"
  defines "old \<equiv> or_new (map_of (surviving ip now s) ip)"
  shows "\<exists>c. entry (recordDenial ip limit secs now s) ip = Some c \<and> lastSeen c = now \<and>
    (if denial_blocks ip limit now s then blockedUntil c = now + seconds (int (unat secs)) \<and> denials c = []
     else blockedUntil c = blockedUntil old \<and>
       denials c = dropWhile (\<lambda>v. v \<le> now - minutes 1) (denials old) @ [now])"
proof -
  obtain s' where fc: "findOrCreate ip now (cleanup now False s) = (Some old, s')"
    "rl_eventCount s' = of_nat (weigh stamps (surviving ip now s))"
    using slot by (auto simp: old_def intro: findOrCreate_surviving [OF inv, of ip now])
  have "length (denials c) \<le> stamps c" for c by (simp add: stamps_def)
  from stamps_held_unat [where kind = denials, OF inv this fc(2)] fc(1) slot show ?thesis
    by (auto simp: recordDenial_def Let_def trim_stamps_eq denial_blocks_def old_def)
qed

text \<open>What an operation may be while a block that ends at \<open>d\<close> stands, up to time \<open>t\<close>.\<close>

fun not_lifting :: "string \<Rightarrow> int \<Rightarrow> rl_event \<Rightarrow> int \<Rightarrow> bool" where
  "not_lifting ip d (Unblock ip') u \<longleftrightarrow> ip' \<noteq> ip"
| "not_lifting ip d Clear u \<longleftrightarrow> False"
| "not_lifting ip d (RecordDenial ip' limit secs) u \<longleftrightarrow> ip' = ip \<longrightarrow> d \<le> u + seconds (int (unat secs))"
| "not_lifting ip d (Blocked ip') u \<longleftrightarrow> True"
| "not_lifting ip d (RequestExceeded ip' limit) u \<longleftrightarrow> True"

lemma not_lifting_keeps: "not_lifting ip d e u \<Longrightarrow> u \<le> t \<Longrightarrow> t < d \<Longrightarrow> keeps_block ip t (u, e)"
  by (cases e) auto

section \<open>Properties\<close>

text \<open>C18. The limiter's memory is bounded whatever the clients do: after any history of
  operations with any clock readings, at most 1024 clients are tracked under distinct
  addresses, the 32 bit counter equals the number of stored time stamps (so none of its
  subtractions ever wrapped), and it never exceeds 131072.\<close>

theorem limiter_bounded:
  fixes es :: "(int \<times> rl_event) list"
  defines "s \<equiv> foldl rl_step rl_init es"
  shows "distinct (map fst (rl_clients s)) \<and> length (rl_clients s) \<le> 1024 \<and>
    unat (rl_eventCount s) =
      (\<Sum>(ip, c) \<leftarrow> rl_clients s. length (requests c) + length (denials c)) \<and>
    unat (rl_eventCount s) \<le> 131072"
proof -
  have "rl_inv s" unfolding s_def by (rule rl.inv_reachable)
  moreover have "(\<Sum>(ip, c) \<leftarrow> rl_clients s. length (requests c) + length (denials c)) =
      weigh stamps (rl_clients s)"
    by (simp add: weigh_def stamps_def comp_def case_prod_unfold)
  ultimately show ?thesis by (simp add: rl_inv_def limits unat_of_nat)
qed

text \<open>C15. The sliding window: on a clock that does not go back, with one request limit
  \<open>n\<close> and no administrative unblock or clear of the address, any interval of one minute
  holds at most \<open>n\<close> accepted requests of that address. Clean-ups, denials, refused
  requests and the traffic of other addresses are all part of the history.\<close>

theorem sliding_window:
  assumes "sorted (map fst es)" and "\<forall>(u, e) \<in> set es. undisturbed ip n e"
  shows "length (filter (in_window t) (accepted_of ip rl_init es)) \<le> n"
  using assms by (rule window_bound)

definition example_history :: "(int \<times> rl_event) list" where
  "example_history =
     [(1, RequestExceeded ''10.0.0.1'' 2), (2, RequestExceeded ''10.0.0.1'' 2),
      (3, RequestExceeded ''10.0.0.1'' 2), (4, RecordDenial ''10.0.0.2'' 1 5)]"

lemmas eval_limiter = example_history_def rl_init_def requestExceeded_def recordDenial_def
  findOrCreate_def cleanup_def write_client_def new_client_def minutes_def seconds_def
  Let_def limits stale_client_def

theorem sliding_window_witness:
  "accepted_of ''10.0.0.1'' rl_init example_history = [1, 2] \<and>
   length (filter (in_window 3) (accepted_of ''10.0.0.1'' rl_init example_history)) \<le> 2"
proof
  show "accepted_of ''10.0.0.1'' rl_init example_history = [1, 2]"
    by (simp add: eval_limiter)
  show "length (filter (in_window 3) (accepted_of ''10.0.0.1'' rl_init example_history)) \<le> 2"
    by (rule sliding_window) (simp_all add: example_history_def)
qed

text \<open>C16. Refusals are exact: under the same conditions, when the tables have room, a
  request is refused if and only if the address already has \<open>n\<close> accepted requests within
  the last minute; a client that was refused drains back under the limit.\<close>

text \<open>C16. Refusals are exact. On a clock that does not go back and under one request limit,
  after any history of operations without an unblock or clear of the address, a request is
  refused if and only if the limit is zero, or the tables are crowded (there is neither a
  record nor a place for one, or the global number of stored time stamps is used up), or the
  address already has as many accepted requests within the last minute as the limit allows.
  In particular a refused client drains back under the limit, and the tables are never crowded
  while they have room.\<close>

theorem request_refused_iff:
  assumes "sorted (map fst es @ [now])" and "\<forall>(u, e) \<in> set es. undisturbed ip (unat limit) e"
  shows "(fst (requestExceeded ip limit now (foldl rl_step rl_init es)) \<longleftrightarrow>
      limit = 0 \<or> crowded ip now (foldl rl_step rl_init es) \<or>
      unat limit \<le> length (filter (in_window now) (accepted_of ip rl_init es))) \<and>
    \<not> (crowded ip now (foldl rl_step rl_init es) \<and> has_room ip (foldl rl_step rl_init es))"
proof -
  let ?s = "foldl rl_step rl_init es" and ?acc = "accepted_of ip rl_init es"
  let ?x = "map_of (surviving ip now ?s) ip"
  have W: "window_inv ip (unat limit) now ?s ?acc" by (rule window_inv_history [OF assms(1,2)])
  then have inv: "rl_inv ?s" by (simp add: window_inv_def)
  from W have "tracks now ?acc ?x"
    using surviving_ages [OF inv, of now ip] by (auto simp: window_inv_def intro: tracks_ages)
  with W have "length (dropWhile (\<lambda>v. v \<le> now - minutes 1) (requests (or_new ?x))) =
      length (filter (in_window now) ?acc)" by (simp add: window_inv_def window_count)
  then have "fst (requestExceeded ip limit now ?s) \<longleftrightarrow>
      limit = 0 \<or> crowded ip now ?s \<or> unat limit \<le> length (filter (in_window now) ?acc)"
    using requestExceeded_refuses [OF inv, of limit ip now] by (cases "limit = 0") simp_all
  with crowded_no_room [OF inv] show ?thesis by blast
qed

theorem request_refused_iff_witness:
  "fst (requestExceeded ''10.0.0.1'' 2 5 (foldl rl_step rl_init example_history)) \<and>
   \<not> fst (requestExceeded ''10.0.0.1'' 2 60000000002 (foldl rl_step rl_init example_history)) \<and>
   fst (requestExceeded ''10.0.0.3'' 0 5 (foldl rl_step rl_init example_history))"
proof (intro conjI)
  show "fst (requestExceeded ''10.0.0.1'' 2 5 (foldl rl_step rl_init example_history))"
    using request_refused_iff [of example_history 5 "''10.0.0.1''" 2] by (simp add: eval_limiter in_window_def)
  show "\<not> fst (requestExceeded ''10.0.0.1'' 2 60000000002 (foldl rl_step rl_init example_history))"
    using request_refused_iff [of example_history 60000000002 "''10.0.0.1''" 2]
    by (simp add: eval_limiter in_window_def has_room_def)
  show "fst (requestExceeded ''10.0.0.3'' 0 5 (foldl rl_step rl_init example_history))"
    using request_refused_iff [of example_history 5 "''10.0.0.3''" 0] by (simp add: eval_limiter)
qed

text \<open>C17. A denial blocks when there is a record or a place for one and the denials of the
  last minute reach the limit (a first denial at limit one or zero included), and the block
  lasts its whole time: at every later moment \<open>t\<close> before its end, after any operations read up
  to \<open>t\<close> other than an unblock of the address, a clear, or another denial of the address whose
  own block would end sooner, \<open>blocked\<close> answers true. In particular no clean-up drops a
  blocked client.\<close>

theorem block_persists:
  assumes "rl_inv s" and "denial_blocks ip limit now s"
    and "t < now + seconds (int (unat secs))"
    and "\<forall>(u, e) \<in> set es. u \<le> t \<and> not_lifting ip (now + seconds (int (unat secs))) e u"
  shows "fst (blocked ip t (foldl rl_step (recordDenial ip limit secs now s) es))"
proof -
  let ?s = "recordDenial ip limit secs now s"
  have inv: "rl_inv ?s" by (rule rl_inv_recordDenial [OF assms(1)])
  have "\<not> no_slot ip now s" using assms(2) by (simp add: denial_blocks_def)
  from recordDenial_outcome [OF assms(1) this, of limit secs] assms(2,3)
  have past: "blocked_past ip t ?s" by (auto simp: blocked_past_def)
  have "\<forall>e \<in> set es. keeps_block ip t e" using assms(3,4) not_lifting_keeps by fast
  from blocked_past_run [OF inv past this] show ?thesis
    by (simp add: blocked_iff_past rl.inv_run [OF inv])
qed

theorem block_persists_witness:
  "fst (blocked ''10.0.0.2'' 4000000000
     (foldl rl_step
       (recordDenial ''10.0.0.2'' 1 5 6 (foldl rl_step rl_init example_history))
       [(7, RequestExceeded ''10.0.0.2'' 3), (8, Unblock ''10.0.0.1''), (9, RecordDenial ''10.0.0.2'' 1 5)])) \<and>
   fst (blocked ''10.0.0.9'' 4000000000
     (foldl rl_step (recordDenial ''10.0.0.9'' 1 5 6 rl_init) [(7, RequestExceeded ''10.0.0.9'' 0)]))"
proof (rule conjI; rule block_persists)
  show "rl_inv (foldl rl_step rl_init example_history)" "rl_inv rl_init"
    using rl.inv_reachable [of example_history] rl.inv_reachable [of "[]"] by simp_all
  show "denial_blocks ''10.0.0.2'' 1 6 (foldl rl_step rl_init example_history)"
    by (simp add: denial_blocks_def no_slot_def surviving_def eval_limiter)
  show "denial_blocks ''10.0.0.9'' 1 6 rl_init"
    by (simp add: denial_blocks_def no_slot_def surviving_def eval_limiter)
qed (simp_all add: seconds_def)

text \<open>\<open>blocked\<close> reports exactly the clients whose block time lies in the future, and
  \<open>unblock\<close> lifts a block at once and forgets the client's history.\<close>

theorem unblock_lifts_block:
  fixes es :: "(int \<times> rl_event) list"
  defines "s \<equiv> foldl rl_step rl_init es"
  shows "(fst (blocked ip t s) = (\<exists>c. entry s ip = Some c \<and> t < blockedUntil c)) \<and>
    \<not> fst (blocked ip t (snd (unblock ip s))) \<and> entry (snd (unblock ip s)) ip = None \<and>
    (fst (unblock ip s) = (entry s ip \<noteq> None))"
proof -
  have inv: "rl_inv s" unfolding s_def by (rule rl.inv_reachable)
  have gone: "entry (snd (unblock ip s)) ip = None"
    by (auto simp: unblock_def AList.delete_conv' split: option.split)
  with blocked_iff_past [OF rl_inv_unblock [OF inv]] blocked_iff_past [OF inv] show ?thesis
    by (auto simp: blocked_past_def unblock_def split: option.split)
qed

end
