(* ===== verification/Cas_Loop.thy ===== *)
theory Cas_Loop
  imports FastDL_Prelude
begin

text \<open>
  The lock-free update loop that \<open>saturatingAdd\<close> (\<^verbatim>\<open>src/src/transfer_metrics.cpp\<close>) and
  \<open>BandwidthLimiter::reserve\<close> (\<^verbatim>\<open>src/src/bandwidth_limiter.cpp\<close>) share:
  \<^verbatim>\<open>current = cell.load(); for (;;) { next = f(current);
    if (cell.compare_exchange_weak(current, next)) return; }\<close>
  Threads are numbered, each with an argument \<open>a\<close> that fixes its function \<open>f = upd a\<close>;
  steps of different threads interleave freely, and a weak exchange may also fail without
  cause. The theorems say that such a loop is an atomic application of \<open>f\<close>: this is what
  lets the components model each call as one step.
\<close>

section \<open>The loop as a step relation\<close>

datatype ('a, 'v) cas_pc =
    Ready 'a
  | Loaded 'a 'v
  | Finished 'a 'v

record ('a, 'v) cas_state =
  cell :: 'v
  pcs :: "nat \<Rightarrow> ('a, 'v) cas_pc"
  committed :: "'a list"

text \<open>\<open>committed\<close> records the arguments in the order of the successful exchanges; no step
  reads it.\<close>

inductive cas_step ::
  "('a \<Rightarrow> 'v \<Rightarrow> 'v) \<Rightarrow> ('a, 'v) cas_state \<Rightarrow> ('a, 'v) cas_state \<Rightarrow> bool"
  for upd :: "'a \<Rightarrow> 'v \<Rightarrow> 'v" where
  load: "pcs s i = Ready a \<Longrightarrow> cas_step upd s (s\<lparr>pcs := (pcs s)(i := Loaded a (cell s))\<rparr>)"
| exchange: "pcs s i = Loaded a (cell s) \<Longrightarrow>
    cas_step upd s (s\<lparr>cell := upd a (cell s), pcs := (pcs s)(i := Finished a (cell s)),
      committed := committed s @ [a]\<rparr>)"
| retry: "pcs s i = Loaded a v \<Longrightarrow>
    cas_step upd s (s\<lparr>pcs := (pcs s)(i := Loaded a (cell s))\<rparr>)"

definition cas_start :: "'v \<Rightarrow> (nat \<Rightarrow> 'a) \<Rightarrow> ('a, 'v) cas_state" where
  "cas_start v args = \<lparr>cell = v, pcs = (\<lambda>i. Ready (args i)), committed = []\<rparr>"

fun is_finished :: "('a, 'v) cas_pc \<Rightarrow> bool" where
  "is_finished (Finished a v) = True"
| "is_finished _ = False"

fun arg_of :: "('a, 'v) cas_pc \<Rightarrow> 'a" where
  "arg_of (Ready a) = a"
| "arg_of (Loaded a v) = a"
| "arg_of (Finished a v) = a"

definition applied :: "('a \<Rightarrow> 'v \<Rightarrow> 'v) \<Rightarrow> 'v \<Rightarrow> 'a list \<Rightarrow> 'v" where
  "applied upd v as = foldl (\<lambda>x a. upd a x) v as"

lemma applied_simps [simp]:
  "applied upd v [] = v"
  "applied upd v (as @ [a]) = upd a (applied upd v as)"
  by (simp_all add: applied_def)

section \<open>Interleavings are sequential\<close>

text \<open>A cell updated by such loops, with a property \<open>good\<close> of its values that each
  update keeps.\<close>

locale cas_cell =
  fixes upd :: "'a \<Rightarrow> 'v \<Rightarrow> 'v"
    and good :: "'v \<Rightarrow> bool"
  assumes upd_good: "good v \<Longrightarrow> good (upd a v)"
begin

lemma cell_linear:
  assumes "(cas_step upd)\<^sup>*\<^sup>* (cas_start v args) s"
  shows "cell s = applied upd v (committed s)"
  using assms
  by (induction rule: rtranclp_induct) (auto simp: cas_start_def elim!: cas_step.cases)

text \<open>Each finished thread computed from the value its exchange replaced, the result of the
  updates committed before it.\<close>

lemma finished_linear:
  assumes "(cas_step upd)\<^sup>*\<^sup>* (cas_start v args) s" and "pcs s i = Finished a x"
  shows "\<exists>as bs. committed s = as @ a # bs \<and> x = applied upd v as"
  using assms
proof (induction arbitrary: i a x rule: rtranclp_induct)
  case base
  then show ?case by (simp add: cas_start_def)
next
  case (step y z)
  note lin = cell_linear [OF step.hyps(1)]
  from step.hyps(2) show ?case
  proof cases
    case (exchange j b)
    then show ?thesis using step.IH [of i a x] step.prems lin
      by (cases "j = i") (fastforce simp: append_eq_append_conv2)+
  qed (use step.IH [of i a x] step.prems in \<open>auto split: if_splits\<close>)
qed

lemma applied_good: "good v \<Longrightarrow> good (applied upd v as)"
  by (induction as rule: rev_induct) (auto intro: upd_good)

lemma cell_good:
  "(cas_step upd)\<^sup>*\<^sup>* (cas_start v args) s \<Longrightarrow> good v \<Longrightarrow> good (cell s)"
  by (simp add: cell_linear applied_good)

text \<open>Every finished call is committed exactly once.\<close>

lemma committed_once:
  assumes "(cas_step upd)\<^sup>*\<^sup>* (cas_start v args) s"
  shows "(\<forall>i. arg_of (pcs s i) = args i) \<and> finite {i. is_finished (pcs s i)} \<and>
    mset (committed s) = image_mset args (mset_set {i. is_finished (pcs s i)})"
  using assms
proof (induction rule: rtranclp_induct)
  case base
  then show ?case by (simp add: cas_start_def)
next
  case (step y z)
  from step.hyps(2) show ?case
  proof cases
    case (exchange i a)
    let ?F = "{j. is_finished (pcs y j)}"
    have "{j. is_finished (pcs z j)} = insert i ?F" and "i \<notin> ?F"
      using exchange by auto
    moreover have "args i = a" using step.IH exchange(2) by (metis arg_of.simps(2))
    ultimately show ?thesis using step.IH exchange(1,2) by auto
  next
    case (load i a)
    then have "{j. is_finished (pcs z j)} = {j. is_finished (pcs y j)}" by auto
    with step.IH load show ?thesis by (auto, metis arg_of.simps(1))
  next
    case (retry i a v)
    then have "{j. is_finished (pcs z j)} = {j. is_finished (pcs y j)}" by auto
    with step.IH retry show ?thesis by (auto, metis arg_of.simps(2))
  qed
qed

text \<open>A thread left alone finishes: at most one retry, then the exchange succeeds.\<close>

lemma runs_alone:
  assumes "pcs s i = Loaded a v"
  shows "\<exists>s'. (cas_step upd)\<^sup>*\<^sup>* s s' \<and> pcs s' i = Finished a (cell s) \<and>
    cell s' = upd a (cell s)"
proof -
  let ?s1 = "s\<lparr>pcs := (pcs s)(i := Loaded a (cell s))\<rparr>"
  let ?s2 = "?s1\<lparr>cell := upd a (cell s), pcs := (pcs ?s1)(i := Finished a (cell s)),
    committed := committed s @ [a]\<rparr>"
  have "cas_step upd s ?s1" using assms by (rule cas_step.retry)
  moreover have "cas_step upd ?s1 ?s2"
    using cas_step.exchange [of ?s1 i a upd] by simp
  ultimately have "(cas_step upd)\<^sup>*\<^sup>* s ?s2" by auto
  then show ?thesis by auto
qed

end

text \<open>Where the updates commute, the order of the exchanges does not matter either.\<close>

locale commuting_cell = cas_cell +
  assumes upd_commute: "upd a (upd b v) = upd b (upd a v)"
begin

lemma applied_move: "applied upd v (as @ a # bs) = upd a (applied upd v (as @ bs))"
proof (induction bs rule: rev_induct)
  case Nil
  then show ?case by simp
next
  case (snoc b bs)
  have "applied upd v ((as @ a # bs) @ [b]) = upd b (upd a (applied upd v (as @ bs)))"
    using snoc.IH by (simp only: applied_simps)
  also have "\<dots> = upd a (applied upd v ((as @ bs) @ [b]))"
    by (simp only: applied_simps upd_commute)
  finally show ?case by simp
qed

lemma applied_perm: "mset as = mset bs \<Longrightarrow> applied upd v as = applied upd v bs"
proof (induction as arbitrary: bs rule: rev_induct)
  case Nil
  then show ?case by simp
next
  case (snoc a as)
  then have "a \<in> set bs" by (metis in_set_conv_decomp set_mset_mset)
  then obtain xs ys where bs: "bs = xs @ a # ys" by (meson split_list)
  with snoc.prems have "mset as = mset (xs @ ys)" by simp
  from snoc.IH [OF this] bs show ?case by (simp add: applied_move)
qed

end

end
