(* ===== verification/Transfer_Metrics.thy ===== *)
theory Transfer_Metrics
  imports Cas_Loop Complex_Main
begin

text \<open>
  The transfer counters and the rolling throughput window
  (\<^verbatim>\<open>src/src/transfer_metrics.cpp\<close>, \<^verbatim>\<open>transfer_metrics.h\<close>). Counters are 64 bit and
  saturate, except that a finished transfer decrements \<open>active\<close> with wrap-around. Each
  operation is one step: the counter updates are the compare-exchange loops of theory
  \<open>Cas_Loop\<close>, and a bucket is reset under its mutex. Operations that read the clock take
  the second they read as an argument; the throughput, a \<open>double\<close> in the code, is the
  exact rational value.
\<close>

section \<open>State\<close>

datatype TransferOutcome = Completed | Aborted | TimedOut | Failed

record TransferStats =
  ts_requests :: u64
  ts_active :: u64
  ts_completed :: u64
  ts_aborted :: u64
  ts_timedOut :: u64
  ts_failed :: u64
  ts_transferredBytes :: u64
  ts_throughputBitsPerSecond :: rat

record bucket =
  bk_second :: int
  bk_bytes :: u64

record TransferMetrics =
  tm_requests :: u64
  tm_active :: u64
  tm_completed :: u64
  tm_aborted :: u64
  tm_timedOut :: u64
  tm_failed :: u64
  tm_transferredBytes :: u64
  tm_buckets :: "bucket list"
  tm_startedSecond :: int

definition kWindowSeconds :: nat where "kWindowSeconds = 10"

section \<open>Operations\<close>

definition saturatingAdd :: "u64 \<Rightarrow> u64 \<Rightarrow> u64" where
  "saturatingAdd value amount = saturate value amount"

definition metrics_reset :: "int \<Rightarrow> TransferMetrics" where
  "metrics_reset now =
     \<lparr>tm_requests = 0, tm_active = 0, tm_completed = 0, tm_aborted = 0, tm_timedOut = 0,
      tm_failed = 0, tm_transferredBytes = 0,
      tm_buckets = replicate kWindowSeconds \<lparr>bk_second = - 1, bk_bytes = 0\<rparr>,
      tm_startedSecond = now\<rparr>"

definition requestStarted :: "TransferMetrics \<Rightarrow> TransferMetrics" where
  "requestStarted m = m\<lparr>tm_requests := saturatingAdd (tm_requests m) 1\<rparr>"

definition transferStarted :: "TransferMetrics \<Rightarrow> TransferMetrics" where
  "transferStarted m = m\<lparr>tm_active := saturatingAdd (tm_active m) 1\<rparr>"

text \<open>\<open>static_cast<std::size_t>(second) % buckets_.size()\<close>: the cast keeps 32 bits.\<close>

definition bucket_index :: "int \<Rightarrow> nat" where
  "bucket_index sec = unat (word_of_int sec :: size_t) mod kWindowSeconds"

definition add_to_bucket :: "u64 \<Rightarrow> int \<Rightarrow> bucket \<Rightarrow> bucket" where
  "add_to_bucket n sec b =
     (let b1 = (if bk_second b \<noteq> sec then \<lparr>bk_second = sec, bk_bytes = 0\<rparr> else b)
      in b1\<lparr>bk_bytes := saturatingAdd (bk_bytes b1) n\<rparr>)"

definition bytesSupplied :: "u64 \<Rightarrow> int \<Rightarrow> TransferMetrics \<Rightarrow> TransferMetrics" where
  "bytesSupplied n sec m =
     (if n = 0 then m
      else (let i = bucket_index sec
            in m\<lparr>tm_transferredBytes := saturatingAdd (tm_transferredBytes m) n,
                 tm_buckets := (tm_buckets m)[i := add_to_bucket n sec (tm_buckets m ! i)]\<rparr>))"

definition failure :: "TransferMetrics \<Rightarrow> TransferMetrics" where
  "failure m = m\<lparr>tm_failed := saturatingAdd (tm_failed m) 1\<rparr>"

definition transferFinished :: "TransferOutcome \<Rightarrow> TransferMetrics \<Rightarrow> TransferMetrics" where
  "transferFinished outcome m =
     (let m1 = m\<lparr>tm_active := tm_active m - 1\<rparr>
      in (case outcome of
            Completed \<Rightarrow> m1\<lparr>tm_completed := saturatingAdd (tm_completed m1) 1\<rparr>
          | Aborted \<Rightarrow> m1\<lparr>tm_aborted := saturatingAdd (tm_aborted m1) 1\<rparr>
          | TimedOut \<Rightarrow> m1\<lparr>tm_timedOut := saturatingAdd (tm_timedOut m1) 1\<rparr>
          | Failed \<Rightarrow> failure m1))"

definition recent :: "int \<Rightarrow> bucket \<Rightarrow> bool" where
  "recent now b \<longleftrightarrow> bk_second b \<le> now \<and> bk_second b > now - int kWindowSeconds"

fun recent_bytes :: "int \<Rightarrow> bucket list \<Rightarrow> u64 \<Rightarrow> u64" where
  "recent_bytes now [] acc = acc"
| "recent_bytes now (b # bs) acc =
     recent_bytes now bs (if recent now b then saturate acc (bk_bytes b) else acc)"

definition window_length :: "int \<Rightarrow> int \<Rightarrow> int" where
  "window_length started now =
     (let elapsed = (if started < 0 then 1 else max 1 (now - started + 1))
      in min (int kWindowSeconds) elapsed)"

definition snapshot :: "int \<Rightarrow> TransferMetrics \<Rightarrow> TransferStats" where
  "snapshot now m =
     \<lparr>ts_requests = tm_requests m, ts_active = tm_active m, ts_completed = tm_completed m,
      ts_aborted = tm_aborted m, ts_timedOut = tm_timedOut m, ts_failed = tm_failed m,
      ts_transferredBytes = tm_transferredBytes m,
      ts_throughputBitsPerSecond =
        of_nat (unat (recent_bytes now (tm_buckets m) 0)) * 8 /
        of_int (window_length (tm_startedSecond m) now)\<rparr>"

section \<open>Histories\<close>

datatype tm_event =
    RequestStarted
  | TransferStarted
  | BytesSupplied u64 int
  | Failure
  | TransferFinished TransferOutcome

fun tm_step :: "TransferMetrics \<Rightarrow> tm_event \<Rightarrow> TransferMetrics" where
  "tm_step m RequestStarted = requestStarted m"
| "tm_step m TransferStarted = transferStarted m"
| "tm_step m (BytesSupplied n sec) = bytesSupplied n sec m"
| "tm_step m Failure = failure m"
| "tm_step m (TransferFinished outcome) = transferFinished outcome m"

text \<open>The seconds a history reports bytes for, in order, and the bytes of one second.\<close>

fun supplies :: "tm_event list \<Rightarrow> (int \<times> nat) list" where
  "supplies [] = []"
| "supplies (BytesSupplied n sec # es) = (if n = 0 then [] else [(sec, unat n)]) @ supplies es"
| "supplies (_ # es) = supplies es"

definition bytes_at :: "(int \<times> nat) list \<Rightarrow> int \<Rightarrow> nat" where
  "bytes_at xs sec = (\<Sum>(s, n) \<leftarrow> xs. if s = sec then n else 0)"

definition bytes_between :: "(int \<times> nat) list \<Rightarrow> int \<Rightarrow> int \<Rightarrow> nat" where
  "bytes_between xs lo hi = (\<Sum>(s, n) \<leftarrow> xs. if lo < s \<and> s \<le> hi then n else 0)"

section \<open>Concurrent counters\<close>

lemma saturate_commute: "saturate (saturate v a) b = saturate (saturate v b) a"
  by (rule word_unat_eq_iff [THEN iffD2]) (simp add: unat_saturate ac_simps)

interpretation counter: commuting_cell "\<lambda>amount v. saturatingAdd v amount" "\<lambda>v. True"
  by unfold_locales (simp_all add: saturatingAdd_def saturate_commute)

lemma applied_saturatingAdd:
  "unat (applied (\<lambda>amount v. saturatingAdd v amount) v as) =
     min 18446744073709551615 (unat v + (\<Sum>a \<leftarrow> as. unat a))"
proof (induction as rule: rev_induct)
  case Nil
  then show ?case using unat_u64_le [of v] by simp
next
  case (snoc a as)
  then show ?case by (simp add: saturatingAdd_def unat_saturate)
qed

section \<open>The rolling window\<close>

lemma bucket_index_eq:
  assumes "0 \<le> sec" and "sec < 4294967296"
  shows "bucket_index sec = nat (sec mod 10)"
proof -
  have "unat (word_of_int sec :: size_t) = nat sec"
    using assms by (simp add: unsigned_of_int take_bit_int_eq_self)
  with assms(1) show ?thesis
    by (simp add: bucket_index_def kWindowSeconds_def nat_mod_distrib)
qed

definition bucket_inv :: "(int \<times> nat) list \<Rightarrow> nat \<Rightarrow> bucket \<Rightarrow> bool" where
  "bucket_inv xs j b \<longleftrightarrow>
     (bk_second b = - 1 \<and> bk_bytes b = 0 \<or> 0 \<le> bk_second b \<and> nat (bk_second b mod 10) = j) \<and>
     (\<forall>u \<ge> 0. nat (u mod 10) = j \<and> (\<forall>(s, n) \<in> set xs. nat (s mod 10) = j \<longrightarrow> s \<le> u) \<longrightarrow>
        (if bk_second b = u then unat (bk_bytes b) else 0) =
          min 18446744073709551615 (bytes_at xs u))"

definition buckets_inv :: "(int \<times> nat) list \<Rightarrow> bucket list \<Rightarrow> bool" where
  "buckets_inv xs bs \<longleftrightarrow> length bs = 10 \<and> (\<forall>j < 10. bucket_inv xs j (bs ! j))"

lemma bytes_at_simps [simp]:
  "bytes_at [] u = 0"
  "bytes_at (xs @ [(s, n)]) u = bytes_at xs u + (if s = u then n else 0)"
  by (simp_all add: bytes_at_def)

lemma bytes_at_notin: "u \<notin> fst ` set xs \<Longrightarrow> bytes_at xs u = 0"
  by (induction xs rule: rev_induct) (auto simp: bytes_at_def)

lemma bucket_inv_at:
  assumes "bucket_inv xs j b" and "0 \<le> u" and "nat (u mod 10) = j"
    and "\<And>s n. (s, n) \<in> set xs \<Longrightarrow> nat (s mod 10) = j \<Longrightarrow> s \<le> u"
  shows "(if bk_second b = u then unat (bk_bytes b) else 0) =
    min 18446744073709551615 (bytes_at xs u)"
  using assms unfolding bucket_inv_def by blast

lemma bucket_inv_other:
  assumes "bucket_inv xs j b" and "nat (sec mod 10) \<noteq> j"
  shows "bucket_inv (xs @ [(sec, n)]) j b"
  using assms by (auto simp: bucket_inv_def)

lemma bucket_inv_add:
  assumes inv: "bucket_inv xs j b" and j: "nat (sec mod 10) = j" "0 \<le> sec"
    and last: "\<forall>(s, m) \<in> set xs. s \<le> sec"
  shows "bucket_inv (xs @ [(sec, unat n)]) j (add_to_bucket n sec b)"
proof -
  have at: "(if bk_second b = sec then unat (bk_bytes b) else 0) =
      min 18446744073709551615 (bytes_at xs sec)"
    using inv j last unfolding bucket_inv_def by fastforce
  let ?b = "add_to_bucket n sec b"
  have sec: "bk_second ?b = sec" by (simp add: add_to_bucket_def Let_def)
  have val: "unat (bk_bytes ?b) = min 18446744073709551615 (bytes_at (xs @ [(sec, unat n)]) sec)"
    using at unat_u64_le [of n]
    by (auto simp: add_to_bucket_def Let_def saturatingAdd_def unat_saturate split: if_splits)
  have later: "bytes_at (xs @ [(sec, unat n)]) u = 0" if "sec < u" for u
    using last that by (force intro!: bytes_at_notin)
  show ?thesis
    unfolding bucket_inv_def using sec val later j
    by (auto simp: not_less order.strict_iff_order)
qed

lemma buckets_inv_add:
  assumes inv: "buckets_inv xs bs" and sec: "0 \<le> sec"
    and last: "\<forall>(s, m) \<in> set xs. s \<le> sec"
  shows "buckets_inv (xs @ [(sec, unat n)])
    (bs[nat (sec mod 10) := add_to_bucket n sec (bs ! nat (sec mod 10))])"
proof -
  have lt: "nat (sec mod 10) < 10" by (simp add: nat_less_iff)
  show ?thesis
    unfolding buckets_inv_def
  proof (intro conjI allI impI)
    show "length (bs[nat (sec mod 10) := add_to_bucket n sec (bs ! nat (sec mod 10))]) = 10"
      using inv by (simp add: buckets_inv_def)
    show "bucket_inv (xs @ [(sec, unat n)]) j
        (bs[nat (sec mod 10) := add_to_bucket n sec (bs ! nat (sec mod 10))] ! j)"
      if "j < 10" for j
      using that inv lt sec last
      by (cases "j = nat (sec mod 10)")
        (auto simp: buckets_inv_def intro: bucket_inv_add bucket_inv_other)
  qed
qed

lemma unat_recent_bytes:
  "unat (recent_bytes now bs acc) =
     min 18446744073709551615
       (unat acc + (\<Sum>b \<leftarrow> bs. if recent now b then unat (bk_bytes b) else 0))"
proof (induction bs arbitrary: acc)
  case Nil
  then show ?case using unat_u64_le [of acc] by simp
next
  case (Cons b bs)
  then show ?case by (simp add: unat_saturate min_min_add add.assoc)
qed

text \<open>The one second of a window that falls into bucket \<open>j\<close>.\<close>

definition second_of :: "int \<Rightarrow> nat \<Rightarrow> int" where
  "second_of now j = now - (now - int j) mod 10"

lemma second_of_iff:
  assumes "j < 10"
  shows "s = second_of now j \<longleftrightarrow> now - 10 < s \<and> s \<le> now \<and> nat (s mod 10) = j"
proof
  assume s: "s = second_of now j"
  have "s mod 10 = (now - (now - int j)) mod 10"
    unfolding s second_of_def by (rule mod_diff_right_eq)
  then have "s mod 10 = int j" using assms by simp
  moreover have "0 \<le> (now - int j) mod 10" "(now - int j) mod 10 < 10" by simp_all
  ultimately show "now - 10 < s \<and> s \<le> now \<and> nat (s mod 10) = j"
    by (simp add: s second_of_def)
next
  assume r: "now - 10 < s \<and> s \<le> now \<and> nat (s mod 10) = j"
  then have "int j = s mod 10" by auto
  then have "(now - int j) mod 10 = (now - s) mod 10" by (simp add: mod_diff_right_eq)
  also have "\<dots> = now - s" using r by simp
  finally show "s = second_of now j" by (simp add: second_of_def)
qed

lemma sum_over_buckets:
  "(\<Sum>j < 10. bytes_at xs (second_of now j)) = bytes_between xs (now - 10) now"
proof (induction xs rule: rev_induct)
  case Nil
  then show ?case by (simp add: bytes_between_def)
next
  case (snoc x xs)
  obtain s n where x: "x = (s, n)" by fastforce
  have "(\<Sum>j < 10. if s = second_of now j then n else 0) =
      (\<Sum>j < 10. if j = nat (s mod 10) then (if now - 10 < s \<and> s \<le> now then n else 0) else 0)"
    by (rule sum.cong) (auto simp: second_of_iff)
  also have "\<dots> = (if now - 10 < s \<and> s \<le> now then n else 0)"
    by (simp add: nat_less_iff)
  finally show ?case using snoc.IH x
    by (simp add: sum.distrib bytes_between_def)
qed

lemma sum_min: "finite A \<Longrightarrow> min (c :: nat) (\<Sum>x \<in> A. min c (f x)) = min c (\<Sum>x \<in> A. f x)"
proof (induction A rule: finite_induct)
  case empty
  then show ?case by simp
next
  case (insert x A)
  then have "min c (min c (f x) + (\<Sum>x \<in> A. min c (f x))) = min c (f x + (\<Sum>x \<in> A. f x))"
    by (metis min_add_min min_min_add)
  with insert.hyps show ?case by simp
qed

lemma bucket_contribution:
  assumes b: "bucket_inv xs j b" and j: "j < 10"
    and past: "\<forall>(s, n) \<in> set xs. 0 \<le> s \<and> s \<le> now"
  shows "(if recent now b then unat (bk_bytes b) else 0) =
    min 18446744073709551615 (bytes_at xs (second_of now j))"
proof -
  let ?u = "second_of now j"
  have u: "now - 10 < ?u" "?u \<le> now" "nat (?u mod 10) = j"
    using second_of_iff [OF j, of ?u now] by auto
  have same: "(if recent now b then unat (bk_bytes b) else 0) =
      (if bk_second b = ?u then unat (bk_bytes b) else 0)"
    using b second_of_iff [OF j, of "bk_second b" now]
    by (auto simp: bucket_inv_def recent_def kWindowSeconds_def)
  show ?thesis
  proof (cases "0 \<le> ?u")
    case True
    have le: "s \<le> ?u" if "(s, n) \<in> set xs" "nat (s mod 10) = j" for s n
    proof (cases "now - 10 < s")
      case True
      with that past second_of_iff [OF j, of s now] show ?thesis by auto
    next
      case False
      with u(1) show ?thesis by simp
    qed
    show ?thesis unfolding same by (rule bucket_inv_at [OF b True u(3) le])
  next
    case False
    then have "bytes_at xs ?u = 0" using past by (force intro: bytes_at_notin)
    moreover from b False have "bk_second b = ?u \<Longrightarrow> bk_bytes b = 0"
      unfolding bucket_inv_def by linarith
    ultimately show ?thesis unfolding same by simp
  qed
qed

lemma recent_bytes_window:
  assumes inv: "buckets_inv xs bs" and past: "\<forall>(s, n) \<in> set xs. 0 \<le> s \<and> s \<le> now"
  shows "unat (recent_bytes now bs 0) = min 18446744073709551615 (bytes_between xs (now - 10) now)"
proof -
  have "(\<Sum>b \<leftarrow> bs. if recent now b then unat (bk_bytes b) else 0) =
      (\<Sum>j < 10. if recent now (bs ! j) then unat (bk_bytes (bs ! j)) else 0)"
    using inv by (simp add: sum_list_sum_nth buckets_inv_def atLeast0LessThan)
  also have "\<dots> = (\<Sum>j < 10. min 18446744073709551615 (bytes_at xs (second_of now j)))"
  proof (rule sum.cong [OF refl])
    fix j assume "j \<in> {..< 10 :: nat}"
    with inv show "(if recent now (bs ! j) then unat (bk_bytes (bs ! j)) else 0) =
        min 18446744073709551615 (bytes_at xs (second_of now j))"
      by (intro bucket_contribution [OF _ _ past]) (simp_all add: buckets_inv_def)
  qed
  finally show ?thesis
    by (simp add: unat_recent_bytes sum_min sum_over_buckets)
qed

lemma supplies_append: "supplies (es @ es') = supplies es @ supplies es'"
  by (induction es rule: supplies.induct) auto

definition valid_seconds :: "int \<Rightarrow> tm_event list \<Rightarrow> bool" where
  "valid_seconds now es \<longleftrightarrow>
     sorted (map fst (supplies es)) \<and>
     (\<forall>(s, n) \<in> set (supplies es). 0 \<le> s \<and> s < 4294967296 \<and> s \<le> now)"

lemma buckets_inv_reset: "buckets_inv [] (tm_buckets (metrics_reset t))"
  by (simp add: buckets_inv_def bucket_inv_def metrics_reset_def kWindowSeconds_def)

lemma tm_step_other_buckets:
  "supplies [e] = [] \<Longrightarrow> tm_buckets (tm_step m e) = tm_buckets m"
  by (cases e) (auto simp: requestStarted_def transferStarted_def bytesSupplied_def failure_def
      transferFinished_def Let_def split: TransferOutcome.split if_splits)

lemma buckets_inv_run:
  "valid_seconds now es \<Longrightarrow> buckets_inv (supplies es) (tm_buckets (foldl tm_step (metrics_reset t) es))"
proof (induction es rule: rev_induct)
  case Nil
  then show ?case by (simp add: buckets_inv_reset)
next
  case (snoc e es)
  let ?m = "foldl tm_step (metrics_reset t) es"
  have IH: "buckets_inv (supplies es) (tm_buckets ?m)"
    using snoc by (auto simp: valid_seconds_def supplies_append sorted_append)
  show ?case
  proof (cases "supplies [e]")
    case Nil
    with IH tm_step_other_buckets [OF Nil, of ?m] show ?thesis by (simp add: supplies_append)
  next
    case (Cons x xs)
    then obtain n sec where e: "e = BytesSupplied n sec" "n \<noteq> 0"
      by (cases e) (auto split: if_splits)
    with snoc.prems have sec: "0 \<le> sec" "sec < 4294967296"
      and last: "\<forall>(s, m) \<in> set (supplies es). s \<le> sec"
      by (auto simp: valid_seconds_def supplies_append sorted_append)
    from buckets_inv_add [OF IH sec(1) last, of n] e sec show ?thesis
      by (simp add: supplies_append bytesSupplied_def bucket_index_eq Let_def)
  qed
qed

lemma startedSecond_step: "tm_startedSecond (tm_step m e) = tm_startedSecond m"
  by (cases e) (auto simp: requestStarted_def transferStarted_def bytesSupplied_def failure_def
      transferFinished_def Let_def split: TransferOutcome.split)

lemma startedSecond_run: "tm_startedSecond (foldl tm_step m es) = tm_startedSecond m"
  by (induction es arbitrary: m) (auto simp: startedSecond_step)

section \<open>Counters along a history\<close>

definition started :: "tm_event list \<Rightarrow> nat" where
  "started es = count_list es TransferStarted"

definition finished :: "tm_event list \<Rightarrow> nat" where
  "finished es = (\<Sum>e \<leftarrow> es. case e of TransferFinished outcome \<Rightarrow> 1 | _ \<Rightarrow> 0)"

text \<open>Transfers finish only after they started, as the server's \<open>activeTransfer\<close> flag has it.\<close>

definition balanced :: "tm_event list \<Rightarrow> bool" where
  "balanced es \<longleftrightarrow> (\<forall>k. finished (take k es) \<le> started (take k es))"

definition total_supplied :: "tm_event list \<Rightarrow> nat" where
  "total_supplied es = (\<Sum>(s, n) \<leftarrow> supplies es. n)"

definition counters_inv :: "tm_event list \<Rightarrow> TransferMetrics \<Rightarrow> bool" where
  "counters_inv es m \<longleftrightarrow>
     unat (tm_active m) + finished es = started es \<and>
     unat (tm_requests m) = count_list es RequestStarted \<and>
     unat (tm_completed m) = count_list es (TransferFinished Completed) \<and>
     unat (tm_aborted m) = count_list es (TransferFinished Aborted) \<and>
     unat (tm_timedOut m) = count_list es (TransferFinished TimedOut) \<and>
     unat (tm_failed m) = count_list es (TransferFinished Failed) + count_list es Failure \<and>
     unat (tm_transferredBytes m) = min 18446744073709551615 (total_supplied es)"

lemma unat_bump:
  "unat v < 18446744073709551615 \<Longrightarrow> unat (saturatingAdd v 1) = Suc (unat v)"
  by (simp add: saturatingAdd_def unat_saturate)

lemma unat_dec: "0 < unat (v :: u64) \<Longrightarrow> unat (v - 1) = unat v - 1"
  by (metis One_nat_def Suc_leI unat_1 unat_sub word_le_nat_alt)

lemma count_snoc [simp]:
  "finished (es @ [e]) = finished es + (case e of TransferFinished outcome \<Rightarrow> 1 | _ \<Rightarrow> 0)"
  "started (es @ [e]) = started es + (if e = TransferStarted then 1 else 0)"
  "total_supplied (es @ [e]) = total_supplied es + total_supplied [e]"
  by (simp_all add: finished_def started_def total_supplied_def supplies_append)

lemma total_supplied_single [simp]:
  "total_supplied [RequestStarted] = 0" "total_supplied [TransferStarted] = 0"
  "total_supplied [Failure] = 0" "total_supplied [TransferFinished outcome] = 0"
  "total_supplied [BytesSupplied n sec] = unat n"
  by (simp_all add: total_supplied_def)

lemma count_two_le: "x \<noteq> y \<Longrightarrow> count_list es x + count_list es y \<le> length es"
  by (induction es) auto

lemmas tm_ops = requestStarted_def transferStarted_def bytesSupplied_def failure_def
  transferFinished_def Let_def

lemma counters_inv_step:
  assumes inv: "counters_inv es m" and len: "length es < 18446744073709551615"
    and ok: "finished (es @ [e]) \<le> started (es @ [e])"
  shows "counters_inv (es @ [e]) (tm_step m e)"
proof -
  have one: "count_list es x < 18446744073709551615" for x
    using count_le_length [of es x] len by simp
  have two: "count_list es (TransferFinished Failed) + count_list es Failure < 18446744073709551615"
    using count_two_le [of "TransferFinished Failed" Failure es] len by simp
  have act: "unat (tm_active m) < 18446744073709551615"
    using inv one [of TransferStarted] by (simp add: counters_inv_def started_def)
  show ?thesis
  proof (cases e)
    case (TransferFinished outcome)
    with ok inv have "0 < unat (tm_active m)" by (simp add: counters_inv_def)
    with TransferFinished inv one two show ?thesis
      by (cases outcome)
        (simp_all add: counters_inv_def tm_ops unat_dec unat_bump)
  next
    case (BytesSupplied n sec)
    with inv show ?thesis
      by (simp add: counters_inv_def tm_ops saturatingAdd_def unat_saturate min_min_add)
  qed (use inv one two act in \<open>simp_all add: counters_inv_def tm_ops unat_bump\<close>)
qed

lemma counters_inv_run:
  "balanced es \<Longrightarrow> length es < 18446744073709551616 \<Longrightarrow>
     counters_inv es (foldl tm_step (metrics_reset t) es)"
proof (induction es rule: rev_induct)
  case Nil
  then show ?case
    by (simp add: counters_inv_def metrics_reset_def started_def finished_def total_supplied_def)
next
  case (snoc e es)
  have "balanced es" unfolding balanced_def
  proof
    fix k
    show "finished (take k es) \<le> started (take k es)"
      using snoc.prems(1) [unfolded balanced_def, rule_format, of "min k (length es)"]
      by (simp add: min_def split: if_splits)
  qed
  moreover have "finished (es @ [e]) \<le> started (es @ [e])"
    using snoc.prems(1) [unfolded balanced_def, rule_format, of "length (es @ [e])"] by simp
  ultimately show ?case using snoc by (simp add: counters_inv_step)
qed

section \<open>Properties\<close>

text \<open>C21. The rolling throughput is exact: after any history whose bytes are reported for
  non-decreasing seconds, the snapshot's rate is eight times the bytes of the last ten
  seconds (capped at the 64 bit maximum) over the window length, so the ten reused buckets
  never mix seconds and an idle server reports zero.\<close>

theorem throughput_exact:
  assumes "valid_seconds now es"
  shows "ts_throughputBitsPerSecond (snapshot now (foldl tm_step (metrics_reset t) es)) =
    of_nat (min 18446744073709551615 (bytes_between (supplies es) (now - 10) now)) * 8 /
    of_int (window_length t now)"
proof -
  have "\<forall>(s, n) \<in> set (supplies es). 0 \<le> s \<and> s \<le> now"
    using assms by (auto simp: valid_seconds_def)
  from recent_bytes_window [OF buckets_inv_run [OF assms, of t] this] show ?thesis
    by (simp add: snapshot_def startedSecond_run metrics_reset_def)
qed

definition example_transfers :: "tm_event list" where
  "example_transfers =
     [RequestStarted, TransferStarted, BytesSupplied 1000 7, BytesSupplied 500 17,
      BytesSupplied 24 18, TransferFinished Completed]"

theorem throughput_exact_witness:
  "valid_seconds 18 example_transfers \<and>
   ts_throughputBitsPerSecond (snapshot 18 (foldl tm_step (metrics_reset 5) example_transfers)) =
     of_nat (min 18446744073709551615 (bytes_between (supplies example_transfers) 8 18)) * 8 /
     of_int (window_length 5 18) \<and>
   bytes_between (supplies example_transfers) 8 18 = 524"
proof -
  have v: "valid_seconds 18 example_transfers"
    by (simp add: valid_seconds_def example_transfers_def)
  show ?thesis
    using v throughput_exact [OF v, of 5]
    by (simp add: example_transfers_def bytes_between_def)
qed

text \<open>C22. The counters are exact: in a history where transfers finish only after they
  started, \<open>active\<close> is the number of unfinished transfers (its decrement never wraps), each
  outcome counter is the number of transfers with that outcome, \<open>failed\<close> adds the requests
  that failed before a transfer, and the byte total saturates instead of wrapping.\<close>

theorem counters_exact:
  assumes "balanced es" and "length es < 2 ^ 64"
  shows "let st = snapshot now (foldl tm_step (metrics_reset t) es) in
    unat (ts_active st) + finished es = started es \<and>
    unat (ts_requests st) = count_list es RequestStarted \<and>
    unat (ts_completed st) = count_list es (TransferFinished Completed) \<and>
    unat (ts_aborted st) = count_list es (TransferFinished Aborted) \<and>
    unat (ts_timedOut st) = count_list es (TransferFinished TimedOut) \<and>
    unat (ts_failed st) = count_list es (TransferFinished Failed) + count_list es Failure \<and>
    unat (ts_transferredBytes st) = min (2 ^ 64 - 1) (\<Sum>(s, n) \<leftarrow> supplies es. n)"
  using counters_inv_run [OF assms(1), of t] assms(2)
  by (simp add: counters_inv_def snapshot_def total_supplied_def Let_def)

theorem counters_exact_witness:
  "unat (ts_active (snapshot 18 (foldl tm_step (metrics_reset 5) example_transfers))) +
     finished example_transfers = started example_transfers"
proof -
  have b: "balanced example_transfers" unfolding balanced_def
  proof
    fix k :: nat
    have "k \<in> {0, 1, 2, 3, 4, 5} \<or> 6 \<le> k" by auto
    then show "finished (take k example_transfers) \<le> started (take k example_transfers)"
      by (auto simp: example_transfers_def finished_def started_def)
  qed
  show ?thesis using counters_exact [OF b, of 18 5] by (simp add: example_transfers_def Let_def)
qed

text \<open>C23. No update of a shared counter is lost or applied twice: when threads
  \<open>0 ..< n\<close> race through \<open>saturatingAdd\<close> on one atomic, in any interleaving and with any
  spurious failures of the weak exchange, then once exactly they have returned the counter
  holds the initial value plus all their amounts, capped at the maximum.\<close>

theorem concurrent_counter_exact:
  assumes "(cas_step (\<lambda>amount v. saturatingAdd v amount))\<^sup>*\<^sup>* (cas_start v args) s"
    and "\<forall>i. is_finished (pcs s i) = (i < n)"
  shows "unat (cell s) = min (2 ^ 64 - 1) (unat v + (\<Sum>i < n. unat (args i)))"
proof -
  have "{i. is_finished (pcs s i)} = {..< n}" using assms(2) by auto
  with counter.committed_once [OF assms(1)]
  have "mset (committed s) = image_mset args (mset_set {..< n})" by simp
  then have "mset (committed s) = mset (map args [0 ..< n])"
    by (simp add: lessThan_atLeast0 mset_set_upto_eq_mset_upto)
  then have "cell s = applied (\<lambda>amount v. saturatingAdd v amount) v (map args [0 ..< n])"
    by (simp add: counter.cell_linear [OF assms(1)] counter.applied_perm)
  then show ?thesis
    by (simp add: applied_saturatingAdd comp_def interv_sum_list_conv_sum_set_nat atLeast0LessThan)
qed

text \<open>Two threads, the second overtaking the first between its load and its exchange.\<close>

definition raced :: "(u64, u64) cas_state" where
  "raced = \<lparr>cell = 11,
     pcs = (\<lambda>i. Ready 5)(0 := Finished 5 6, 1 := Finished 5 1), committed = [5, 5]\<rparr>"

lemma raced_reachable:
  "(cas_step (\<lambda>amount v. saturatingAdd v amount))\<^sup>*\<^sup>* (cas_start 1 (\<lambda>i. 5)) raced"
proof -
  let ?step = "cas_step (\<lambda>amount v. saturatingAdd v amount)"
  let ?p = "(\<lambda>i. Ready 5) :: nat \<Rightarrow> (u64, u64) cas_pc"
  have 1: "?step (cas_start 1 (\<lambda>i. 5))
      \<lparr>cell = 1, pcs = ?p(0 := Loaded 5 1), committed = []\<rparr>" (is "cas_step _ _ ?s1")
    using cas_step.load [of "cas_start 1 (\<lambda>i. 5)" 0 5] by (simp add: cas_start_def)
  have 2: "?step ?s1
      \<lparr>cell = 1, pcs = ?p(0 := Loaded 5 1, 1 := Loaded 5 1), committed = []\<rparr>" (is "cas_step _ _ ?s2")
    using cas_step.load [of ?s1 1 5] by simp
  have 3: "?step ?s2
      \<lparr>cell = 6, pcs = ?p(0 := Loaded 5 1, 1 := Finished 5 1), committed = [5]\<rparr>" (is "cas_step _ _ ?s3")
    using cas_step.exchange [of ?s2 1 5 "\<lambda>amount v. saturatingAdd v amount"]
    by (simp add: saturatingAdd_def saturate_def fun_upd_twist)
  have 4: "?step ?s3
      \<lparr>cell = 6, pcs = ?p(0 := Loaded 5 6, 1 := Finished 5 1), committed = [5]\<rparr>" (is "cas_step _ _ ?s4")
    using cas_step.retry [of ?s3 0 5 1] by (simp add: fun_upd_twist)
  have 5: "?step ?s4 raced"
    using cas_step.exchange [of ?s4 0 5 "\<lambda>amount v. saturatingAdd v amount"]
    by (simp add: raced_def saturatingAdd_def saturate_def fun_upd_twist)
  note add = converse_rtranclp_into_rtranclp [of ?step]
  show ?thesis by (rule 1 [THEN add], rule 2 [THEN add], rule 3 [THEN add], rule 4 [THEN add])
      (rule r_into_rtranclp [of ?step, OF 5])
qed

theorem concurrent_counter_exact_witness:
  "unat (cell raced) = min (2 ^ 64 - 1) (unat (1 :: u64) + (\<Sum>i < (2 :: nat). unat (5 :: u64)))"
proof (rule concurrent_counter_exact [OF raced_reachable])
  show "\<forall>i. is_finished (pcs raced i) = (i < 2)"
    by (auto simp: raced_def less_2_cases_iff)
qed

end
