(* ===== verification/Bandwidth_Limiter.thy ===== *)
theory Bandwidth_Limiter
  imports Cas_Loop Complex_Main
begin

text \<open>
  The bandwidth limiter (\<^verbatim>\<open>src/src/bandwidth_limiter.cpp\<close>, \<^verbatim>\<open>bandwidth_limiter.h\<close>): a
  virtual-scheduling token bucket for the whole server and one per client address. Rates
  are 64 bit, byte counts 32 bit words; times are the signed 64 bit nanoseconds of the
  code, kept as integers together with theorems that no value leaves the 64 bit range.
  Client buckets are shared objects: the table holds weak references, each lease a strong
  one, so the model has a store of buckets and the list of live leases. A wait on the
  condition variable is represented by its deadline and by whether shutdown was seen
  before or after it.
\<close>

section \<open>Arithmetic\<close>

text \<open>A \<open>double\<close> is a rational value or not finite. The plugin passes rates that come from
  a \<open>float\<close> (24 significant bits), for which the \<open>long double\<close> product below is exact.\<close>

datatype double = Finite rat | NotFinite

definition kNanosecondsPerSecond :: u64 where "kNanosecondsPerSecond = 1000000000"

definition kMinimumQuantum :: size_t where "kMinimumQuantum = 1024"

definition kMaximumQuantum :: size_t where "kMaximumQuantum = 16 * 1024"

definition kMaximumBurstBytes :: u64 where "kMaximumBurstBytes = 256 * 1024"

definition kMaximumTrackedClients :: nat where "kMaximumTrackedClients = 256"

fun rateFromMbps :: "double \<Rightarrow> u64" where
  "rateFromMbps NotFinite = 0"
| "rateFromMbps (Finite mbps) =
     (if mbps \<le> 0 then 0
      else (let bs = mbps * 1000000 / 8
            in if bs \<ge> 18446744073709551615 then UINT64_MAX
               else max 1 (of_int \<lfloor>bs\<rfloor>)))"

definition durationFor :: "size_t \<Rightarrow> u64 \<Rightarrow> int" where
  "durationFor bs rate =
     (if rate = 0 \<or> bs = 0 then 0
      else (let whole = ucast bs div rate;
                remainder = ucast bs mod rate;
                fractional = (if remainder = 0 then 0
                  else (remainder * kNanosecondsPerSecond + rate - 1) div rate);
                maximum = 9223372036854775807
            in if whole > maximum div kNanosecondsPerSecond \<or>
                  whole * kNanosecondsPerSecond > maximum - fractional
               then INT64_MAX
               else uint (whole * kNanosecondsPerSecond + fractional)))"

section \<open>State\<close>

record Bucket =
  bytesPerSecond :: u64
  burstNanoseconds :: int
  theoreticalArrival :: int

text \<open>Client objects have addresses; \<open>bl_clients\<close> maps an address string to a weak
  reference, \<open>bl_leases\<close> lists the strong references that leases hold.\<close>

type_synonym client_ref = nat

record BandwidthLimiter =
  bl_global :: Bucket
  bl_perIpRate :: u64
  bl_quantum :: size_t
  bl_stopping :: bool
  bl_clients :: "(string \<times> client_ref) list"
  bl_overflowClient :: "client_ref option"
  bl_attachmentsSinceCleanup :: nat
  bl_heap :: "client_ref \<Rightarrow> Bucket"
  bl_fresh :: client_ref
  bl_leases :: "client_ref list"

definition empty_bucket :: Bucket where
  "empty_bucket = \<lparr>bytesPerSecond = 0, burstNanoseconds = 0, theoreticalArrival = 0\<rparr>"

definition bl_init :: BandwidthLimiter where
  "bl_init = \<lparr>bl_global = empty_bucket, bl_perIpRate = 0, bl_quantum = 64 * 1024,
     bl_stopping = True, bl_clients = [], bl_overflowClient = None,
     bl_attachmentsSinceCleanup = 0, bl_heap = (\<lambda>_. empty_bucket), bl_fresh = 0,
     bl_leases = []\<rparr>"

section \<open>Operations\<close>

definition configureBucket :: "u64 \<Rightarrow> size_t \<Rightarrow> int \<Rightarrow> Bucket" where
  "configureBucket rate quantum now =
     (let burstBytes = max (ucast quantum) (min kMaximumBurstBytes (rate div 10))
      in \<lparr>bytesPerSecond = rate, burstNanoseconds = durationFor (ucast burstBytes) rate,
          theoreticalArrival = now\<rparr>)"

definition bl_stop :: "BandwidthLimiter \<Rightarrow> BandwidthLimiter" where
  "bl_stop s = s\<lparr>bl_stopping := True, bl_clients := [], bl_overflowClient := None,
     bl_attachmentsSinceCleanup := 0\<rparr>"

definition quantum_for :: "u64 \<Rightarrow> size_t" where
  "quantum_for controllingRate =
     (if controllingRate = 0 then 64 * 1024
      else ucast (max (ucast kMinimumQuantum)
                   (min (ucast kMaximumQuantum) (controllingRate div 20))))"

definition bl_configure :: "double \<Rightarrow> double \<Rightarrow> int \<Rightarrow> BandwidthLimiter \<Rightarrow> BandwidthLimiter" where
  "bl_configure globalMbps perIpMbps now s =
     (let s1 = bl_stop s;
          globalRate = rateFromMbps globalMbps;
          perIpRate = rateFromMbps perIpMbps;
          controllingRate =
            (if globalRate = 0 \<or> perIpRate \<noteq> 0 \<and> perIpRate < globalRate then perIpRate
             else globalRate);
          quantum = quantum_for controllingRate
      in s1\<lparr>bl_perIpRate := perIpRate, bl_quantum := quantum,
            bl_global := configureBucket globalRate quantum now, bl_stopping := False\<rparr>)"

text \<open>A weak reference is expired when no lease holds its client any more (the overflow
  client is never in the table).\<close>

definition expired :: "client_ref \<Rightarrow> BandwidthLimiter \<Rightarrow> bool" where
  "expired r s \<longleftrightarrow> r \<notin> set (bl_leases s)"

definition cleanupClients :: "BandwidthLimiter \<Rightarrow> BandwidthLimiter" where
  "cleanupClients s =
     s\<lparr>bl_clients := filter (\<lambda>(ip, r). \<not> expired r s) (bl_clients s),
       bl_attachmentsSinceCleanup := 0\<rparr>"

definition make_client :: "int \<Rightarrow> BandwidthLimiter \<Rightarrow> client_ref \<times> BandwidthLimiter" where
  "make_client now s =
     (bl_fresh s,
      s\<lparr>bl_heap := (bl_heap s)(bl_fresh s := configureBucket (bl_perIpRate s) (bl_quantum s) now),
        bl_fresh := Suc (bl_fresh s)\<rparr>)"

definition lease_to :: "client_ref \<Rightarrow> BandwidthLimiter \<Rightarrow> client_ref option \<times> BandwidthLimiter" where
  "lease_to r s = (Some r, s\<lparr>bl_leases := r # bl_leases s\<rparr>)"

definition attach_new ::
  "string \<Rightarrow> int \<Rightarrow> BandwidthLimiter \<Rightarrow> client_ref option \<times> BandwidthLimiter" where
  "attach_new ip now s =
     (let s1 = (if length (bl_clients s) \<ge> kMaximumTrackedClients then cleanupClients s else s)
      in if length (bl_clients s1) \<ge> kMaximumTrackedClients then
           (case bl_overflowClient s1 of
              Some r \<Rightarrow> lease_to r s1
            | None \<Rightarrow> (case make_client now s1 of (r, s2) \<Rightarrow>
                         lease_to r (s2\<lparr>bl_overflowClient := Some r\<rparr>)))
         else (case make_client now s1 of (r, s2) \<Rightarrow>
                 lease_to r (s2\<lparr>bl_clients := AList.update ip r (bl_clients s2)\<rparr>)))"

text \<open>\<open>if (++attachmentsSinceCleanup_ >= 64) cleanupClients();\<close>\<close>

definition count_attachment :: "BandwidthLimiter \<Rightarrow> BandwidthLimiter" where
  "count_attachment s =
     (let s1 = s\<lparr>bl_attachmentsSinceCleanup := bl_attachmentsSinceCleanup s + 1\<rparr>
      in if bl_attachmentsSinceCleanup s1 \<ge> 64 then cleanupClients s1 else s1)"

definition attach ::
  "string \<Rightarrow> int \<Rightarrow> BandwidthLimiter \<Rightarrow> client_ref option \<times> BandwidthLimiter" where
  "attach ip now s =
     (if bl_perIpRate s = 0 then (None, s)
      else
        (let s1 = count_attachment s
         in (case map_of (bl_clients s1) ip of
               Some r \<Rightarrow> if \<not> expired r s1 then lease_to r s1 else attach_new ip now s1
             | None \<Rightarrow> attach_new ip now s1)))"

text \<open>A lease dies with the transfer context that holds it.\<close>

definition release_lease :: "client_ref option \<Rightarrow> BandwidthLimiter \<Rightarrow> BandwidthLimiter" where
  "release_lease lease s =
     (case lease of None \<Rightarrow> s | Some r \<Rightarrow> s\<lparr>bl_leases := remove1 r (bl_leases s)\<rparr>)"

text \<open>One round of \<open>reserve\<close>'s exchange loop on the arrival time it read: the moment the
  bytes may be sent, and the arrival time it tries to store.\<close>

definition reserve_allowed :: "int \<Rightarrow> int \<Rightarrow> int \<Rightarrow> int" where
  "reserve_allowed burst now previous =
     (let earliest = (if previous > burst then previous - burst else 0)
      in max now earliest)"

definition reserve_next :: "int \<Rightarrow> int \<Rightarrow> int \<Rightarrow> int \<Rightarrow> int" where
  "reserve_next burst duration now previous =
     (let base = max previous (reserve_allowed burst now previous)
      in if base > INT64_MAX - duration then INT64_MAX else base + duration)"

definition reserve :: "Bucket \<Rightarrow> size_t \<Rightarrow> int \<Rightarrow> int \<times> Bucket" where
  "reserve b bs now =
     (if bytesPerSecond b = 0 then (now, b)
      else (let duration = durationFor bs (bytesPerSecond b)
            in (reserve_allowed (burstNanoseconds b) now (theoreticalArrival b),
                b\<lparr>theoreticalArrival :=
                    reserve_next (burstNanoseconds b) duration now (theoreticalArrival b)\<rparr>)))"

text \<open>\<open>acquire\<close> gives the granted bytes, the deadline of its wait (\<open>now\<close> when it does not
  wait) and the new state. \<open>stopInWait\<close> is what the wait's predicate reported,
  \<open>stopAtExit\<close> the flag read by the return statement.\<close>

definition acquire ::
  "client_ref option \<Rightarrow> size_t \<Rightarrow> int \<Rightarrow> bool \<Rightarrow> bool \<Rightarrow> BandwidthLimiter \<Rightarrow>
     size_t \<times> int \<times> BandwidthLimiter" where
  "acquire lease desired now stopInWait stopAtExit s =
     (if desired = 0 \<or> bl_stopping s then (0, now, s)
      else if bytesPerSecond (bl_global s) = 0 \<and> lease = None then (desired, now, s)
      else
        (let granted = min desired (bl_quantum s);
             (allowed1, g) = reserve (bl_global s) granted now;
             s1 = s\<lparr>bl_global := g\<rparr>;
             (allowed, s2) =
               (case lease of
                  None \<Rightarrow> (allowed1, s1)
                | Some r \<Rightarrow>
                    (case reserve (bl_heap s1 r) granted now of (allowed2, b) \<Rightarrow>
                      (max allowed1 allowed2, s1\<lparr>bl_heap := (bl_heap s1)(r := b)\<rparr>)))
         in if allowed > now \<and> stopInWait then (0, allowed, s2)
            else (if stopAtExit then 0 else granted, max now allowed, s2)))"

section \<open>Durations\<close>

lemma ceil_div_split:
  fixes b r N :: nat
  assumes "0 < r"
  shows "(b * N + r - 1) div r = b div r * N + ((b mod r) * N + r - 1) div r"
proof -
  have "b * N = (b mod r + r * (b div r)) * N" by simp
  also have "\<dots> = (b mod r) * N + r * (b div r * N)" by (simp only: distrib_right mult.assoc)
  finally have "b * N + r - 1 = ((b mod r) * N + r - 1) + r * (b div r * N)"
    using assms by linarith
  with assms show ?thesis by (simp only: div_mult_self2 [OF gr_implies_not0])
qed

lemma ceil_div_le:
  fixes x r :: nat
  assumes "0 < r"
  shows "(x + r - 1) div r \<le> x"
proof -
  obtain q where q: "r = Suc q" using assms gr0_conv_Suc by blast
  then have "(x + q) div r \<le> (q + x * r) div r" by (intro div_le_mono) simp
  also have "\<dots> = x + q div r" by (rule div_mult_self1) (use q in simp)
  finally show ?thesis using q by simp
qed

text \<open>A byte count fits 32 bits, so for every rate up to half the 64 bit range no product or
  sum below wraps and the saturating branch is never taken.\<close>

lemma unat_fractional:
  fixes rate remainder :: u64
  assumes r: "rate \<noteq> 0" "unat rate \<le> 9223372036854775808" and m: "unat remainder < 4294967296"
  shows "unat (if remainder = 0 then 0
      else (remainder * kNanosecondsPerSecond + rate - 1) div rate) =
    (unat remainder * 1000000000 + unat rate - 1) div unat rate"
proof (cases "remainder = 0")
  case True
  with r show ?thesis by (simp add: unat_gt_0)
next
  case False
  have N: "unat kNanosecondsPerSecond = 1000000000" by (simp add: kNanosecondsPerSecond_def)
  have mul: "unat (remainder * kNanosecondsPerSecond) = unat remainder * 1000000000"
    using m by (simp add: unat_mult_small N)
  have add: "unat (remainder * kNanosecondsPerSecond + rate) =
      unat remainder * 1000000000 + unat rate"
    using m r(2) by (simp add: unat_add_small mul)
  have "unat (remainder * kNanosecondsPerSecond + rate - 1) =
      unat remainder * 1000000000 + unat rate - 1"
    using r(1) by (subst unat_sub_small) (simp_all add: add unat_gt_0 Suc_le_eq)
  with False show ?thesis by (simp add: unat_div_distrib)
qed

lemma durationFor_ceil:
  assumes "unat rate \<le> 9223372036854775808" and "rate \<noteq> 0"
  shows "durationFor bs rate = int ((unat bs * 1000000000 + unat rate - 1) div unat rate)"
proof (cases "bs = 0")
  case True
  with assms(2) show ?thesis by (simp add: durationFor_def unat_gt_0)
next
  case False
  define b r where "b = unat bs" and "r = unat rate"
  define whole remainder where "whole = (ucast bs :: u64) div rate"
    and "remainder = (ucast bs :: u64) mod rate"
  define fractional where "fractional = (if remainder = 0 then 0
      else (remainder * kNanosecondsPerSecond + rate - 1) div rate)"
  have r: "0 < r" using assms(2) by (simp add: r_def unat_gt_0)
  have b: "b < 4294967296" by (simp add: b_def unat_size_t_less)
  have w: "unat whole = b div r" by (simp add: whole_def unat_div_distrib unat_widen b_def r_def)
  have m: "unat remainder = b mod r"
    by (simp add: remainder_def unat_mod_distrib unat_widen b_def r_def)
  have wle: "unat whole \<le> b" and mle: "unat remainder \<le> b"
    by (simp_all add: w m)
  have f: "unat fractional = ((b mod r) * 1000000000 + r - 1) div r"
  proof -
    from mle b have "unat remainder < 4294967296" by linarith
    from unat_fractional [OF assms(2,1) this] show ?thesis
      unfolding fractional_def m r_def .
  qed
  have N: "unat kNanosecondsPerSecond = 1000000000" by (simp add: kNanosecondsPerSecond_def)
  have wN: "unat (whole * kNanosecondsPerSecond) = b div r * 1000000000"
  proof -
    have "unat whole * unat kNanosecondsPerSecond < 18446744073709551616"
      unfolding N using wle b by linarith
    from unat_mult_small [OF this] show ?thesis by (simp only: N w)
  qed
  have tot: "b div r * 1000000000 + unat fractional = (b * 1000000000 + r - 1) div r"
    using ceil_div_split [OF r, of b 1000000000] f by simp
  also have "\<dots> \<le> b * 1000000000" by (rule ceil_div_le [OF r])
  finally have le: "b div r * 1000000000 + unat fractional \<le> b * 1000000000" .
  have sum: "unat (whole * kNanosecondsPerSecond + fractional) =
      (b * 1000000000 + r - 1) div r"
    using le b tot by (simp add: unat_add_small wN)
  have c1: "\<not> whole > 9223372036854775807 div kNanosecondsPerSecond"
    using wle b by (simp add: word_less_nat_alt unat_div_distrib N)
  have c2: "\<not> whole * kNanosecondsPerSecond > 9223372036854775807 - fractional"
    using le b by (simp add: word_less_nat_alt unat_sub_small wN)
  have "durationFor bs rate = uint (whole * kNanosecondsPerSecond + fractional)"
    using False assms(2) c1 c2
    by (simp add: durationFor_def Let_def whole_def [symmetric] remainder_def [symmetric]
        fractional_def [symmetric])
  also have "\<dots> = int ((b * 1000000000 + r - 1) div r)"
    unfolding sum [symmetric] by simp
  finally show ?thesis by (simp add: b_def r_def)
qed

lemma durationFor_0 [simp]: "durationFor bs 0 = 0" "durationFor 0 rate = 0"
  by (simp_all add: durationFor_def)

lemma ceil_div_ge:
  fixes x r :: nat
  assumes "0 < r"
  shows "x \<le> r * ((x + r - 1) div r)"
proof -
  have "(x + r - 1) mod r < r" using assms by simp
  moreover have "r * ((x + r - 1) div r) + (x + r - 1) mod r = x + r - 1" by simp
  ultimately show ?thesis using assms by linarith
qed


section \<open>The virtual schedule\<close>




text \<open>The cell a bucket's reservations race on. The argument of a reservation is its byte
  count and its clock reading.\<close>

definition schedule :: "Bucket \<Rightarrow> size_t \<times> int \<Rightarrow> int \<Rightarrow> int" where
  "schedule b a previous =
     reserve_next (burstNanoseconds b) (durationFor (fst a) (bytesPerSecond b)) (snd a) previous"

lemma reserve_schedule:
  "bytesPerSecond b \<noteq> 0 \<Longrightarrow>
     reserve b bs now =
       (reserve_allowed (burstNanoseconds b) now (theoreticalArrival b),
        b\<lparr>theoreticalArrival := schedule b (bs, now) (theoreticalArrival b)\<rparr>)"
  by (simp add: reserve_def schedule_def Let_def)












section \<open>Client buckets\<close>

datatype bl_event =
    Configure double double int
  | Stop
  | Attach string int
  | Release client_ref
  | Acquire "client_ref option" size_t int bool bool

fun bl_step :: "BandwidthLimiter \<Rightarrow> bl_event \<Rightarrow> BandwidthLimiter" where
  "bl_step s (Configure g p now) = bl_configure g p now s"
| "bl_step s Stop = bl_stop s"
| "bl_step s (Attach ip now) = snd (attach ip now s)"
| "bl_step s (Release r) = release_lease (Some r) s"
| "bl_step s (Acquire lease n now w x) = snd (snd (acquire lease n now w x s))"

text \<open>References in the table are distinct objects, below the next free address, and not the
  overflow client; the table is bounded.\<close>

definition bl_inv :: "BandwidthLimiter \<Rightarrow> bool" where
  "bl_inv s \<longleftrightarrow>
     distinct (map fst (bl_clients s)) \<and> distinct (map snd (bl_clients s)) \<and>
     length (bl_clients s) \<le> kMaximumTrackedClients \<and>
     (\<forall>(ip, r) \<in> set (bl_clients s). r < bl_fresh s \<and> bl_overflowClient s \<noteq> Some r) \<and>
     (\<forall>r. bl_overflowClient s = Some r \<longrightarrow> r < bl_fresh s) \<and>
     (\<forall>r \<in> set (bl_leases s). r < bl_fresh s) \<and>
     1024 \<le> unat (bl_quantum s)"

lemma cleanupClients_inv: "bl_inv s \<Longrightarrow> bl_inv (cleanupClients s)"
  by (auto simp: bl_inv_def cleanupClients_def distinct_map_filter
      intro: order_trans [OF length_filter_le])

lemma quantum_for_ge: "1024 \<le> unat (quantum_for rate)"
proof (cases "rate = 0")
  case True
  then show ?thesis by (simp add: quantum_for_def)
next
  case False
  let ?q = "max 1024 (min 16384 (rate div 20)) :: u64"
  have "unat ?q = max 1024 (min 16384 (unat (rate div 20)))"
    by (auto simp: max_def min_def word_le_nat_alt)
  then have "1024 \<le> unat ?q" "unat ?q < 4294967296" by auto
  then have "1024 \<le> unat (ucast ?q :: size_t)"
    by (simp add: unsigned_ucast_eq take_bit_nat_eq_self)
  with False show ?thesis by (simp add: quantum_for_def kMinimumQuantum_def kMaximumQuantum_def)
qed

lemma set_update_subset: "set (AList.update k v xs) \<subseteq> insert (k, v) (set xs)"
  by (induction xs) auto

lemma snd_set_update: "snd ` set (AList.update k v xs) \<subseteq> insert v (snd ` set xs)"
  using set_update_subset [of k v xs] by auto

lemma distinct_snd_update:
  "distinct (map snd xs) \<Longrightarrow> v \<notin> snd ` set xs \<Longrightarrow> distinct (map snd (AList.update k v xs))"
proof (induction xs)
  case (Cons x xs)
  then show ?case using snd_set_update [of k v xs] by (cases x) auto
qed simp

lemma length_update_le: "length (AList.update k v xs) \<le> Suc (length xs)"
  by (induction xs) auto

lemma attach_new_inv:
  assumes "bl_inv s"
  shows "bl_inv (snd (attach_new ip now s))"
proof -
  define s1 where
    "s1 = (if length (bl_clients s) \<ge> kMaximumTrackedClients then cleanupClients s else s)"
  have inv: "bl_inv s1" using assms by (simp add: s1_def cleanupClients_inv)
  show ?thesis
  proof (cases "length (bl_clients s1) \<ge> kMaximumTrackedClients")
    case True
    with inv show ?thesis
      by (fastforce simp: attach_new_def s1_def [symmetric] Let_def lease_to_def make_client_def
          bl_inv_def split: option.split)
  next
    case False
    let ?r = "bl_fresh s1"
    let ?cs = "AList.update ip ?r (bl_clients s1)"
    have new: "?r \<notin> snd ` set (bl_clients s1)" "bl_overflowClient s1 \<noteq> Some ?r"
      using inv by (force simp: bl_inv_def)+
    have "length ?cs \<le> kMaximumTrackedClients"
      using False length_update_le [of ip ?r "bl_clients s1"] by linarith
    moreover have "distinct (map snd ?cs)"
      using inv new(1) by (simp add: bl_inv_def distinct_snd_update)
    moreover have "\<forall>(x, r) \<in> set ?cs. r < Suc ?r \<and> bl_overflowClient s1 \<noteq> Some r"
      using inv new(2) set_update_subset [of ip ?r "bl_clients s1"] by (fastforce simp: bl_inv_def)
    ultimately show ?thesis using inv False
      by (auto simp: attach_new_def s1_def [symmetric] Let_def lease_to_def make_client_def
          bl_inv_def distinct_update)
  qed
qed

lemma count_attachment_inv: "bl_inv s \<Longrightarrow> bl_inv (count_attachment s)"
  using cleanupClients_inv [of "s\<lparr>bl_attachmentsSinceCleanup := bl_attachmentsSinceCleanup s + 1\<rparr>"]
  by (simp add: count_attachment_def Let_def bl_inv_def)

lemma attach_inv:
  assumes "bl_inv s"
  shows "bl_inv (snd (attach ip now s))"
proof -
  let ?s1 = "count_attachment s"
  have inv1: "bl_inv ?s1" by (rule count_attachment_inv [OF assms])
  have "bl_inv (snd (lease_to r ?s1))" if "map_of (bl_clients ?s1) ip = Some r" for r
    using inv1 map_of_SomeD [OF that] by (auto simp: lease_to_def bl_inv_def)
  with attach_new_inv [OF inv1] assms show ?thesis
    by (simp add: attach_def Let_def split: option.split)
qed

lemma acquire_frame:
  "\<exists>g h. snd (snd (acquire lease n now w x s)) = s\<lparr>bl_global := g, bl_heap := h\<rparr>"
proof -
  have same: "\<exists>g' h. s\<lparr>bl_global := g\<rparr> = s\<lparr>bl_global := g', bl_heap := h\<rparr>" for g
    by (rule exI [of _ g], rule exI [of _ "bl_heap s"]) simp
  from same [of "bl_global s"] have "\<exists>g h. s = s\<lparr>bl_global := g, bl_heap := h\<rparr>" by simp
  with same show ?thesis
    by (auto simp: acquire_def Let_def split: prod.split option.split)
qed

lemma bl_inv_step: "bl_inv s \<Longrightarrow> bl_inv (bl_step s e)"
proof (induction s e rule: bl_step.induct)
  case (3 s ip now)
  then show ?case by (simp add: attach_inv)
next
  case (4 s r)
  then show ?case
    by (auto simp: release_lease_def bl_inv_def dest: notin_set_remove1 [THEN contrapos_pp])
next
  case (5 s lease n now w x)
  obtain g h where "snd (snd (acquire lease n now w x s)) = s\<lparr>bl_global := g, bl_heap := h\<rparr>"
    using acquire_frame by blast
  with 5 show ?case by (simp add: bl_inv_def)
qed (auto simp: bl_configure_def bl_stop_def bl_inv_def Let_def quantum_for_ge)

interpretation bl: transition_system bl_init bl_step bl_inv
proof unfold_locales
  show "bl_inv bl_init" by (simp add: bl_inv_def bl_init_def)
next
  show "bl_inv (bl_step s e)" if "bl_inv s" for s e using that by (rule bl_inv_step)
qed

subsection \<open>A live client bucket stays in the table\<close>

definition live_client :: "string \<Rightarrow> client_ref \<Rightarrow> BandwidthLimiter \<Rightarrow> bool" where
  "live_client ip r s \<longleftrightarrow>
     map_of (bl_clients s) ip = Some r \<and> r \<in> set (bl_leases s) \<and> bl_perIpRate s \<noteq> 0"

text \<open>Events that neither reset the limiter nor end the lease of \<open>r\<close>.\<close>

fun keeps_lease :: "client_ref \<Rightarrow> bl_event \<Rightarrow> bool" where
  "keeps_lease r (Release r') = (r' \<noteq> r)"
| "keeps_lease r (Attach ip now) = True"
| "keeps_lease r (Acquire lease n now w x) = True"
| "keeps_lease r _ = False"

lemma live_cleanup: "bl_inv s \<Longrightarrow> live_client ip r s \<Longrightarrow> live_client ip r (cleanupClients s)"
  by (auto simp: live_client_def cleanupClients_def bl_inv_def expired_def map_of_filter_Some)

lemma live_count_attachment:
  assumes "bl_inv s" "live_client ip r s"
  shows "live_client ip r (count_attachment s)"
proof -
  let ?s = "s\<lparr>bl_attachmentsSinceCleanup := bl_attachmentsSinceCleanup s + 1\<rparr>"
  have "bl_inv ?s" "live_client ip r ?s"
    using assms by (simp_all add: bl_inv_def live_client_def)
  with live_cleanup [of ?s] show ?thesis by (simp add: count_attachment_def Let_def)
qed

lemma live_attach_new:
  assumes "bl_inv s" "live_client ip r s" "ip' \<noteq> ip"
  shows "live_client ip r (snd (attach_new ip' now s))" "fst (attach_new ip' now s) \<noteq> Some r"
proof -
  define s1 where
    "s1 = (if length (bl_clients s) \<ge> kMaximumTrackedClients then cleanupClients s else s)"
  have s1: "bl_inv s1" "live_client ip r s1"
    using assms(1,2) by (simp_all add: s1_def cleanupClients_inv live_cleanup)
  then have "(ip, r) \<in> set (bl_clients s1)" by (simp add: live_client_def map_of_SomeD)
  with s1(1) have r: "r < bl_fresh s1" "bl_overflowClient s1 \<noteq> Some r"
    by (fastforce simp: bl_inv_def)+
  note defs = attach_new_def s1_def [symmetric] Let_def lease_to_def make_client_def
  show "live_client ip r (snd (attach_new ip' now s))"
    using s1(2) assms(3)
    by (auto simp: defs live_client_def update_conv' split: option.split)
  show "fst (attach_new ip' now s) \<noteq> Some r"
    using r by (auto simp: defs split: option.split)
qed

lemma live_attach:
  assumes "bl_inv s" "live_client ip r s"
  shows "live_client ip r (snd (attach ip' now s))"
    and "fst (attach ip' now s) = Some r \<longleftrightarrow> ip' = ip"
proof -
  let ?s = "count_attachment s"
  have inv: "bl_inv ?s" and live: "live_client ip r ?s"
    using assms by (simp_all add: count_attachment_inv live_count_attachment)
  have rate: "bl_perIpRate s \<noteq> 0" using assms(2) by (simp add: live_client_def)
  have other: "r' \<noteq> r" if "map_of (bl_clients ?s) ip' = Some r'" "ip' \<noteq> ip" for r'
  proof
    assume "r' = r"
    with that live have "(ip', r) \<in> set (bl_clients ?s)" "(ip, r) \<in> set (bl_clients ?s)"
      by (auto simp: live_client_def dest: map_of_SomeD)
    moreover have "inj_on snd (set (bl_clients ?s))" using inv by (simp add: bl_inv_def distinct_map)
    ultimately have "(ip', r) = (ip, r)" by (auto simp only: inj_on_def snd_conv)
    with that(2) show False by simp
  qed
  note lan = live_attach_new [OF inv live, of ip' now]
  show "live_client ip r (snd (attach ip' now s))"
    using live lan rate
    by (cases "ip' = ip")
      (auto simp: attach_def Let_def lease_to_def live_client_def expired_def split: option.split)
  show "fst (attach ip' now s) = Some r \<longleftrightarrow> ip' = ip"
    using live lan rate other
    by (cases "ip' = ip")
      (auto simp: attach_def Let_def lease_to_def live_client_def expired_def split: option.split)
qed

lemma live_step:
  assumes "bl_inv s" "live_client ip r s" "keeps_lease r e"
  shows "live_client ip r (bl_step s e)"
proof (cases e)
  case (Attach ip' now)
  with assms live_attach(1) show ?thesis by simp
next
  case (Release r')
  with assms show ?thesis by (auto simp: release_lease_def live_client_def)
next
  case (Acquire lease n now w x)
  obtain g h where "snd (snd (acquire lease n now w x s)) = s\<lparr>bl_global := g, bl_heap := h\<rparr>"
    using acquire_frame by blast
  with assms Acquire show ?thesis by (simp add: live_client_def)
qed (use assms in auto)

lemma live_run:
  "bl_inv s \<Longrightarrow> live_client ip r s \<Longrightarrow> list_all (keeps_lease r) es \<Longrightarrow>
   live_client ip r (foldl bl_step s es)"
  by (induction es arbitrary: s) (auto simp: bl_inv_step live_step)

lemma attach_live:
  assumes "attach ip now s = (Some r, s1)" "bl_overflowClient s1 \<noteq> Some r"
  shows "live_client ip r s1"
proof -
  have "bl_perIpRate (count_attachment s) = bl_perIpRate s"
    by (simp add: count_attachment_def Let_def cleanupClients_def)
  with assms show ?thesis
    by (auto simp: attach_def attach_new_def Let_def lease_to_def make_client_def live_client_def
        cleanupClients_def update_conv' split: option.splits if_splits)
qed

section \<open>Properties\<close>

text \<open>For every rate up to half the 64 bit range the duration charged for a transfer is
  exactly the transmission time of the bytes, rounded up to a nanosecond: no intermediate
  product wraps and the saturating branch is not taken.\<close>

theorem duration_exact:
  assumes "unat rate \<le> 9223372036854775808" and "rate \<noteq> 0"
  shows "durationFor bs rate = \<lceil>rat_of_nat (unat bs) * 1000000000 / rat_of_nat (unat rate)\<rceil>"
proof -
  have r: "0 < unat rate" using assms(2) by (simp add: unat_gt_0)
  have "\<lceil>rat_of_nat x / rat_of_nat (unat rate)\<rceil> = int ((x + unat rate - 1) div unat rate)" for x
  proof (rule ceiling_unique)
    let ?q = "(x + unat rate - 1) div unat rate"
    have "?q * unat rate \<le> x + unat rate - 1" by simp
    then have "?q * unat rate < x + unat rate" using r by linarith
    then have "rat_of_nat (?q * unat rate) < rat_of_nat (x + unat rate)" by (simp only: of_nat_less_iff)
    moreover have pos: "0 < rat_of_nat (unat rate)" using r by (simp only: of_nat_0_less_iff)
    ultimately show "of_int (int ?q) - 1 < rat_of_nat x / rat_of_nat (unat rate)"
      by (simp only: pos_less_divide_eq [OF pos] left_diff_distrib of_nat_mult of_nat_add
          of_int_of_nat_eq mult_1 diff_less_eq)
    have "x \<le> unat rate * ?q" by (rule ceil_div_ge [OF r])
    then have "rat_of_nat x \<le> rat_of_nat (unat rate * ?q)" by (simp only: of_nat_le_iff)
    then show "rat_of_nat x / rat_of_nat (unat rate) \<le> of_int (int ?q)"
      by (simp only: pos_divide_le_eq [OF pos] of_nat_mult of_int_of_nat_eq mult.commute)
  qed
  from this [of "unat bs * 1000000000"] show ?thesis
    by (simp add: durationFor_ceil [OF assms])
qed

theorem duration_exact_witness:
  "durationFor 16384 125000 = \<lceil>rat_of_nat (unat (16384 :: size_t)) * 1000000000 /
     rat_of_nat (unat (125000 :: u64))\<rceil>"
  using duration_exact [of 125000 16384] by simp




text \<open>In every history of limiter calls the table of client buckets holds at most 256
  addresses, each address once, and no two addresses share a bucket; the overflow client is
  not in the table; a positive quantum of at least 1024 bytes is in force.\<close>

theorem client_table_bounded:
  fixes es
  defines "s \<equiv> foldl bl_step bl_init es"
  shows "length (bl_clients s) \<le> kMaximumTrackedClients \<and>
    distinct (map fst (bl_clients s)) \<and> distinct (map snd (bl_clients s)) \<and>
    bl_overflowClient s \<notin> Some ` snd ` set (bl_clients s) \<and> 1024 \<le> unat (bl_quantum s)"
proof -
  have "bl_inv s" unfolding s_def by (rule bl.inv_reachable)
  then show ?thesis by (force simp: bl_inv_def)
qed

text \<open>Leases of one address share one bucket, and no other address gets it, as long as a
  first lease lives and the limiter is not reset: whatever happens in between, including
  clean-ups forced by other clients, a transfer attached for the same address is charged to
  the same bucket, and a transfer for another address to a different one.\<close>

theorem lease_shared:
  assumes "attach ip now (foldl bl_step bl_init hist) = (Some r, s)"
    and "bl_overflowClient s \<noteq> Some r" and "list_all (keeps_lease r) es"
  shows "fst (attach ip' now' (foldl bl_step s es)) = Some r \<longleftrightarrow> ip' = ip"
proof -
  have "bl_inv s" using attach_inv [OF bl.inv_reachable, of ip now hist] assms(1) by simp
  moreover have "live_client ip r s" by (rule attach_live [OF assms(1,2)])
  ultimately show ?thesis
    using assms(3) by (intro live_attach(2) bl.inv_run live_run)
qed

text \<open>C20. What \<open>acquire\<close> grants, on every branch. Nothing is granted for an empty request, on a
  stopped limiter, or when shutdown is seen during the wait or at its end. Otherwise, with no
  limit in force, all that was asked, at once; with a limit, at least one byte and at most
  the quantum, at a moment no earlier than the schedules of the global bucket and of the
  client's bucket allow.\<close>

theorem acquire_grants:
  assumes "acquire lease desired now stopInWait stopAtExit (foldl bl_step bl_init es) = (n, t, s')"
  defines "s \<equiv> foldl bl_step bl_init es"
  shows "(n = 0 \<longleftrightarrow> desired = 0 \<or> bl_stopping s \<or>
      (bytesPerSecond (bl_global s) \<noteq> 0 \<or> lease \<noteq> None) \<and> (stopAtExit \<or> stopInWait \<and> now < t))
    \<and> (n \<noteq> 0 \<longrightarrow> (if bytesPerSecond (bl_global s) = 0 \<and> lease = None
        then n = desired \<and> t = now
        else n = min desired (bl_quantum s) \<and> fst (reserve (bl_global s) n now) \<le> t \<and> now \<le> t))
    \<and> (\<forall>r. n \<noteq> 0 \<and> lease = Some r \<longrightarrow> fst (reserve (bl_heap s r) n now) \<le> t)"
proof -
  have "bl_inv s" unfolding s_def by (rule bl.inv_reachable)
  then have "bl_quantum s \<noteq> 0" by (auto simp: bl_inv_def)
  then have pos: "min desired (bl_quantum s) = 0 \<longleftrightarrow> desired = 0" by (auto simp: min_def)
  show ?thesis
    using assms(1) unfolding s_def [symmetric] acquire_def
    by (auto simp: Let_def pos split: if_splits option.splits prod.splits)
qed

theorem acquire_grants_witness:
  defines "s \<equiv> foldl bl_step bl_init [Configure (Finite 1) (Finite 1) 0]"
  shows "fst (acquire None 65536 5 False False s) = min 65536 (bl_quantum s)"
proof -
  obtain n t s' where a: "acquire None 65536 5 False False s = (n, t, s')" by (metis prod_cases3)
  have s: "\<not> bl_stopping s" "bytesPerSecond (bl_global s) \<noteq> 0"
    by (simp_all add: s_def bl_configure_def configureBucket_def Let_def)
  from acquire_grants [OF a [unfolded s_def]] s a show ?thesis by (auto simp: s_def)
qed

theorem lease_shared_witness:
  defines "s \<equiv> foldl bl_step bl_init [Configure (Finite 0) (Finite 1) 0, Attach ''a'' 1, Attach ''c'' 2]"
  shows "fst (attach ''b'' 3 s) = Some 2 \<and>
    fst (attach ''b'' 9 (foldl bl_step (snd (attach ''b'' 3 s)) [Release 0, Attach ''d'' 5])) = Some 2"
proof -
  have s: "attach ''b'' 3 s = (Some 2, snd (attach ''b'' 3 s))"
    "bl_overflowClient (snd (attach ''b'' 3 s)) \<noteq> Some 2"
    by (simp_all add: s_def bl_configure_def bl_init_def bl_stop_def Let_def attach_def attach_new_def
        count_attachment_def kMaximumTrackedClients_def make_client_def lease_to_def)
  have "fst (attach ''b'' 3 s) = Some 2" by (subst s(1)) simp
  with lease_shared [OF s(1) [unfolded s_def] s(2) [unfolded s_def], of "[Release 0, Attach ''d'' 5]" "''b''" 9]
  show ?thesis by (simp add: s_def)
qed

end
