(* ===== verification/Config_Parser.thy ===== *)
theory Config_Parser
  imports FastDL_Prelude
begin

text \<open>
  The configuration line parser (\<^verbatim>\<open>src/src/config_parser.cpp\<close>): comment stripping that
  respects quotes, and the split of a line into a setting's name and value. The out
  parameters \<open>name\<close> and \<open>value\<close> are passed in and returned, since the code writes them
  on some of the paths that report failure.
\<close>

section \<open>Model\<close>

abbreviation TAB :: char where "TAB \<equiv> CHR 0x09"
abbreviation LF :: char where "LF \<equiv> CHR 0x0A"
abbreviation CR :: char where "CR \<equiv> CHR 0x0D"
abbreviation QUOTE :: char where "QUOTE \<equiv> CHR 0x22"
abbreviation SLASH :: char where "SLASH \<equiv> CHR 0x2F"

definition blank :: "char \<Rightarrow> bool" where
  "blank c \<longleftrightarrow> c = CHR '' '' \<or> c = TAB \<or> c = CR \<or> c = LF"

definition config_trim :: "string \<Rightarrow> string" where
  "config_trim value = trim_of blank value"

text \<open>The scan of \<open>stripComment\<close> over the bytes that have a successor.\<close>

fun strip_scan :: "bool \<Rightarrow> string \<Rightarrow> string" where
  "strip_scan quoted [] = []"
| "strip_scan quoted [c] = [c]"
| "strip_scan quoted (c # d # cs) =
     (if c = QUOTE then c # strip_scan (\<not> quoted) (d # cs)
      else if \<not> quoted \<and> c = SLASH \<and> d = SLASH then []
      else c # strip_scan quoted (d # cs))"

definition stripComment :: "string \<Rightarrow> string" where
  "stripComment line = strip_scan False line"

text \<open>\<open>input >> word\<close>: the word read and the rest of the stream, or \<open>None\<close> when the stream
  fails.\<close>

definition read_word :: "string \<Rightarrow> (string \<times> string) option" where
  "read_word input =
     (let rest = dropWhile is_space input
      in if rest = [] then None
         else Some (takeWhile (\<lambda>c. \<not> is_space c) rest, dropWhile (\<lambda>c. \<not> is_space c) rest))"

definition parseAssignment :: "string \<Rightarrow> string \<Rightarrow> string \<Rightarrow> bool \<times> string \<times> string" where
  "parseAssignment rawLine name value =
     (let line = config_trim (stripComment rawLine)
      in if line = [] then (False, name, value)
         else (case read_word line of
             None \<Rightarrow> (False, name, value)
           | Some (name, input) \<Rightarrow>
               (let remainder = config_trim (takeWhile (\<lambda>c. c \<noteq> LF) input)
                in if remainder = [] then (False, name, value)
                   else if hd remainder = QUOTE then
                     (case find_from QUOTE remainder 1 of
                        None \<Rightarrow> (False, name, value)
                      | Some closing \<Rightarrow>
                          (let value = substr remainder 1 (closing - 1)
                           in if config_trim (drop (closing + 1) remainder) \<noteq> []
                              then (False, name, value)
                              else (value \<noteq> [], name, value)))
                   else
                     (let value = takeWhile (\<lambda>c. c \<noteq> CHR '' '' \<and> c \<noteq> TAB) remainder
                      in (value \<noteq> [], name, value)))))"

section \<open>Lemmas\<close>

lemma blank_is_space: "blank c \<Longrightarrow> is_space c"
  by (auto simp: is_space_def blank_def)

lemma blank_literals [simp]:
  "blank CHR '' ''" "blank TAB" "blank CR" "blank LF" "\<not> blank QUOTE" "\<not> blank SLASH"
  by (simp_all add: blank_def)

lemma config_trim_alt:
  "config_trim s = rev (dropWhile blank (rev (dropWhile blank s)))"
  by (simp add: config_trim_def trim_of_def)

lemma dropWhile_all: "\<forall>c \<in> set xs. P c \<Longrightarrow> dropWhile P (xs @ ys) = dropWhile P ys"
  by (induction xs) auto

lemma config_trim_pad:
  assumes "\<forall>c \<in> set pre. blank c" "\<forall>c \<in> set post. blank c"
    and "body \<noteq> []" "\<not> blank (hd body)" "\<not> blank (last body)"
  shows "config_trim (pre @ body @ post) = body"
proof -
  have "dropWhile blank (pre @ body @ post) = body @ post"
    using assms(1,3,4) by (cases body) (simp_all add: dropWhile_all)
  moreover have "dropWhile blank (rev (body @ post)) = rev body"
    using assms(2,3,5) by (cases body rule: rev_cases) (simp_all add: dropWhile_all)
  ultimately show ?thesis by (simp add: config_trim_alt)
qed

lemma config_trim_blank: "\<forall>c \<in> set s. blank c \<Longrightarrow> config_trim s = []"
  by (auto simp: config_trim_alt dest: set_dropWhileD)

lemma config_trim_Nil [simp]: "config_trim [] = []"
  by (simp add: config_trim_alt)

lemma config_trim_subset: "set (config_trim s) \<subseteq> set s"
  unfolding config_trim_alt by (auto dest!: set_dropWhileD)

text \<open>Outside quotes, text without a quote or a slash passes the comment scan; inside quotes
  everything but a quote does.\<close>

lemma strip_scan_plain:
  "QUOTE \<notin> set xs \<Longrightarrow> SLASH \<notin> set xs \<or> quoted \<Longrightarrow>
   strip_scan quoted (xs @ ys) = xs @ strip_scan quoted ys"
proof (induction xs)
  case Nil
  then show ?case by simp
next
  case (Cons x xs)
  then show ?case by (cases "xs @ ys") (auto simp del: append_is_Nil_conv)
qed

lemma strip_scan_quote: "strip_scan quoted (QUOTE # ys) = QUOTE # strip_scan (\<not> quoted) ys"
  by (cases ys) auto

lemma strip_scan_comment: "strip_scan False (SLASH # SLASH # ys) = []"
  by simp

lemma strip_quoted_line:
  assumes "QUOTE \<notin> set pre" "SLASH \<notin> set pre" "QUOTE \<notin> set v" "QUOTE \<notin> set post" "SLASH \<notin> set post"
  shows "stripComment (pre @ QUOTE # v @ QUOTE # post @ SLASH # SLASH # text) = pre @ QUOTE # v @ QUOTE # post"
    and "stripComment (pre @ QUOTE # v @ QUOTE # post) = pre @ QUOTE # v @ QUOTE # post"
  using assms strip_scan_plain [of post False "[]"]
  by (simp_all add: stripComment_def strip_scan_plain strip_scan_quote)

text \<open>A setting's name: printable, without quotes and slashes.\<close>

definition plain_name :: "string \<Rightarrow> bool" where
  "plain_name n \<longleftrightarrow> n \<noteq> [] \<and> (\<forall>c \<in> set n. \<not> is_space c \<and> c \<noteq> QUOTE \<and> c \<noteq> SLASH)"

lemma read_word_SomeD:
  assumes "read_word s = Some (n, rest)"
  shows "n \<noteq> []" "\<forall>c \<in> set n. \<not> is_space c" "set n \<subseteq> set s" "set rest \<subseteq> set s"
proof -
  let ?r = "dropWhile is_space s"
  have r: "?r \<noteq> []" and n: "n = takeWhile (\<lambda>c. \<not> is_space c) ?r"
    and rest: "rest = dropWhile (\<lambda>c. \<not> is_space c) ?r"
    using assms by (auto simp: read_word_def Let_def split: if_splits)
  from hd_dropWhile [OF r] show "n \<noteq> []" unfolding n takeWhile_eq_Nil_iff using r by blast
  show "\<forall>c \<in> set n. \<not> is_space c" "set n \<subseteq> set s" "set rest \<subseteq> set s"
    unfolding n rest by (auto dest: set_takeWhileD set_dropWhileD)
qed

lemma read_word_name:
  "plain_name n \<Longrightarrow> is_space c \<Longrightarrow> read_word (n @ c # rest) = Some (n, c # rest)"
  by (cases n) (auto simp: read_word_def plain_name_def Let_def)

lemma blanks_no_quote: "\<forall>c \<in> set xs. blank c \<Longrightarrow> QUOTE \<notin> set xs \<and> SLASH \<notin> set xs"
  using blank_literals(5,6) by blast

definition gap_char :: "char \<Rightarrow> bool" where
  "gap_char c \<longleftrightarrow> c = CHR '' '' \<or> c = TAB"

lemma gap_char_facts: "gap_char c \<Longrightarrow> blank c \<and> is_space c \<and> c \<noteq> LF \<and> c \<noteq> QUOTE \<and> c \<noteq> SLASH"
  by (auto simp: gap_char_def is_space_def)

lemma parse_stripped_quoted:
  assumes line: "config_trim (stripComment raw) = n @ gap @ QUOTE # v @ [QUOTE]"
    and n: "plain_name n" and gap: "gap \<noteq> []" "\<forall>c \<in> set gap. gap_char c"
    and v: "QUOTE \<notin> set v" "LF \<notin> set v"
  shows "parseAssignment raw n0 v0 = (v \<noteq> [], n, v)"
proof -
  obtain g gs where g: "gap = g # gs" using gap(1) by (cases gap) auto
  have "is_space g" using gap(2) g gap_char_facts by simp
  with n g have word: "read_word (n @ gap @ QUOTE # v @ [QUOTE]) = Some (n, gap @ QUOTE # v @ [QUOTE])"
    by (simp add: read_word_name)
  have nolf: "\<forall>c \<in> set (gap @ QUOTE # v @ [QUOTE]). c \<noteq> LF" using gap(2) v(2) gap_char_facts by auto
  have rem: "config_trim (takeWhile (\<lambda>c. c \<noteq> LF) (gap @ QUOTE # v @ [QUOTE])) = QUOTE # v @ [QUOTE]"
  proof -
    have "takeWhile (\<lambda>c. c \<noteq> LF) (gap @ QUOTE # v @ [QUOTE]) = gap @ QUOTE # v @ [QUOTE]"
      using nolf by (simp only: takeWhile_eq_all_conv)
    then show ?thesis
      using config_trim_pad [of gap "[]" "QUOTE # v @ [QUOTE]"] gap(2) gap_char_facts by simp
  qed
  have "takeWhile (\<lambda>c. c \<noteq> QUOTE) (v @ [QUOTE]) = v"
    using v(1) by (subst takeWhile_append2) auto
  then have close: "find_from QUOTE (QUOTE # v @ [QUOTE]) (Suc 0) = Some (Suc (length v))"
    by (simp add: find_from_def)
  have "n \<noteq> []" using n by (simp add: plain_name_def)
  then show ?thesis
    by (simp add: parseAssignment_def line word rem close substr_def Let_def)
qed

lemma trim_line:
  assumes "\<forall>c \<in> set indent. blank c" "\<forall>c \<in> set post. blank c" "plain_name n"
    and "e \<noteq> []" "\<not> blank (last e)"
  shows "config_trim (indent @ (n @ e) @ post) = n @ e"
proof -
  have n: "n \<noteq> []" "\<not> is_space (hd n)" using assms(3) by (simp_all add: plain_name_def)
  have "\<not> blank (hd (n @ e))" using n blank_is_space [of "hd n"] by auto
  then show ?thesis using assms(1,2,4,5) n(1) by (intro config_trim_pad) simp_all
qed

section \<open>Properties\<close>

text \<open>Quoted assignments round-trip: a line that holds an indented name, a gap of spaces or
  tabs, and a quoted non-empty value parses to exactly that name and value, with or without
  blanks and a comment after it. The value may contain spaces, slashes and \<open>//\<close>, as
  URLs do.\<close>

theorem quoted_assignment_roundtrip:
  assumes "plain_name n" and "v \<noteq> []" "QUOTE \<notin> set v" "LF \<notin> set v"
    and "gap \<noteq> []" "\<forall>c \<in> set gap. gap_char c"
    and "\<forall>c \<in> set indent. blank c" "\<forall>c \<in> set post. blank c"
    and "comment = [] \<or> (\<exists>text. comment = SLASH # SLASH # text)"
  shows "parseAssignment (indent @ n @ gap @ QUOTE # v @ QUOTE # post @ comment) n0 v0 = (True, n, v)"
proof -
  let ?pre = "indent @ n @ gap"
  have clean: "QUOTE \<notin> set ?pre" "SLASH \<notin> set ?pre" "QUOTE \<notin> set post" "SLASH \<notin> set post"
    using assms(1,6,7,8) blanks_no_quote gap_char_facts by (auto simp: plain_name_def)
  from assms(9) have
    "stripComment (?pre @ QUOTE # v @ QUOTE # post @ comment) = ?pre @ QUOTE # v @ QUOTE # post"
    using strip_quoted_line [OF clean(1,2) assms(3) clean(3,4)] by auto
  then have "config_trim (stripComment (?pre @ QUOTE # v @ QUOTE # post @ comment)) =
      n @ gap @ QUOTE # v @ [QUOTE]"
    using trim_line [OF assms(7,8,1), of "gap @ QUOTE # v @ [QUOTE]"] by simp
  from parse_stripped_quoted [OF this assms(1,5,6,3,4)] assms(2) show ?thesis by simp
qed

theorem quoted_assignment_roundtrip_witness:
  "parseAssignment ([] @ ''fastdl_public_url'' @ ''  '' @ QUOTE # ''http://host/x'' @ QUOTE # [TAB] @ ''// note'')
     [] [] = (True, ''fastdl_public_url'', ''http://host/x'')"
  by (rule quoted_assignment_roundtrip) (auto simp: plain_name_def is_space_def gap_char_def)

text \<open>What a successful parse guarantees: a non-empty name without white space, and a
  non-empty value on one line, both made of bytes of the line in front of any comment.\<close>

theorem parse_success:
  assumes "parseAssignment raw n0 v0 = (True, n, v)"
  shows "n \<noteq> [] \<and> (\<forall>c \<in> set n. \<not> is_space c) \<and> v \<noteq> [] \<and> LF \<notin> set v \<and>
    set n \<union> set v \<subseteq> set (stripComment raw)"
proof -
  let ?line = "config_trim (stripComment raw)"
  obtain input where w: "read_word ?line = Some (n, input)"
    using assms by (auto simp: parseAssignment_def Let_def split: if_splits option.splits)
  let ?rem = "config_trim (takeWhile (\<lambda>c. c \<noteq> LF) input)"
  have n: "n \<noteq> []" "\<forall>c \<in> set n. \<not> is_space c" "set n \<subseteq> set ?line" "set input \<subseteq> set ?line"
    using read_word_SomeD [OF w] by auto
  have v: "v \<noteq> []" "set v \<subseteq> set ?rem"
    using assms w by (auto simp: parseAssignment_def Let_def substr_def
        dest: set_takeWhileD in_set_takeD in_set_dropD split: if_splits option.splits)
  have "set ?rem \<subseteq> set input - {LF}"
    using config_trim_subset [of "takeWhile (\<lambda>c. c \<noteq> LF) input"] by (auto dest: set_takeWhileD)
  with n v config_trim_subset [of "stripComment raw"] show ?thesis by blast
qed

theorem parse_success_witness:
  "set ''port'' \<union> set ''27015'' \<subseteq> set (stripComment ''port 27015 // x'')"
proof -
  have "parseAssignment ''port 27015 // x'' [] [] = (True, ''port'', ''27015'')" by code_simp
  from parse_success [OF this] show ?thesis by blast
qed

text \<open>A line that is blank up to its comment sets nothing: the parser reports no assignment
  and leaves both out parameters as they were.\<close>

theorem comment_line_ignored:
  assumes "\<forall>c \<in> set indent. blank c"
    and "comment = [] \<or> (\<exists>text. comment = SLASH # SLASH # text)"
  shows "parseAssignment (indent @ comment) n v = (False, n, v)"
proof -
  have "stripComment (indent @ comment) = indent"
    using assms strip_scan_plain [of indent False comment] blanks_no_quote [OF assms(1)]
    by (auto simp: stripComment_def)
  then have "config_trim (stripComment (indent @ comment)) = []"
    using assms(1) config_trim_blank by simp
  then show ?thesis by (simp add: parseAssignment_def)
qed

theorem comment_line_ignored_witness:
  "parseAssignment (''  '' @ ''// fastdl_port 80'') ''a'' ''b'' = (False, ''a'', ''b'')"
  by (rule comment_line_ignored) auto

end
