(* ===== verification/Secure_File.thy ===== *)
theory Secure_File
  imports FastDL_Prelude
begin

unbundle bit_operations_syntax

text \<open>
  The file system the program looks at, and the descriptor functions of
  \<^verbatim>\<open>src/src/secure_file.cpp\<close> (POSIX branch). A file system is a tree of names: regular
  files, special files, directories with their entries in \<open>readdir\<close> order, and symbolic
  links; files refer to inodes, which hold the metadata and the bytes. The functions of
  \<open>std::filesystem\<close> the sources call (\<open>canonical\<close>, \<open>absolute\<close>, \<open>status\<close>,
  \<open>symlink_status\<close>, \<open>file_size\<close>) are defined on it. Another process may change the tree between two
  calls, so every operation takes the file system as it stands when the call is made.

  A \<open>std::filesystem::path\<close> is the list of its components as the class iterates them; an
  absolute path starts with the component \<^verbatim>\<open>/\<close>.
\<close>

section \<open>The file system\<close>

type_synonym path = "string list"
type_synonym inode_id = "u64 \<times> u64"

record inode =
  st_bytes :: string
  st_mtim_sec :: int
  st_mtim_nsec :: nat
  st_readable :: bool

datatype node =
    Regular inode_id
  | Special inode_id
  | Directory inode_id "string list" bool
  | Symlink bool "string list"

record file_system =
  fs_tree :: "string list \<Rightarrow> node option"
  fs_inode :: "inode_id \<Rightarrow> inode"

text \<open>A directory carries its entries and whether the process may search it; a symbolic link
  whether its target is absolute, and the target's names.\<close>

datatype errno = ENOENT | ENOTDIR | ELOOP | EACCES | EINVAL | EISDIR | ENOTSUP

fun errno_message :: "errno \<Rightarrow> string" where
  "errno_message ENOENT = ''No such file or directory''"
| "errno_message ENOTDIR = ''Not a directory''"
| "errno_message ELOOP = ''Too many levels of symbolic links''"
| "errno_message EACCES = ''Permission denied''"
| "errno_message EINVAL = ''Invalid argument''"
| "errno_message EISDIR = ''Is a directory''"
| "errno_message ENOTSUP = ''Operation not supported''"

definition tree_at :: "file_system \<Rightarrow> string list \<Rightarrow> node option" where
  "tree_at fs p = (if p = [] then (case fs_tree fs [] of Some (Directory i es a) \<Rightarrow> Some (Directory i es a)
                                    | _ \<Rightarrow> Some (Directory (0, 0) [] True))
                   else fs_tree fs p)"

text \<open>One name looked up in a directory.\<close>

definition lookup_in :: "file_system \<Rightarrow> string list \<Rightarrow> string \<Rightarrow> errno + node" where
  "lookup_in fs dir c =
     (case tree_at fs dir of
        Some (Directory i es access) \<Rightarrow>
          if \<not> access then Inl EACCES
          else (case fs_tree fs (dir @ [c]) of None \<Rightarrow> Inl ENOENT | Some n \<Rightarrow> Inr n)
      | _ \<Rightarrow> Inl ENOTDIR)"

text \<open>The kernel's path walk: \<open>dir\<close> is resolved and free of links, \<open>links\<close> bounds the number of
  links still to follow (Linux allows 40).\<close>

function walk :: "file_system \<Rightarrow> nat \<Rightarrow> string list \<Rightarrow> string list \<Rightarrow> errno + string list" where
  "walk fs links dir [] = Inr dir"
| "walk fs links dir (c # cs) =
     (if c = [] \<or> c = ''.'' then walk fs links dir cs
      else if c = ''..'' then walk fs links (butlast dir) cs
      else (case lookup_in fs dir c of
          Inl e \<Rightarrow> Inl e
        | Inr n \<Rightarrow>
            (case n of
               Symlink is_abs target \<Rightarrow>
                 if links = 0 then Inl ELOOP
                 else walk fs (links - 1) (if is_abs then [] else dir) (target @ cs)
             | _ \<Rightarrow> walk fs links (dir @ [c]) cs)))"
  by pat_completeness auto
termination
  by (relation "measures [\<lambda>(fs, links, dir, cs). links, \<lambda>(fs, links, dir, cs). length cs]") auto

definition symlink_limit :: nat where "symlink_limit = 40"

text \<open>\<open>std::filesystem::canonical\<close> of an absolute path.\<close>

definition canonical :: "file_system \<Rightarrow> path \<Rightarrow> errno + path" where
  "canonical fs p =
     (case walk fs symlink_limit [] (if p \<noteq> [] \<and> hd p = ''/'' then tl p else p) of
        Inl e \<Rightarrow> Inl e
      | Inr names \<Rightarrow> Inr (''/'' # names))"

text \<open>\<open>std::filesystem::absolute\<close> with the process's working directory.\<close>

definition absolute :: "path \<Rightarrow> path \<Rightarrow> errno + path" where
  "absolute cwd p =
     (if p = [] then Inl EINVAL
      else if hd p = ''/'' then Inr p
      else Inr (cwd @ p))"

text \<open>\<open>stat\<close> follows links, \<open>lstat\<close> does not follow the last component.\<close>

definition stat :: "file_system \<Rightarrow> path \<Rightarrow> errno + node" where
  "stat fs p =
     (case canonical fs p of
        Inl e \<Rightarrow> Inl e
      | Inr q \<Rightarrow> (case tree_at fs (tl q) of None \<Rightarrow> Inl ENOENT | Some n \<Rightarrow> Inr n))"

definition lstat :: "file_system \<Rightarrow> path \<Rightarrow> errno + node" where
  "lstat fs p =
     (if tl p = [] then stat fs p
      else (case canonical fs (butlast p) of
          Inl e \<Rightarrow> Inl e
        | Inr q \<Rightarrow> lookup_in fs (tl q) (last p)))"

fun is_regular :: "errno + node \<Rightarrow> bool" where
  "is_regular (Inr (Regular i)) = True"
| "is_regular _ = False"

fun is_directory_status :: "errno + node \<Rightarrow> bool" where
  "is_directory_status (Inr (Directory i es a)) = True"
| "is_directory_status _ = False"

definition is_directory :: "file_system \<Rightarrow> path \<Rightarrow> bool" where
  "is_directory fs p = is_directory_status (stat fs p)"

definition inode_size :: "file_system \<Rightarrow> inode_id \<Rightarrow> u64" where
  "inode_size fs i = of_nat (length (st_bytes (fs_inode fs i)))"

definition file_size :: "file_system \<Rightarrow> path \<Rightarrow> errno + u64" where
  "file_size fs p =
     (case stat fs p of
        Inl e \<Rightarrow> Inl e
      | Inr (Regular i) \<Rightarrow> Inr (inode_size fs i)
      | Inr (Directory i es a) \<Rightarrow> Inl EISDIR
      | Inr _ \<Rightarrow> Inl ENOTSUP)"

section \<open>Descriptors\<close>

text \<open>An open descriptor keeps hold of the node it was opened on; its inode lives as long as
  the descriptor, whatever happens to the name.\<close>

type_synonym descriptor = node

record OpenedFileInfo =
  fi_size :: u64
  modifiedSeconds :: int
  modifiedIdentity :: u64
  fileIdentity :: u64

text \<open>\<open>None\<close> is the result -1.\<close>

definition openReadFile :: "file_system \<Rightarrow> path \<Rightarrow> descriptor option" where
  "openReadFile fs path =
     (case stat fs path of
        Inl e \<Rightarrow> None
      | Inr (Regular i) \<Rightarrow> if st_readable (fs_inode fs i) then Some (Regular i) else None
      | Inr (Special i) \<Rightarrow> if st_readable (fs_inode fs i) then Some (Special i) else None
      | Inr n \<Rightarrow> Some n)"

fun node_id :: "node \<Rightarrow> inode_id option" where
  "node_id (Regular i) = Some i"
| "node_id (Special i) = Some i"
| "node_id (Directory i es a) = Some i"
| "node_id (Symlink a t) = None"

definition identity_of :: "inode_id \<Rightarrow> u64" where
  "identity_of i = fst i XOR (snd i * 1099511628211)"

definition info_of :: "file_system \<Rightarrow> inode_id \<Rightarrow> OpenedFileInfo" where
  "info_of fs i =
     (let n = fs_inode fs i
      in \<lparr>fi_size = inode_size fs i, modifiedSeconds = st_mtim_sec n,
          modifiedIdentity = of_int (st_mtim_sec n) * 1000000000 + of_nat (st_mtim_nsec n),
          fileIdentity = identity_of i\<rparr>)"

definition inspectReadFile ::
  "file_system \<Rightarrow> descriptor \<Rightarrow> path \<Rightarrow> OpenedFileInfo option" where
  "inspectReadFile fs descriptor expected =
     (case descriptor of
        Regular i \<Rightarrow>
          (case stat fs expected of
             Inl e \<Rightarrow> None
           | Inr n \<Rightarrow> if node_id n \<noteq> Some i then None else Some (info_of fs i))
      | _ \<Rightarrow> None)"

text \<open>\<open>pread\<close> may deliver fewer bytes than there are; \<open>short\<close> says how many fewer than asked
  for it is willing to give. Errors and the bytes themselves are the result.\<close>

definition readFileAt ::
  "file_system \<Rightarrow> descriptor \<Rightarrow> u64 \<Rightarrow> size_t \<Rightarrow> nat \<Rightarrow> string option" where
  "readFileAt fs descriptor offset n short =
     (if offset > 9223372036854775807 then None
      else (case descriptor of
          Regular i \<Rightarrow> Some (take (unat n - short) (drop (unat offset) (st_bytes (fs_inode fs i))))
        | _ \<Rightarrow> None))"

section \<open>Canonical paths\<close>

text \<open>\<open>enters fs dir c\<close>: the directory may be searched and holds an entry \<open>c\<close> that is neither a
  link nor a dot name. A resolved path enters every one of its components.\<close>

definition dot_name :: "string \<Rightarrow> bool" where
  "dot_name c \<longleftrightarrow> c = [] \<or> c = ''.'' \<or> c = ''..''"

definition enters :: "file_system \<Rightarrow> string list \<Rightarrow> string \<Rightarrow> bool" where
  "enters fs dir c \<longleftrightarrow> \<not> dot_name c \<and>
     (case lookup_in fs dir c of Inl e \<Rightarrow> False | Inr n \<Rightarrow> node_id n \<noteq> None)"

definition resolved :: "file_system \<Rightarrow> string list \<Rightarrow> bool" where
  "resolved fs p \<longleftrightarrow> (\<forall>k < length p. enters fs (take k p) (p ! k))"

lemma resolved_Nil [simp]: "resolved fs []"
  by (simp add: resolved_def)

lemma resolved_snoc [simp]: "resolved fs (p @ [c]) \<longleftrightarrow> resolved fs p \<and> enters fs p c"
proof -
  have "(\<forall>k < length p. enters fs (take k (p @ [c])) ((p @ [c]) ! k)) \<longleftrightarrow> resolved fs p"
    by (simp add: resolved_def nth_append)
  then show ?thesis
    by (auto simp only: resolved_def [of fs "p @ [c]"] length_append_singleton All_less_Suc
        nth_append_length take_append take_all diff_self_eq_0 take_0 append_Nil2 order_refl)
qed

lemma resolved_butlast: "resolved fs p \<Longrightarrow> resolved fs (butlast p)"
  by (cases p rule: rev_cases) (auto simp: resolved_snoc)

lemma walk_dot:
  "walk fs links dir ([] # cs) = walk fs links dir cs"
  "walk fs links dir (''.'' # cs) = walk fs links dir cs"
  "walk fs links dir (''..'' # cs) = walk fs links (butlast dir) cs"
  by simp_all

lemma walk_name:
  "\<not> dot_name c \<Longrightarrow> walk fs links dir (c # cs) =
     (case lookup_in fs dir c of
        Inl e \<Rightarrow> Inl e
      | Inr (Symlink is_abs target) \<Rightarrow>
          if links = 0 then Inl ELOOP
          else walk fs (links - 1) (if is_abs then [] else dir) (target @ cs)
      | Inr _ \<Rightarrow> walk fs links (dir @ [c]) cs)"
  by (simp add: dot_name_def split: sum.split)

declare walk.simps(2) [simp del]

lemma walk_enters: "enters fs dir c \<Longrightarrow> walk fs links dir (c # cs) = walk fs links (dir @ [c]) cs"
  by (auto simp: enters_def walk_name split: sum.splits node.splits)

lemma walk_resolved: "walk fs links dir cs = Inr r \<Longrightarrow> resolved fs dir \<Longrightarrow> resolved fs r"
proof (induction fs links dir cs rule: walk.induct)
  case (1 fs links dir)
  then show ?case by simp
next
  case (2 fs links dir c cs)
  consider "c = [] \<or> c = ''.''" | "c = ''..''" | "\<not> dot_name c"
    by (auto simp: dot_name_def)
  then show ?case
  proof cases
    case 1
    with "2.prems" "2.IH"(1) walk_dot show ?thesis by metis
  next
    case 2
    with "2.prems" "2.IH"(2) walk_dot resolved_butlast show ?thesis
      by (metis list.distinct(1) list.inject)
  next
    case 3
    then have c: "\<not> (c = [] \<or> c = ''.'')" "c \<noteq> ''..''" by (auto simp: dot_name_def)
    obtain n where n: "lookup_in fs dir c = Inr n"
      using "2.prems"(1) by (auto simp: walk_name [OF 3] split: sum.splits)
    show ?thesis
    proof (cases "node_id n")
      case None
      then obtain a t where sym: "n = Symlink a t" by (cases n) auto
      with "2.prems" n have "links \<noteq> 0" "walk fs (links - 1) (if a then [] else dir) (t @ cs) = Inr r"
        by (simp_all add: walk_name [OF 3] split: if_splits)
      with "2.IH"(6) [OF c n sym] "2.prems"(2) show ?thesis by simp
    next
      case (Some i)
      with 3 n have e: "enters fs dir c" by (simp add: enters_def)
      with "2.prems"(1) have w: "walk fs links (dir @ [c]) cs = Inr r" by (simp add: walk_enters)
      from e "2.prems"(2) have "resolved fs (dir @ [c])" by simp
      with w "2.IH"(3,4,5) [OF c n] Some show ?thesis by (cases n) simp_all
    qed
  qed
qed

lemma resolved_append:
  "resolved fs (p @ q) \<longleftrightarrow> resolved fs p \<and> (\<forall>k < length q. enters fs (p @ take k q) (q ! k))"
proof (induction q rule: rev_induct)
  case Nil
  then show ?case by simp
next
  case (snoc c q)
  have "resolved fs (p @ q @ [c]) \<longleftrightarrow> resolved fs (p @ q) \<and> enters fs (p @ q) c"
    using resolved_snoc [of fs "p @ q" c] by simp
  with snoc.IH show ?case by (auto simp: less_Suc_eq nth_append)
qed

lemma walk_resolved_self: "resolved fs (dir @ cs) \<Longrightarrow> walk fs links dir cs = Inr (dir @ cs)"
proof (induction cs arbitrary: dir)
  case Nil
  then show ?case by simp
next
  case (Cons c cs)
  then have "resolved fs ((dir @ [c]) @ cs)" by simp
  moreover from Cons.prems have "enters fs dir c"
    by (force simp: resolved_append)
  ultimately show ?case using Cons.IH [of "dir @ [c]"] by (simp add: walk_enters)
qed

lemma canonical_Inr:
  "canonical fs p = Inr q \<Longrightarrow> \<exists>names. q = ''/'' # names \<and> resolved fs names"
  by (auto simp: canonical_def split: sum.splits if_splits dest: walk_resolved)

lemma canonical_resolved: "resolved fs names \<Longrightarrow> canonical fs (''/'' # names) = Inr (''/'' # names)"
  using walk_resolved_self [of fs "[]" names] by (simp add: canonical_def)

lemma canonical_idem: "canonical fs p = Inr q \<Longrightarrow> canonical fs q = Inr q"
  using canonical_Inr canonical_resolved by blast

lemma lookup_in_tree: "lookup_in fs dir c = Inr n \<Longrightarrow> tree_at fs (dir @ [c]) = Some n"
  by (auto simp: lookup_in_def tree_at_def split: option.splits node.splits if_splits)

lemma resolved_node:
  assumes "resolved fs names"
  shows "\<exists>n. tree_at fs names = Some n \<and> node_id n \<noteq> None"
proof (cases names rule: rev_cases)
  case Nil
  then show ?thesis by (auto simp: tree_at_def split: option.splits node.splits)
next
  case (snoc dir c)
  with assms lookup_in_tree show ?thesis
    by (fastforce simp: enters_def split: sum.splits)
qed

text \<open>On a canonical path \<open>stat\<close> and \<open>lstat\<close> agree: there is no link left to follow.\<close>

lemma stat_resolved:
  assumes "resolved fs names"
  shows "stat fs (''/'' # names) = Inr (the (tree_at fs names))"
  using resolved_node [OF assms] by (auto simp: stat_def canonical_resolved [OF assms])

lemma lstat_resolved:
  assumes "resolved fs names"
  shows "lstat fs (''/'' # names) = stat fs (''/'' # names)"
proof (cases names rule: rev_cases)
  case Nil
  then show ?thesis by (simp add: lstat_def)
next
  case (snoc dir c)
  then have d: "resolved fs dir" and e: "enters fs dir c" using assms by simp_all
  then obtain n where n: "lookup_in fs dir c = Inr n" by (auto simp: enters_def split: sum.splits)
  have "lstat fs (''/'' # names) = Inr n"
    using snoc n canonical_resolved [OF d] by (simp add: lstat_def)
  moreover have "stat fs (''/'' # names) = Inr n"
    using stat_resolved [OF assms] lookup_in_tree [OF n] snoc by simp
  ultimately show ?thesis by simp
qed

section \<open>Properties\<close>

text \<open>Canonical paths are free of indirection: what \<open>canonical\<close> returns is absolute, no
  component is a dot name, every prefix is an existing entry that is not a symbolic link,
  and canonicalising it again changes nothing.\<close>

theorem canonical_no_links:
  assumes "canonical fs p = Inr q"
  shows "\<exists>names. q = ''/'' # names \<and>
    (\<forall>k < length names. \<not> dot_name (names ! k) \<and>
       (\<exists>n i. tree_at fs (take (Suc k) names) = Some n \<and> node_id n = Some i)) \<and>
    canonical fs q = Inr q"
proof -
  obtain names where q: "q = ''/'' # names" and r: "resolved fs names"
    using canonical_Inr [OF assms] by blast
  have "\<not> dot_name (names ! k) \<and> (\<exists>n i. tree_at fs (take (Suc k) names) = Some n \<and> node_id n = Some i)"
    if "k < length names" for k
  proof -
    have e: "enters fs (take k names) (names ! k)" using r that by (simp add: resolved_def)
    then obtain n i where "lookup_in fs (take k names) (names ! k) = Inr n" "node_id n = Some i"
      by (auto simp: enters_def split: sum.splits)
    with e lookup_in_tree [of fs "take k names" "names ! k" n] that show ?thesis
      by (auto simp: enters_def take_Suc_conv_app_nth)
  qed
  with q canonical_idem [OF assms] show ?thesis by blast
qed

text \<open>The descriptor check: when \<open>inspectReadFile\<close> accepts an open descriptor for an expected
  path, the descriptor is a regular file, the path at that moment leads to that very inode,
  and the recorded size, time and identity are those of the inode the descriptor holds.\<close>

lemma inspect_accepts_same_file:
  assumes "inspectReadFile fs d expected = Some info"
  shows "\<exists>i n. d = Regular i \<and> stat fs expected = Inr n \<and> node_id n = Some i \<and>
    info = info_of fs i \<and> fi_size info = of_nat (length (st_bytes (fs_inode fs i)))"
  using assms
  by (auto simp: inspectReadFile_def info_of_def inode_size_def Let_def
      split: node.splits sum.splits if_splits)

text \<open>A small tree for the witnesses: \<^verbatim>\<open>/srv/maps/a.bsp\<close>, a link \<^verbatim>\<open>/srv/link -> maps/a.bsp\<close> and a
  link \<^verbatim>\<open>/srv/maps/out -> /etc\<close> that leads out.\<close>

definition sample_fs :: file_system where
  "sample_fs = \<lparr>
     fs_tree = map_of [
       ([], Directory (1, 2) [''srv'', ''etc''] True),
       ([''srv''], Directory (1, 3) [''maps'', ''link'', ''x.wad''] True),
       ([''srv'', ''maps''], Directory (1, 4) [''a.bsp'', ''out''] True),
       ([''srv'', ''maps'', ''a.bsp''], Regular (1, 5)),
       ([''srv'', ''x.wad''], Regular (1, 6)),
       ([''srv'', ''link''], Symlink False [''maps'', ''a.bsp'']),
       ([''srv'', ''maps'', ''out''], Symlink True [''etc'']),
       ([''etc''], Directory (1, 7) [''passwd''] True),
       ([''etc'', ''passwd''], Regular (1, 8))],
     fs_inode = (\<lambda>i. \<lparr>st_bytes = ''12345'', st_mtim_sec = 1000, st_mtim_nsec = 0, st_readable = True\<rparr>)\<rparr>"

theorem canonical_no_links_witness:
  "canonical sample_fs [''/'', ''srv'', ''link''] = Inr [''/'', ''srv'', ''maps'', ''a.bsp''] \<and>
   canonical sample_fs [''/'', ''srv'', ''maps'', ''a.bsp''] = Inr [''/'', ''srv'', ''maps'', ''a.bsp'']"
proof -
  have "canonical sample_fs [''/'', ''srv'', ''link''] = Inr [''/'', ''srv'', ''maps'', ''a.bsp'']"
    by code_simp
  with canonical_no_links [OF this] show ?thesis by blast
qed

lemma inspect_accepts_same_file_witness:
  "inspectReadFile sample_fs (Regular (1, 5)) [''/'', ''srv'', ''link''] = Some (info_of sample_fs (1, 5)) \<and>
   fi_size (info_of sample_fs (1, 5)) = of_nat (length (st_bytes (fs_inode sample_fs (1, 5))))"
proof -
  have "inspectReadFile sample_fs (Regular (1, 5)) [''/'', ''srv'', ''link''] = Some (info_of sample_fs (1, 5))"
    by code_simp
  with inspect_accepts_same_file [OF this] show ?thesis by auto
qed

end
