(* ===== verification/Path_Resolver.thy ===== *)
theory Path_Resolver
  imports Secure_File
begin

text \<open>
  The path resolver (\<^verbatim>\<open>src/src/path_resolver.cpp\<close>, \<^verbatim>\<open>path_resolver.h\<close>): from a request target to
  the file that may be served, or the reason why not. The file system is the tree of
  \<^verbatim>\<open>Secure_File\<close>; \<open>resolve\<close> makes three separate queries (canonicalisation, the directory
  entry, the size), and each sees the tree as it is at that moment.
\<close>

section \<open>Model\<close>

datatype ResolveStatus =
    Ok | InvalidPath | OutsideRoot | NotFound | NotAFile | DirectoryDenied | ExtensionDenied
  | TooLarge | IoError

record ResolvedFile =
  rf_status :: ResolveStatus
  rf_path :: path
  rf_size :: u64
  rf_extension :: string

record PathResolver =
  pr_root :: path
  pr_dirs :: "string list"
  pr_types :: "string list"
  pr_rootTypes :: "string list"
  pr_allDirs :: bool
  pr_allTypes :: bool
  pr_allRootTypes :: bool

definition pr_init :: PathResolver where
  "pr_init = \<lparr>pr_root = [], pr_dirs = [], pr_types = [], pr_rootTypes = [],
     pr_allDirs = False, pr_allTypes = False, pr_allRootTypes = False\<rparr>"

definition componentEqual :: "string \<Rightarrow> string \<Rightarrow> bool" where
  "componentEqual left right \<longleftrightarrow> left = right"

definition list_blank :: "char \<Rightarrow> bool" where
  "list_blank c \<longleftrightarrow> c = CHR '' '' \<or> c = CHR 0x09"

function splitList_loop :: "string \<Rightarrow> nat \<Rightarrow> string list \<Rightarrow> string list" where
  "splitList_loop value start items =
     (if start \<le> length value then
        (let comma = find_from CHR '','' value start;
             e = (case comma of None \<Rightarrow> length value | Some i \<Rightarrow> i);
             item = trim_of list_blank (substr value start (e - start));
             items = (if item \<noteq> [] then items @ [lowerAscii item] else items)
         in case comma of None \<Rightarrow> items | Some i \<Rightarrow> splitList_loop value (i + 1) items)
      else items)"
  by pat_completeness auto
termination
  by (relation "measure (\<lambda>(value, start, items). Suc (length value) - start)")
    (auto simp: find_from_def Let_def split: if_splits)

definition splitList :: "string \<Rightarrow> string list" where
  "splitList value = splitList_loop value 0 []"

text \<open>The loop over a list of types: whether \<^verbatim>\<open>*\<close> occurs, and the others with a leading dot.\<close>

fun collect_types :: "string list \<Rightarrow> bool \<Rightarrow> string list \<Rightarrow> bool \<times> string list" where
  "collect_types [] allTypes types = (allTypes, types)"
| "collect_types (item # items) allTypes types =
     (if item = ''*'' then collect_types items True types
      else collect_types items allTypes
             (types @ [if hd item = CHR ''.'' then item else CHR ''.'' # item]))"

definition configure ::
  "file_system \<Rightarrow> path \<Rightarrow> path \<Rightarrow> string \<Rightarrow> string \<Rightarrow> string \<Rightarrow> string \<Rightarrow> PathResolver \<Rightarrow>
     bool \<times> string \<times> PathResolver" where
  "configure fs cwd root dirs types rootTypes error r =
     (case absolute cwd root of
        Inl e \<Rightarrow> (False, ''could not make root absolute: '' @ errno_message e, r)
      | Inr full \<Rightarrow>
          (case canonical fs full of
             Inl e \<Rightarrow> (False, ''root is not an accessible directory'', r)
           | Inr canon \<Rightarrow>
               if \<not> is_directory fs canon then (False, ''root is not an accessible directory'', r)
               else
                 (let ds = splitList dirs;
                      (allT, ts) = collect_types (splitList types) False [];
                      (allR, rts) = collect_types (splitList rootTypes) False []
                  in (True, error,
                      r\<lparr>pr_root := canon, pr_dirs := ds, pr_allDirs := ''*'' \<in> set ds,
                        pr_types := ts, pr_allTypes := allT,
                        pr_rootTypes := rts, pr_allRootTypes := allR\<rparr>))))"

text \<open>The shorter overload keeps root files closed.\<close>

definition configure_closed ::
  "file_system \<Rightarrow> path \<Rightarrow> path \<Rightarrow> string \<Rightarrow> string \<Rightarrow> string \<Rightarrow> PathResolver \<Rightarrow>
     bool \<times> string \<times> PathResolver" where
  "configure_closed fs cwd root dirs types error r = configure fs cwd root dirs types [] error r"

definition servesRootFiles :: "PathResolver \<Rightarrow> bool" where
  "servesRootFiles r \<longleftrightarrow> pr_allRootTypes r \<or> pr_rootTypes r \<noteq> []"

definition allowedDirectory :: "PathResolver \<Rightarrow> string \<Rightarrow> bool" where
  "allowedDirectory r name \<longleftrightarrow> (if pr_allDirs r then True else name \<in> set (pr_dirs r))"

definition allowedRootExtension :: "PathResolver \<Rightarrow> string \<Rightarrow> bool" where
  "allowedRootExtension r ext \<longleftrightarrow>
     (if pr_allRootTypes r then True else ext \<in> set (pr_rootTypes r))"

definition allowedExtension :: "PathResolver \<Rightarrow> string \<Rightarrow> bool" where
  "allowedExtension r ext \<longleftrightarrow> (if pr_allTypes r then True else ext \<in> set (pr_types r))"

fun containedBy :: "path \<Rightarrow> path \<Rightarrow> bool" where
  "containedBy [] candidate = True"
| "containedBy (r # rs) [] = False"
| "containedBy (r # rs) (c # cs) = (if \<not> componentEqual r c then False else containedBy rs cs)"

fun componentsUnder :: "path \<Rightarrow> path \<Rightarrow> string list" where
  "componentsUnder [] candidate = map lowerAscii candidate"
| "componentsUnder (r # rs) [] = []"
| "componentsUnder (r # rs) (c # cs) = componentsUnder rs cs"

definition scan_entry ::
  "PathResolver \<Rightarrow> file_system \<Rightarrow> path list \<Rightarrow> string \<Rightarrow> path list" where
  "scan_entry r fs directories name =
     (case canonical fs (pr_root r @ [name]) of
        Inl e \<Rightarrow> directories
      | Inr canon \<Rightarrow>
          if \<not> is_directory fs canon \<or> \<not> containedBy (pr_root r) canon then directories
          else
            (let parts = componentsUnder (pr_root r) canon
             in if length parts \<noteq> 1 \<or> \<not> allowedDirectory r (hd parts) then directories
                else if canon \<in> set directories then directories
                else directories @ [canon]))"

text \<open>A directory that cannot be opened yields an empty iteration.\<close>

definition scanDirectories :: "PathResolver \<Rightarrow> file_system \<Rightarrow> path list" where
  "scanDirectories r fs =
     (case stat fs (pr_root r) of
        Inr (Directory i entries True) \<Rightarrow> foldl (scan_entry r fs) [] entries
      | _ \<Rightarrow> [])"

definition containsPath :: "PathResolver \<Rightarrow> file_system \<Rightarrow> path \<Rightarrow> bool" where
  "containsPath r fs p =
     (case canonical fs p of Inl e \<Rightarrow> False | Inr canon \<Rightarrow> containedBy (pr_root r) canon)"

definition forbidden_byte :: "char \<Rightarrow> bool" where
  "forbidden_byte c \<longleftrightarrow> byte c = 0 \<or> byte c < 0x20 \<or> byte c = 0x7f \<or> c = CHR 0x5C \<or>
     c = CHR '':'' \<or> c = CHR ''?'' \<or> c = CHR ''#''"

function validate_loop :: "string \<Rightarrow> nat \<Rightarrow> string list \<Rightarrow> string list option" where
  "validate_loop input start components =
     (if start \<le> length input then
        (let slash = find_from CHR ''/'' input start;
             e = (case slash of None \<Rightarrow> length input | Some i \<Rightarrow> i);
             component = substr input start (e - start)
         in if component \<noteq> [] \<and> (component = ''.'' \<or> component = ''..'' \<or> length component > 255)
            then None
            else
              (let components = (if component \<noteq> [] then components @ [component] else components)
               in if length components > 12 then None
                  else (case slash of
                      None \<Rightarrow> Some components
                    | Some i \<Rightarrow> validate_loop input (i + 1) components)))
      else Some components)"
  by pat_completeness auto
termination
  by (relation "measure (\<lambda>(input, start, components). Suc (length input) - start)")
    (auto simp: find_from_def Let_def split: if_splits)

text \<open>The relative path is the list of its components.\<close>

definition validate :: "string option \<Rightarrow> path option" where
  "validate rawUrl =
     (case rawUrl of
        None \<Rightarrow> None
      | Some input \<Rightarrow>
          if input = [] \<or> length input > 2048 \<or> hd input \<noteq> CHR ''/'' then None
          else if list_ex forbidden_byte input then None
          else (case validate_loop input 1 [] of
              None \<Rightarrow> None
            | Some components \<Rightarrow> if components = [] then None else Some components))"

text \<open>\<open>path::extension\<close> of a file name.\<close>

definition extension_of :: "string \<Rightarrow> string" where
  "extension_of name =
     (let suffix = takeWhile (\<lambda>c. c \<noteq> CHR ''.'') (rev name)
      in if name = ''.'' \<or> name = ''..'' \<or> length name \<le> length suffix + 1 then []
         else CHR ''.'' # rev suffix)"

definition path_extension :: "path \<Rightarrow> string" where
  "path_extension p = (if length p \<le> 1 then [] else extension_of (last p))"

definition result_of :: "ResolveStatus \<Rightarrow> ResolvedFile" where
  "result_of status = \<lparr>rf_status = status, rf_path = [], rf_size = 0, rf_extension = []\<rparr>"

text \<open>\<open>entry.is_regular_file\<close>: the type the entry cached without following links, or, for a
  link, the type of what it leads to.\<close>

definition entry_is_regular :: "file_system \<Rightarrow> path \<Rightarrow> node \<Rightarrow> bool" where
  "entry_is_regular fs p cached =
     (case cached of Symlink a t \<Rightarrow> is_regular (stat fs p) | n \<Rightarrow> is_regular (Inr n))"

definition resolve ::
  "PathResolver \<Rightarrow> file_system \<Rightarrow> file_system \<Rightarrow> file_system \<Rightarrow> string option \<Rightarrow> u64 \<Rightarrow> ResolvedFile" where
  "resolve r fs fsEntry fsSize rawUrl maxBytes =
     (case validate rawUrl of
        None \<Rightarrow> result_of InvalidPath
      | Some relative \<Rightarrow>
          (case canonical fs (pr_root r @ relative) of
             Inl e \<Rightarrow> result_of (if e = ENOENT then NotFound else IoError)
           | Inr candidate \<Rightarrow>
               if \<not> containedBy (pr_root r) candidate then result_of OutsideRoot
               else (case lstat fsEntry candidate of
                   Inl e \<Rightarrow> result_of IoError
                 | Inr entry \<Rightarrow>
                     if \<not> entry_is_regular fsEntry candidate entry then result_of NotAFile
                     else
                       (let parts = componentsUnder (pr_root r) candidate;
                            ext = lowerAscii (path_extension candidate);
                            requestedRootLevel = butlast relative = [];
                            result = (result_of InvalidPath)\<lparr>rf_extension := ext\<rparr>
                        in if requestedRootLevel \<and>
                              (length parts \<noteq> 1 \<or> \<not> allowedRootExtension r ext)
                           then result\<lparr>rf_status := DirectoryDenied\<rparr>
                           else if \<not> requestedRootLevel \<and>
                              (length parts < 2 \<or> \<not> allowedDirectory r (hd parts))
                           then result\<lparr>rf_status := DirectoryDenied\<rparr>
                           else if \<not> allowedExtension r ext
                           then result\<lparr>rf_status := ExtensionDenied\<rparr>
                           else (case file_size fsSize candidate of
                               Inl e \<Rightarrow> result\<lparr>rf_status := IoError\<rparr>
                             | Inr n \<Rightarrow>
                                 if n > maxBytes
                                 then result\<lparr>rf_size := n, rf_status := TooLarge\<rparr>
                                 else result\<lparr>rf_size := n, rf_status := Ok, rf_path := candidate\<rparr>)))))"

section \<open>The loops as list functions\<close>

lemma splitList_loop_eq:
  "start \<le> length v \<Longrightarrow>
   splitList_loop v start items =
     items @ map lowerAscii (filter (\<lambda>g. g \<noteq> []) (map (trim_of list_blank) (segments CHR '','' (drop start v))))"
proof (induction "length v - start" arbitrary: start items rule: less_induct)
  case less
  from less.prems show ?case
  proof (cases rule: segment_round [of start v "CHR '',''"])
    case (more i)
    then have "Suc i \<le> length v" "length v - Suc i < length v - start" by simp_all
    note ih = less.hyps [OF this(2,1)]
    from more less.prems show ?thesis
      by (subst splitList_loop.simps) (simp add: ih Let_def del: splitList_loop.simps)
  next
    case final
    with less.prems show ?thesis
      by (subst splitList_loop.simps) (simp add: Let_def del: splitList_loop.simps)
  qed
qed

declare splitList_loop.simps [simp del]

lemma splitList_eq:
  "splitList v =
     map lowerAscii (filter (\<lambda>g. g \<noteq> []) (map (trim_of list_blank) (segments CHR '','' v)))"
  by (simp add: splitList_def splitList_loop_eq)

lemma splitList_not_Nil: "g \<in> set (splitList v) \<Longrightarrow> g \<noteq> []"
  by (auto simp: splitList_eq)

definition with_dot :: "string \<Rightarrow> string" where
  "with_dot item = (if hd item = CHR ''.'' then item else CHR ''.'' # item)"

lemma collect_types_eq:
  "collect_types items a ts =
     (a \<or> ''*'' \<in> set items, ts @ map with_dot (filter (\<lambda>i. i \<noteq> ''*'') items))"
  by (induction items arbitrary: a ts) (auto simp: with_dot_def)

definition component_ok :: "string \<Rightarrow> bool" where
  "component_ok c \<longleftrightarrow> c \<noteq> ''.'' \<and> c \<noteq> ''..'' \<and> length c \<le> 255"

lemma validate_loop_eq:
  "start \<le> length input \<Longrightarrow> length cs \<le> 12 \<Longrightarrow>
   validate_loop input start cs =
     (let new = filter (\<lambda>g. g \<noteq> []) (segments CHR ''/'' (drop start input))
      in if list_all component_ok new \<and> length cs + length new \<le> 12 then Some (cs @ new) else None)"
proof (induction "length input - start" arbitrary: start cs rule: less_induct)
  case less
  from less.prems(1) show ?case
  proof (cases rule: segment_round [of start input "CHR ''/''"])
    case (more i)
    then have "Suc i \<le> length input" "length input - Suc i < length input - start" by simp_all
    note ih = less.hyps [OF this(2,1)]
    from more less.prems show ?thesis
      by (subst validate_loop.simps)
        (auto simp: ih Let_def component_ok_def not_le simp del: validate_loop.simps)
  next
    case final
    with less.prems show ?thesis
      by (subst validate_loop.simps) (auto simp: Let_def component_ok_def simp del: validate_loop.simps)
  qed
qed

declare validate_loop.simps [simp del]

section \<open>Containment\<close>

lemma containedBy_iff: "containedBy r c \<longleftrightarrow> (\<exists>names. c = r @ names)"
  by (induction r c rule: containedBy.induct) (auto simp: componentEqual_def)

lemma componentsUnder_append: "componentsUnder r (r @ names) = map lowerAscii names"
  by (induction r) simp_all

text \<open>What must hold of the components below the root for a file to be in a served place.\<close>

definition served_place :: "PathResolver \<Rightarrow> string list \<Rightarrow> path \<Rightarrow> string \<Rightarrow> bool" where
  "served_place r names relative ext \<longleftrightarrow>
     (if length relative = 1 then length names = 1 \<and> allowedRootExtension r ext
      else 2 \<le> length names \<and> allowedDirectory r (lowerAscii (hd names)))"

lemma validate_not_Nil: "validate u = Some relative \<Longrightarrow> relative \<noteq> []"
  by (auto simp: validate_def split: option.splits if_splits)

lemma butlast_Nil_iff: "xs \<noteq> [] \<Longrightarrow> butlast xs = [] \<longleftrightarrow> length xs = 1"
  by (cases xs rule: rev_cases) auto

lemma resolve_Ok_iff:
  "rf_status (resolve r fs fsE fsS u m) = Ok \<longleftrightarrow>
     (\<exists>relative names entry n. validate u = Some relative \<and>
        canonical fs (pr_root r @ relative) = Inr (pr_root r @ names) \<and>
        lstat fsE (pr_root r @ names) = Inr entry \<and>
        entry_is_regular fsE (pr_root r @ names) entry \<and>
        served_place r names relative (lowerAscii (path_extension (pr_root r @ names))) \<and>
        allowedExtension r (lowerAscii (path_extension (pr_root r @ names))) \<and>
        file_size fsS (pr_root r @ names) = Inr n \<and> n \<le> m \<and>
        resolve r fs fsE fsS u m = \<lparr>rf_status = Ok, rf_path = pr_root r @ names, rf_size = n,
          rf_extension = lowerAscii (path_extension (pr_root r @ names))\<rparr>)"
  (is "?ok \<longleftrightarrow> ?spec")
proof
  assume ok: ?ok
  then obtain relative where v: "validate u = Some relative"
    by (auto simp: resolve_def result_of_def split: option.splits)
  with ok obtain names where c: "canonical fs (pr_root r @ relative) = Inr (pr_root r @ names)"
    by (auto simp: resolve_def result_of_def containedBy_iff split: sum.splits if_splits)
  with ok v obtain entry where e: "lstat fsE (pr_root r @ names) = Inr entry"
    "entry_is_regular fsE (pr_root r @ names) entry"
    by (auto simp: resolve_def result_of_def containedBy_iff split: sum.splits if_splits)
  note simps = resolve_def v c e containedBy_iff componentsUnder_append result_of_def Let_def
    butlast_Nil_iff [OF validate_not_Nil [OF v]]
  from ok obtain n where n: "file_size fsS (pr_root r @ names) = Inr n" "n \<le> m"
    by (auto simp: simps split: sum.splits if_splits)
  have hd: "\<not> length names < 2 \<Longrightarrow> hd (map lowerAscii names) = lowerAscii (hd names)"
    by (cases names) auto
  from ok have place: "served_place r names relative (lowerAscii (path_extension (pr_root r @ names)))"
    using hd by (auto simp: simps served_place_def split: if_splits)
  from ok n show ?spec using v c e place
    by (auto simp: simps split: if_splits)
next
  assume ?spec
  then show ?ok by auto
qed

section \<open>Properties\<close>

text \<open>C10. The request target check against its specification: a target is accepted exactly when it
  is a non-empty string of at most 2048 bytes that starts with a slash and has none of the
  forbidden bytes, and its pieces between slashes, empty ones dropped, are between one and
  twelve names of at most 255 bytes, none of them a dot name; the accepted relative path is
  the list of these names.\<close>

theorem validate_spec:
  "validate (Some u) = Some names \<longleftrightarrow>
     (\<exists>rest. u = CHR ''/'' # rest \<and> names = filter (\<lambda>g. g \<noteq> []) (segments CHR ''/'' rest)) \<and>
     length u \<le> 2048 \<and> \<not> list_ex forbidden_byte u \<and>
     1 \<le> length names \<and> length names \<le> 12 \<and> list_all component_ok names"
proof (cases u)
  case Nil
  then show ?thesis by (simp add: validate_def)
next
  case (Cons c rest)
  then have "validate_loop u 1 [] =
      (let new = filter (\<lambda>g. g \<noteq> []) (segments CHR ''/'' rest)
       in if list_all component_ok new \<and> length new \<le> 12 then Some new else None)"
    by (subst validate_loop_eq) (simp_all add: Let_def)
  with Cons show ?thesis
    by (auto simp: validate_def Let_def Suc_le_eq split: if_splits)
qed

text \<open>C1. Nothing outside the configured tree is ever served. When \<open>resolve\<close> says \<open>Ok\<close>, the path
  it returns is the configured root followed by at least one name, free of symbolic links and
  dot names at the time it was canonicalised, a regular file at the time its entry was read
  and within the size limit when its size was read; its lower case extension is allowed; and
  either target and file are directly below the root with an extension allowed there, or the
  first directory below the root is an allowed one. This holds for every target, and although
  other processes may change the tree between the queries.\<close>

theorem resolve_safe:
  assumes "resolve r fs fsEntry fsSize url maxBytes = f" and "rf_status f = Ok"
  shows "\<exists>relative names entry. validate url = Some relative \<and>
    rf_path f = pr_root r @ names \<and> names \<noteq> [] \<and>
    (\<exists>abs. rf_path f = ''/'' # abs \<and> resolved fs abs) \<and>
    lstat fsEntry (rf_path f) = Inr entry \<and> entry_is_regular fsEntry (rf_path f) entry \<and>
    file_size fsSize (rf_path f) = Inr (rf_size f) \<and> rf_size f \<le> maxBytes \<and>
    rf_extension f = lowerAscii (path_extension (rf_path f)) \<and> allowedExtension r (rf_extension f) \<and>
    (if length relative = 1 then length names = 1 \<and> allowedRootExtension r (rf_extension f)
     else 2 \<le> length names \<and> allowedDirectory r (lowerAscii (hd names)))"
proof -
  obtain relative names entry n where r: "validate url = Some relative"
    "canonical fs (pr_root r @ relative) = Inr (pr_root r @ names)"
    "lstat fsEntry (pr_root r @ names) = Inr entry"
    "entry_is_regular fsEntry (pr_root r @ names) entry"
    "served_place r names relative (lowerAscii (path_extension (pr_root r @ names)))"
    "allowedExtension r (lowerAscii (path_extension (pr_root r @ names)))"
    "file_size fsSize (pr_root r @ names) = Inr n" "n \<le> maxBytes"
    "f = \<lparr>rf_status = Ok, rf_path = pr_root r @ names, rf_size = n,
          rf_extension = lowerAscii (path_extension (pr_root r @ names))\<rparr>"
    using iffD1 [OF resolve_Ok_iff assms(2) [folded assms(1)]] unfolding assms(1) by blast
  have "\<exists>full. pr_root r @ names = ''/'' # full \<and> resolved fs full"
    using canonical_Inr [OF r(2)] by blast
  moreover have "names \<noteq> []" using r(5) by (auto simp: served_place_def split: if_splits)
  ultimately show ?thesis using r(1,3-8)
    by (simp only: r(9) ResolvedFile.simps served_place_def)
      (rule exI [of _ relative], rule exI [of _ names], rule exI [of _ entry], simp)
qed

definition url_of :: "string list \<Rightarrow> string" where
  "url_of names = concat (map (\<lambda>n. CHR ''/'' # n) names)"

lemma segments_url_of:
  assumes "list_all (\<lambda>n. CHR ''/'' \<notin> set n) (n # ns)"
  shows "segments CHR ''/'' (n @ url_of ns) = n # ns"
  using assms
proof (induction ns arbitrary: n)
  case Nil
  then show ?case by (simp add: url_of_def segments_plain)
next
  case (Cons m ns)
  then have "segments CHR ''/'' (n @ CHR ''/'' # (m @ url_of ns)) = n # m # ns"
    by (subst segments_append) simp_all
  then show ?case by (simp add: url_of_def)
qed

lemma validate_url_of:
  assumes "names \<noteq> []" "length names \<le> 12" "list_all component_ok names"
    and "list_all (\<lambda>n. n \<noteq> [] \<and> CHR ''/'' \<notin> set n \<and> \<not> list_ex forbidden_byte n) names"
    and "length (url_of names) \<le> 2048"
  shows "validate (Some (url_of names)) = Some names"
proof -
  obtain n ns where n: "names = n # ns" using assms(1) by (cases names) auto
  have "\<not> forbidden_byte CHR ''/''" by (simp add: forbidden_byte_def)
  moreover have "\<not> list_ex forbidden_byte (url_of names)"
    if "list_all (\<lambda>n. \<not> list_ex forbidden_byte n) names" for names
    using that \<open>\<not> forbidden_byte CHR ''/''\<close> by (induction names) (auto simp: url_of_def)
  moreover have "list_all (\<lambda>n. \<not> list_ex forbidden_byte n) names"
    "list_all (\<lambda>n. CHR ''/'' \<notin> set n) names"
    using assms(4) by (simp_all add: list_all_iff)
  moreover have "filter (\<lambda>g. g \<noteq> []) names = names"
    using assms(4) by (simp add: list_all_iff)
  moreover have "url_of names = CHR ''/'' # n @ url_of ns" by (simp add: n url_of_def)
  ultimately show ?thesis
    using assms n segments_url_of [of n ns] unfolding validate_spec
    by (auto simp: Suc_le_eq)
qed

text \<open>Where a file may lie: directly in the root with a root level extension, or anywhere below an
  allowed directory.\<close>

definition allowed_place :: "PathResolver \<Rightarrow> string list \<Rightarrow> bool" where
  "allowed_place r names \<longleftrightarrow>
     (if length names = 1 then allowedRootExtension r (lowerAscii (extension_of (last names)))
      else allowedDirectory r (lowerAscii (hd names)))"

lemma resolve_regular:
  assumes v: "validate (Some u) = Some names" and ne: "names \<noteq> []"
    and root: "pr_root r = ''/'' # base"
    and reg: "resolved fs (base @ names)" "tree_at fs (base @ names) = Some (Regular i)"
    and allowed: "allowed_place r names" "allowedExtension r (lowerAscii (extension_of (last names)))"
    and small: "inode_size fs i \<le> maxBytes"
  shows "resolve r fs fs fs (Some u) maxBytes =
    \<lparr>rf_status = Ok, rf_path = pr_root r @ names, rf_size = inode_size fs i,
     rf_extension = lowerAscii (extension_of (last names))\<rparr>"
proof -
  have p: "pr_root r @ names = ''/'' # (base @ names)" by (simp add: root)
  have c: "canonical fs (pr_root r @ names) = Inr (pr_root r @ names)"
    unfolding p by (rule canonical_resolved [OF reg(1)])
  have s: "stat fs (pr_root r @ names) = Inr (Regular i)"
    unfolding p using stat_resolved [OF reg(1)] reg(2) by simp
  then have l: "lstat fs (pr_root r @ names) = Inr (Regular i)"
    unfolding p using lstat_resolved [OF reg(1)] by simp
  have sz: "file_size fs (pr_root r @ names) = Inr (inode_size fs i)"
    by (simp add: file_size_def s)
  have x: "path_extension (pr_root r @ names) = extension_of (last names)"
    using ne by (simp add: path_extension_def root Suc_le_eq)
  have b: "butlast names = [] \<longleftrightarrow> length names = 1" using ne by (cases names rule: rev_cases) auto
  have len: "length names = 1 \<or> 2 \<le> length names" using ne by (cases names; cases "tl names") auto
  show ?thesis
    using allowed small len ne
    by (auto simp: resolve_def v c l sz x b containedBy_iff componentsUnder_append allowed_place_def
        entry_is_regular_def result_of_def hd_map Let_def not_less)
qed

text \<open>C11. Every file that should be served is reachable by its own name: in a tree at rest, a
  regular file directly in the root with an allowed root level extension, or below an allowed
  directory, with an allowed extension, within the size limit, and with components and length a
  target may have, is resolved by the target that spells its path below the root.\<close>

theorem servable_file_found:
  assumes names: "names \<noteq> []" "length names \<le> 12" "list_all component_ok names"
    "list_all (\<lambda>n. n \<noteq> [] \<and> CHR ''/'' \<notin> set n \<and> \<not> list_ex forbidden_byte n) names"
    "length (url_of names) \<le> 2048"
    and root: "pr_root r = ''/'' # base"
    and reg: "resolved fs (base @ names)" "tree_at fs (base @ names) = Some (Regular i)"
    and allowed: "if length names = 1 then allowedRootExtension r (lowerAscii (extension_of (last names)))
        else allowedDirectory r (lowerAscii (hd names))"
      "allowedExtension r (lowerAscii (extension_of (last names)))"
    and small: "inode_size fs i \<le> maxBytes"
  shows "resolve r fs fs fs (Some (url_of names)) maxBytes =
    \<lparr>rf_status = Ok, rf_path = pr_root r @ names, rf_size = inode_size fs i,
     rf_extension = lowerAscii (extension_of (last names))\<rparr>"
  using resolve_regular [OF validate_url_of [OF names] names(1) root reg _ allowed(2) small] allowed(1)
  unfolding allowed_place_def .

definition list_items :: "string \<Rightarrow> string list" where
  "list_items s = map lowerAscii (filter (\<lambda>g. g \<noteq> []) (map (trim_of list_blank) (segments CHR '','' s)))"

text \<open>C12. What a configuration allows: after a successful \<open>configure\<close> an extension (with its dot) is
  allowed exactly when the type list has a \<^verbatim>\<open>*\<close> or names it, written with or without the dot
  and in any case, blanks around it ignored; likewise for root level extensions and, without
  the dot, for directories. Empty lists allow nothing. The root is a canonical directory.\<close>

theorem configure_allows:
  assumes "configure fs cwd root dirs types rootTypes error r0 = (True, error', r)"
  shows "(\<exists>base. pr_root r = ''/'' # base \<and> resolved fs base) \<and> is_directory fs (pr_root r) \<and>
    (allowedDirectory r d \<longleftrightarrow> ''*'' \<in> set (list_items dirs) \<or> d \<in> set (list_items dirs)) \<and>
    (allowedExtension r x \<longleftrightarrow> ''*'' \<in> set (list_items types) \<or>
       x \<in> with_dot ` (set (list_items types) - {''*''})) \<and>
    (allowedRootExtension r x \<longleftrightarrow> ''*'' \<in> set (list_items rootTypes) \<or>
       x \<in> with_dot ` (set (list_items rootTypes) - {''*''}))"
proof -
  obtain full canon where c: "absolute cwd root = Inr full" "canonical fs full = Inr canon"
    "is_directory fs canon"
    using assms by (auto simp: configure_def split: sum.splits if_splits)
  have items: "splitList s = list_items s" for s by (simp add: list_items_def splitList_eq)
  from assms c have r: "pr_root r = canon" "pr_dirs r = list_items dirs"
    "pr_allDirs r = (''*'' \<in> set (list_items dirs))"
    "pr_allTypes r = (''*'' \<in> set (list_items types))"
    "pr_types r = map with_dot (filter (\<lambda>i. i \<noteq> ''*'') (list_items types))"
    "pr_allRootTypes r = (''*'' \<in> set (list_items rootTypes))"
    "pr_rootTypes r = map with_dot (filter (\<lambda>i. i \<noteq> ''*'') (list_items rootTypes))"
    by (auto simp: configure_def collect_types_eq items Let_def)
  from canonical_Inr [OF c(2)] c(3) show ?thesis
    by (auto simp: r allowedDirectory_def allowedExtension_def allowedRootExtension_def)
qed

definition scan_target :: "PathResolver \<Rightarrow> file_system \<Rightarrow> string \<Rightarrow> path \<Rightarrow> bool" where
  "scan_target r fs name p \<longleftrightarrow> canonical fs (pr_root r @ [name]) = Inr p \<and> is_directory fs p \<and>
     (\<exists>d. p = pr_root r @ [d] \<and> allowedDirectory r (lowerAscii d))"

lemma scan_entry_set:
  "set (scan_entry r fs ds name) = set ds \<union> {p. scan_target r fs name p}"
  by (auto simp: scan_entry_def scan_target_def containedBy_iff componentsUnder_append Let_def
      length_Suc_conv split: sum.splits)

lemma scan_entry_distinct: "distinct ds \<Longrightarrow> distinct (scan_entry r fs ds name)"
  by (auto simp: scan_entry_def Let_def split: sum.splits)

lemma scan_fold_set:
  "set (foldl (scan_entry r fs) ds names) = set ds \<union> {p. \<exists>n \<in> set names. scan_target r fs n p}"
  by (induction names arbitrary: ds) (auto simp: scan_entry_set)

lemma scan_fold_distinct: "distinct ds \<Longrightarrow> distinct (foldl (scan_entry r fs) ds names)"
  by (induction names arbitrary: ds) (auto simp: scan_entry_distinct)

text \<open>The directory scan returns each served directory once: without repetition exactly the
  canonical directories one level below the root that some entry of the root leads to and
  whose lower case name is allowed.\<close>

theorem scan_exact:
  assumes "stat fs (pr_root r) = Inr (Directory i entries True)"
  shows "distinct (scanDirectories r fs) \<and>
    (p \<in> set (scanDirectories r fs) \<longleftrightarrow>
       (\<exists>name \<in> set entries. canonical fs (pr_root r @ [name]) = Inr p \<and> is_directory fs p \<and>
          (\<exists>d. p = pr_root r @ [d] \<and> allowedDirectory r (lowerAscii d))))"
  using scan_fold_set [of r fs "[]" entries] scan_fold_distinct [of "[]" r fs entries] assms
  by (simp add: scanDirectories_def scan_target_def)

section \<open>Witnesses\<close>

definition sample_resolver :: PathResolver where
  "sample_resolver = \<lparr>pr_root = [''/'', ''srv''], pr_dirs = [''maps''], pr_types = [''.bsp'', ''.wad''],
     pr_rootTypes = [''.wad''], pr_allDirs = False, pr_allTypes = False, pr_allRootTypes = False\<rparr>"

theorem resolve_safe_witness:
  "\<exists>f. resolve sample_resolver sample_fs sample_fs sample_fs (Some ''/maps//a.bsp'') 10 = f \<and>
     rf_path f = [''/'', ''srv'', ''maps'', ''a.bsp''] \<and> rf_size f \<le> 10"
proof -
  let ?f = "resolve sample_resolver sample_fs sample_fs sample_fs (Some ''/maps//a.bsp'') 10"
  have "rf_status ?f = Ok" "rf_path ?f = [''/'', ''srv'', ''maps'', ''a.bsp'']" by code_simp+
  with resolve_safe [OF refl, of sample_resolver sample_fs sample_fs sample_fs "Some ''/maps//a.bsp''" 10]
  show ?thesis by auto
qed

theorem servable_file_found_witness:
  "rf_status (resolve sample_resolver sample_fs sample_fs sample_fs (Some (url_of [''maps'', ''a.bsp''])) 10) = Ok \<and>
   rf_path (resolve sample_resolver sample_fs sample_fs sample_fs (Some (url_of [''x.wad''])) 10) = [''/'', ''srv'', ''x.wad'']"
proof -
  have ok: "list_all component_ok [''maps'', ''a.bsp'']" "list_all component_ok [''x.wad'']"
    "list_all (\<lambda>n. n \<noteq> [] \<and> CHR ''/'' \<notin> set n \<and> \<not> list_ex forbidden_byte n) [''maps'', ''a.bsp'']"
    "list_all (\<lambda>n. n \<noteq> [] \<and> CHR ''/'' \<notin> set n \<and> \<not> list_ex forbidden_byte n) [''x.wad'']"
    "resolved sample_fs ([''srv''] @ [''maps'', ''a.bsp''])" "resolved sample_fs ([''srv''] @ [''x.wad''])"
    "allowedDirectory sample_resolver (lowerAscii ''maps'')" "allowedRootExtension sample_resolver (lowerAscii (extension_of ''x.wad''))"
    "allowedExtension sample_resolver (lowerAscii (extension_of ''a.bsp''))"
    "allowedExtension sample_resolver (lowerAscii (extension_of ''x.wad''))"
    "inode_size sample_fs (1, 5) \<le> 10" "inode_size sample_fs (1, 6) \<le> 10" by code_simp+
  have root: "pr_root sample_resolver = ''/'' # [''srv'']" by (simp add: sample_resolver_def)
  have tree: "tree_at sample_fs ([''srv''] @ [''maps'', ''a.bsp'']) = Some (Regular (1, 5))"
    "tree_at sample_fs ([''srv''] @ [''x.wad'']) = Some (Regular (1, 6))"
    by (simp_all add: tree_at_def sample_fs_def)
  note found = servable_file_found [OF _ _ _ _ _ root]
  show ?thesis
    using found [OF _ _ ok(1,3) _ ok(5) tree(1) _ _ ok(11)] found [OF _ _ ok(2,4) _ ok(6) tree(2) _ _ ok(12)] ok(7-10) root
    by (simp add: url_of_def)
qed

theorem configure_allows_witness:
  "allowedExtension (snd (snd (configure sample_fs [''/''] [''srv''] ''maps'' ''BSP, .nav'' [] [] pr_init))) ''.bsp''"
proof -
  let ?c = "configure sample_fs [''/''] [''srv''] ''maps'' ''BSP, .nav'' [] [] pr_init"
  have "fst ?c" by code_simp
  then obtain e r where c: "?c = (True, e, r)" by (metis (full_types) prod.collapse)
  have "''.bsp'' \<in> with_dot ` (set (list_items ''BSP, .nav'') - {''*''})" by code_simp
  with configure_allows [OF c] c show ?thesis by simp
qed

theorem scan_exact_witness:
  "[''/'', ''srv'', ''maps''] \<in> set (scanDirectories sample_resolver sample_fs)"
proof -
  have s: "stat sample_fs (pr_root sample_resolver) =
      Inr (Directory (1, 3) [''maps'', ''link'', ''x.wad''] True)" by code_simp
  have "canonical sample_fs (pr_root sample_resolver @ [''maps'']) = Inr [''/'', ''srv'', ''maps'']"
    "is_directory sample_fs [''/'', ''srv'', ''maps'']" by code_simp+
  moreover have "allowedDirectory sample_resolver (lowerAscii ''maps'')" by code_simp
  moreover have "[''/'', ''srv'', ''maps''] = pr_root sample_resolver @ [''maps'']"
    by (simp add: sample_resolver_def)
  ultimately show ?thesis
    using scan_exact [OF s, of "[''/'', ''srv'', ''maps'']"]
    by (metis list.set_intros(1))
qed

end
