(* ===== verification/Http_Fields.thy ===== *)
theory Http_Fields
  imports Secure_File Complex_Main
begin

text \<open>
  The request and response field helpers of \<^verbatim>\<open>src/src/fastdl_server.cpp\<close>: bounded copies,
  log sanitising, byte ranges, HTTP dates, entity tags, the \<^verbatim>\<open>Accept-Encoding\<close>,
  \<^verbatim>\<open>If-None-Match\<close> and \<^verbatim>\<open>If-Range\<close> tests, the client and content type tables.

  The standard library's part of the dates is defined here: the calendar functions \<open>gmtime_r\<close> and
  \<open>timegm\<close>, and \<open>std::put_time\<close> and \<open>std::get_time\<close> as interpreters of a format string, for the
  conversions the program uses, the classic locale and libstdc++'s fixed widths of numbers.
  \<open>time_t\<close> has 32 bits in this build.
\<close>

section \<open>Strings\<close>

definition hex_digits :: string where "hex_digits = ''0123456789abcdef''"

fun sanitize_loop :: "nat \<Rightarrow> string \<Rightarrow> string \<Rightarrow> string" where
  "sanitize_loop limit out [] = out"
| "sanitize_loop limit out (c # cs) =
     (if byte c < 0x20 \<or> byte c = 0x7f then
        (if length out > limit \<or> limit - length out < 4 then out
         else sanitize_loop limit
           (out @ [CHR 0x5C, CHR ''x'', hex_digits ! (byte c div 16), hex_digits ! (byte c mod 16)]) cs)
      else if length out \<ge> limit then out
      else sanitize_loop limit (out @ [c]) cs)"

definition sanitize :: "string \<Rightarrow> nat \<Rightarrow> string" where
  "sanitize value limit = sanitize_loop limit [] value"

text \<open>A C string argument is \<open>None\<close> for a null pointer, else its bytes before the terminator. The
  loop advances while \<open>length <= limit\<close> and the byte is not the terminator.\<close>

fun bounded_length :: "nat \<Rightarrow> string \<Rightarrow> nat \<Rightarrow> nat" where
  "bounded_length limit [] n = n"
| "bounded_length limit (c # cs) n = (if n \<le> limit then bounded_length limit cs (n + 1) else n)"

definition boundedCopy :: "string option \<Rightarrow> nat \<Rightarrow> bool \<times> string" where
  "boundedCopy value limit =
     (case value of
        None \<Rightarrow> (True, [])
      | Some s \<Rightarrow> (let n = bounded_length limit s 0
                    in if n > limit then (False, []) else (True, take n s)))"

definition ascii_blank :: "char \<Rightarrow> bool" where
  "ascii_blank c \<longleftrightarrow> c = CHR '' '' \<or> c = CHR 0x09"

definition trimAscii :: "string \<Rightarrow> string" where
  "trimAscii value = trim_of ascii_blank value"

section \<open>Numbers and ranges\<close>

definition is_digit :: "char \<Rightarrow> bool" where
  "is_digit c \<longleftrightarrow> 48 \<le> byte c \<and> byte c \<le> 57"

definition digit_value :: "char \<Rightarrow> nat" where "digit_value c = byte c - 48"

fun parseUnsigned_loop :: "string \<Rightarrow> u64 \<Rightarrow> u64 option" where
  "parseUnsigned_loop [] parsed = Some parsed"
| "parseUnsigned_loop (c # cs) parsed =
     (if \<not> is_digit c then None
      else (let digit = of_nat (digit_value c)
            in if parsed > (UINT64_MAX - digit) div 10 then None
               else parseUnsigned_loop cs (parsed * 10 + digit)))"

definition parseUnsigned :: "string \<Rightarrow> u64 option" where
  "parseUnsigned value = (if value = [] then None else parseUnsigned_loop value 0)"

datatype RangeStatus = RangeNone | RangeValid | RangeInvalid | RangeUnsatisfiable

record ByteRange =
  br_status :: RangeStatus
  br_start :: u64
  br_length :: u64

definition no_range :: ByteRange where
  "no_range = \<lparr>br_status = RangeNone, br_start = 0, br_length = 0\<rparr>"

definition is_bytes_unit :: "string \<Rightarrow> bool" where
  "is_bytes_unit value \<longleftrightarrow> \<not> (length value < 6 \<or>
     (value ! 0 \<noteq> CHR ''b'' \<and> value ! 0 \<noteq> CHR ''B'') \<or>
     (value ! 1 \<noteq> CHR ''y'' \<and> value ! 1 \<noteq> CHR ''Y'') \<or>
     (value ! 2 \<noteq> CHR ''t'' \<and> value ! 2 \<noteq> CHR ''T'') \<or>
     (value ! 3 \<noteq> CHR ''e'' \<and> value ! 3 \<noteq> CHR ''E'') \<or>
     (value ! 4 \<noteq> CHR ''s'' \<and> value ! 4 \<noteq> CHR ''S'') \<or> value ! 5 \<noteq> CHR ''='')"

text \<open>What the two texts around the dash select; the second half of \<open>parseRange\<close>.\<close>

definition select_range :: "string \<Rightarrow> string \<Rightarrow> u64 \<Rightarrow> ByteRange" where
  "select_range first second whole =
     (let invalid = no_range\<lparr>br_status := RangeInvalid\<rparr>;
          unsatisfiable = no_range\<lparr>br_status := RangeUnsatisfiable\<rparr>
      in if whole = 0 then unsatisfiable
         else if first = [] then
           (case parseUnsigned second of
              None \<Rightarrow> invalid
            | Some suffix \<Rightarrow>
                if suffix = 0 then invalid
                else (let n = min suffix whole
                      in \<lparr>br_status = RangeValid, br_start = whole - n, br_length = n\<rparr>))
         else
           (case parseUnsigned first of
              None \<Rightarrow> invalid
            | Some start \<Rightarrow>
                if start \<ge> whole then unsatisfiable
                else (case (if second = [] then Some (whole - 1) else parseUnsigned second) of
                    None \<Rightarrow> unsatisfiable
                  | Some e \<Rightarrow>
                      if second \<noteq> [] \<and> e < start then unsatisfiable
                      else (let e = min e (whole - 1)
                            in \<lparr>br_status = RangeValid, br_start = start, br_length = e - start + 1\<rparr>))))"

definition parseRange :: "string \<Rightarrow> u64 \<Rightarrow> ByteRange" where
  "parseRange raw whole =
     (let value = trimAscii raw; invalid = no_range\<lparr>br_status := RangeInvalid\<rparr>
      in if value = [] then no_range
         else if \<not> is_bytes_unit value then invalid
         else (let spec = drop 6 value
           in if spec = [] \<or> find_from CHR '','' spec 0 \<noteq> None then invalid
              else (case find_from CHR ''-'' spec 0 of
                  None \<Rightarrow> invalid
                | Some dash \<Rightarrow>
                    if find_from CHR ''-'' spec (dash + 1) \<noteq> None then invalid
                    else select_range (substr spec 0 dash) (drop (dash + 1) spec) whole)))"

section \<open>Dates\<close>

record tm =
  tm_sec :: int
  tm_min :: int
  tm_hour :: int
  tm_mday :: int
  tm_mon :: int
  tm_year :: int
  tm_wday :: int

text \<open>\<open>tm_year\<close> counts from 1900, \<open>tm_mon\<close> from 0.\<close>

definition leap_year :: "int \<Rightarrow> bool" where
  "leap_year y \<longleftrightarrow> y mod 4 = 0 \<and> (y mod 100 \<noteq> 0 \<or> y mod 400 = 0)"

definition year_length :: "int \<Rightarrow> int" where
  "year_length y = (if leap_year y then 366 else 365)"

definition month_lengths :: "int \<Rightarrow> int list" where
  "month_lengths y = [31, if leap_year y then 29 else 28, 31, 30, 31, 30, 31, 31, 30, 31, 30, 31]"

function year_search :: "int \<Rightarrow> int \<Rightarrow> int \<times> int" where
  "year_search y days =
     (if days < 0 then year_search (y - 1) (days + year_length (y - 1))
      else if days \<ge> year_length y then year_search (y + 1) (days - year_length y)
      else (y, days))"
  by pat_completeness auto
termination
  by (relation "measure (\<lambda>(y, d). if d < 0 then nat (1 - d) else if d \<ge> year_length y then nat d else 0)")
    (auto simp: year_length_def split: if_splits)

fun month_search :: "int list \<Rightarrow> int \<Rightarrow> int \<Rightarrow> int \<times> int" where
  "month_search [] m days = (m, days)"
| "month_search (l # ls) m days = (if days < l then (m, days) else month_search ls (m + 1) (days - l))"

definition gmtime :: "int \<Rightarrow> tm" where
  "gmtime t =
     (let days = t div 86400; rest = t mod 86400;
          (y, yday) = year_search 1970 days;
          (m, mday) = month_search (month_lengths y) 0 yday
      in \<lparr>tm_sec = rest mod 60, tm_min = rest div 60 mod 60, tm_hour = rest div 3600,
          tm_mday = mday + 1, tm_mon = m, tm_year = y - 1900, tm_wday = (days + 4) mod 7\<rparr>)"

definition days_before_year :: "int \<Rightarrow> int" where
  "days_before_year y = 365 * (y - 1970) + ((y - 1) div 4 - 492) - ((y - 1) div 100 - 19) + ((y - 1) div 400 - 4)"

definition timegm_exact :: "tm \<Rightarrow> int" where
  "timegm_exact u =
     (let y = tm_year u + 1900;
          days = days_before_year y + sum_list (take (nat (tm_mon u)) (month_lengths y)) + tm_mday u - 1
      in days * 86400 + tm_hour u * 3600 + tm_min u * 60 + tm_sec u)"

text \<open>A result that does not fit the 32 bit \<open>time_t\<close> is reported as -1.\<close>

definition timegm :: "tm \<Rightarrow> int" where
  "timegm u = (let t = timegm_exact u in if - 2147483648 \<le> t \<and> t < 2147483648 then t else - 1)"

definition to_time_t :: "int \<Rightarrow> int" where
  "to_time_t s = (s + 2147483648) mod 4294967296 - 2147483648"

definition dec_value :: "nat \<Rightarrow> string \<Rightarrow> nat" where
  "dec_value n s = foldl (\<lambda>a c. a * 10 + digit_value c) n s"

definition two_digits :: "int \<Rightarrow> string" where
  "two_digits n = (if n < 10 then CHR ''0'' # to_string (nat n) else to_string (nat n))"

definition day_names :: "string list" where
  "day_names = [''Sun'', ''Mon'', ''Tue'', ''Wed'', ''Thu'', ''Fri'', ''Sat'']"

definition month_names :: "string list" where
  "month_names = [''Jan'', ''Feb'', ''Mar'', ''Apr'', ''May'', ''Jun'', ''Jul'', ''Aug'', ''Sep'', ''Oct'', ''Nov'', ''Dec'']"

definition full_day_names :: "string list" where
  "full_day_names = [''Sunday'', ''Monday'', ''Tuesday'', ''Wednesday'', ''Thursday'', ''Friday'', ''Saturday'']"

definition full_month_names :: "string list" where
  "full_month_names = [''January'', ''February'', ''March'', ''April'', ''May'', ''June'', ''July'', ''August'',
     ''September'', ''October'', ''November'', ''December'']"

text \<open>\<open>std::put_time\<close> with the classic locale, for the conversions the program uses and years
  from 0: a format is printed byte by byte, a percent sign and the next byte as a field.\<close>

definition put_field :: "char \<Rightarrow> tm \<Rightarrow> string" where
  "put_field conversion u =
     (if conversion = CHR ''a'' then day_names ! nat (tm_wday u)
      else if conversion = CHR ''b'' then month_names ! nat (tm_mon u)
      else if conversion = CHR ''d'' then two_digits (tm_mday u)
      else if conversion = CHR ''H'' then two_digits (tm_hour u)
      else if conversion = CHR ''M'' then two_digits (tm_min u)
      else if conversion = CHR ''S'' then two_digits (tm_sec u)
      else if conversion = CHR ''Y'' then to_string (nat (tm_year u + 1900))
      else [])"

fun put_time :: "string \<Rightarrow> tm \<Rightarrow> string" where
  "put_time [] u = []"
| "put_time (c # format) u =
     (if c = CHR 0x25 then
        (case format of [] \<Rightarrow> [] | conversion # format' \<Rightarrow> put_field conversion u @ put_time format' u)
      else c # put_time format u)"

text \<open>\<open>std::get_time\<close> with the classic locale, for the same conversions: numbers have the full
  width of their field and lie in its range (a two digit year is read a century down, which the
  check for times before 1970 turns away), names are abbreviated or in full and in any case.
  White space in the format skips white space; other bytes match without regard to case. The
  loop fails when it meets the end of the input with format left, but a conversion that uses up
  the input sets \<open>eofbit\<close>, which ends the loop without \<open>failbit\<close>; what follows the format is
  not looked at.\<close>

definition get_number :: "nat \<Rightarrow> int \<Rightarrow> int \<Rightarrow> string \<Rightarrow> (int \<times> string) option" where
  "get_number width low high s =
     (let ds = takeWhile is_digit (take width s); v = int (dec_value 0 ds)
      in if length ds = width then (if low \<le> v \<and> v \<le> high then Some (v, drop width s) else None)
         else if width = 4 \<and> length ds = 2 then Some (v - 100, drop 2 s)
         else None)"

fun get_name :: "(string \<times> string) list \<Rightarrow> int \<Rightarrow> string \<Rightarrow> (int \<times> string) option" where
  "get_name [] i s = None"
| "get_name ((full, short) # names) i s =
     (if lowerAscii (take (length full) s) = lowerAscii full then Some (i, drop (length full) s)
      else if lowerAscii (take (length short) s) = lowerAscii short then Some (i, drop (length short) s)
      else get_name names (i + 1) s)"

definition get_field :: "char \<Rightarrow> string \<Rightarrow> tm \<Rightarrow> (string \<times> tm) option" where
  "get_field conversion s u =
     (if conversion = CHR ''a'' then
        map_option (\<lambda>(v, r). (r, u\<lparr>tm_wday := v\<rparr>)) (get_name (zip full_day_names day_names) 0 s)
      else if conversion = CHR ''b'' then
        map_option (\<lambda>(v, r). (r, u\<lparr>tm_mon := v\<rparr>)) (get_name (zip full_month_names month_names) 0 s)
      else if conversion = CHR ''d'' then
        map_option (\<lambda>(v, r). (r, u\<lparr>tm_mday := v\<rparr>)) (get_number 2 1 31 s)
      else if conversion = CHR ''H'' then
        map_option (\<lambda>(v, r). (r, u\<lparr>tm_hour := v\<rparr>)) (get_number 2 0 23 s)
      else if conversion = CHR ''M'' then
        map_option (\<lambda>(v, r). (r, u\<lparr>tm_min := v\<rparr>)) (get_number 2 0 59 s)
      else if conversion = CHR ''S'' then
        map_option (\<lambda>(v, r). (r, u\<lparr>tm_sec := v\<rparr>)) (get_number 2 0 60 s)
      else if conversion = CHR ''Y'' then
        map_option (\<lambda>(v, r). (r, u\<lparr>tm_year := v - 1900\<rparr>)) (get_number 4 0 9999 s)
      else None)"

function get_time :: "string \<Rightarrow> string \<Rightarrow> tm \<Rightarrow> tm option" where
  "get_time [] s u = Some u"
| "get_time (c # format) s u =
     (if s = [] then None
      else if c = CHR 0x25 then
        (case format of
           [] \<Rightarrow> None
         | conversion # format' \<Rightarrow>
             (case get_field conversion s u of
                None \<Rightarrow> None
              | Some (s', u') \<Rightarrow> if s' = [] then Some u' else get_time format' s' u'))
      else if is_space c then get_time (dropWhile is_space format) (dropWhile is_space s) u
      else if tolower (hd s) = tolower c then get_time format (tl s) u
      else None)"
  by pat_completeness auto
termination
  by (relation "measure (\<lambda>(format, s, u). length format)") (auto simp: le_imp_less_Suc length_dropWhile_le)

definition httpDate :: "int \<Rightarrow> string" where
  "httpDate seconds = put_time ''%a, %d %b %Y %H:%M:%S GMT'' (gmtime (to_time_t seconds))"

text \<open>\<open>operator>>\<close> skips white space first; \<open>utc\<close> starts as all zeros.\<close>

definition parseHttpDate :: "string \<Rightarrow> int option" where
  "parseHttpDate value =
     (case get_time ''%a, %d %b %Y %H:%M:%S GMT'' (dropWhile is_space value)
        \<lparr>tm_sec = 0, tm_min = 0, tm_hour = 0, tm_mday = 0, tm_mon = 0, tm_year = 0, tm_wday = 0\<rparr> of
        None \<Rightarrow> None
      | Some utc \<Rightarrow> (let converted = timegm utc in if converted < 0 then None else Some converted))"

section \<open>Entity tags\<close>

definition makeEtag :: "OpenedFileInfo \<Rightarrow> bool \<Rightarrow> string" where
  "makeEtag f gzip =
     CHR 0x22 # to_hex (unat (fi_size f)) @ ''-'' @ to_hex (unat (modifiedIdentity f)) @ ''-'' @
     to_hex (unat (fileIdentity f)) @ (if gzip then ''-gz'' else []) @ [CHR 0x22]"

fun etag_items :: "string list \<Rightarrow> string \<Rightarrow> bool" where
  "etag_items [] etag = False"
| "etag_items (item # items) etag =
     (let candidate = trimAscii item
      in if candidate = ''*'' then True
         else (let candidate = (if starts_with ''W/'' candidate \<or> starts_with ''w/'' candidate
                                then trimAscii (drop 2 candidate) else candidate)
               in if candidate = etag then True else etag_items items etag))"

definition etagMatches :: "string \<Rightarrow> string \<Rightarrow> bool" where
  "etagMatches raw etag = etag_items (segments_from CHR '','' raw 0) etag"

definition ifRangeMatches :: "string \<Rightarrow> string \<Rightarrow> int \<Rightarrow> bool" where
  "ifRangeMatches raw etag modified =
     (let value = trimAscii raw
      in if value = [] then True
         else if value = etag then True
         else (case parseHttpDate value of None \<Rightarrow> False | Some date \<Rightarrow> modified \<le> date))"

section \<open>Accepted encodings\<close>

text \<open>\<open>strtod\<close> in the C locale: the value (\<open>None\<close> when it is infinite or not a number) and the
  unread rest, or no conversion. The value is exact; \<open>to_double\<close> rounds it as far as a
  comparison with 0 and 1 can tell.\<close>

definition read_sign :: "string \<Rightarrow> rat \<times> string" where
  "read_sign s = (case s of
       [] \<Rightarrow> (1, [])
     | c # r \<Rightarrow> if c = CHR ''-'' then (- 1, r) else if c = CHR ''+'' then (1, r) else (1, s))"

definition scale :: "rat \<Rightarrow> int \<Rightarrow> rat" where
  "scale b e = (if e \<ge> 0 then b ^ nat e else 1 / b ^ nat (- e))"

definition read_exponent :: "char \<Rightarrow> string \<Rightarrow> int \<times> string" where
  "read_exponent mark s = (case s of
       [] \<Rightarrow> (0, [])
     | c # r \<Rightarrow>
         if tolower c = mark then
           (let (sgn, r') = read_sign r; ds = takeWhile is_digit r'
            in if ds = [] then (0, s)
               else ((if sgn < 0 then - int (dec_value 0 ds) else int (dec_value 0 ds)),
                     dropWhile is_digit r'))
         else (0, s))"

definition hex_value :: "char \<Rightarrow> nat" where
  "hex_value c = (if is_digit c then digit_value c else byte (tolower c) - 87)"

definition is_hex :: "char \<Rightarrow> bool" where
  "is_hex c \<longleftrightarrow> is_digit c \<or> 97 \<le> byte (tolower c) \<and> byte (tolower c) \<le> 102"

text \<open>Digits with an optional point, in base 10 or 16.\<close>

definition read_mantissa ::
  "(char \<Rightarrow> bool) \<Rightarrow> (char \<Rightarrow> nat) \<Rightarrow> nat \<Rightarrow> string \<Rightarrow> (rat \<times> string) option" where
  "read_mantissa digit val base s =
     (let whole_part = takeWhile digit s;
          r1 = dropWhile digit s;
          point = (r1 \<noteq> [] \<and> hd r1 = CHR ''.'');
          fraction = (if point then takeWhile digit (tl r1) else []);
          r2 = (if point then dropWhile digit (tl r1) else r1)
      in if whole_part = [] \<and> fraction = [] then None
         else Some (of_nat (foldl (\<lambda>a c. a * base + val c) 0 (whole_part @ fraction)) /
                      of_nat base ^ length fraction, r2))"

definition strtod :: "string \<Rightarrow> (rat option \<times> string) option" where
  "strtod text =
     (let (sgn, s) = read_sign (dropWhile is_space text); low = map tolower s
      in if starts_with ''infinity'' low then Some (None, drop 8 s)
         else if starts_with ''inf'' low \<or> starts_with ''nan'' low then Some (None, drop 3 s)
         else (case (if starts_with ''0x'' low then read_mantissa is_hex hex_value 16 (drop 2 s) else None) of
             Some (m, r) \<Rightarrow> (case read_exponent CHR ''p'' r of (e, r') \<Rightarrow> Some (Some (sgn * m * scale 2 e), r'))
           | None \<Rightarrow>
               (case read_mantissa is_digit digit_value 10 s of
                  None \<Rightarrow> None
                | Some (m, r) \<Rightarrow>
                    (case read_exponent CHR ''e'' r of (e, r') \<Rightarrow> Some (Some (sgn * m * scale 10 e), r')))))"

definition to_double :: "rat \<Rightarrow> rat" where
  "to_double r =
     (if \<bar>r\<bar> \<le> 1 / 2 ^ 1075 then 0 else if 1 \<le> r \<and> r \<le> 1 + 1 / 2 ^ 53 then 1 else r)"

definition valid_quality :: "string \<Rightarrow> bool" where
  "valid_quality text =
     (case strtod text of
        Some (Some q, rest) \<Rightarrow> rest = [] \<and> to_double q > 0 \<and> to_double q \<le> 1
      | _ \<Rightarrow> False)"

definition check_parameter :: "bool \<Rightarrow> string \<Rightarrow> bool" where
  "check_parameter allowed raw =
     (let parameter = lowerAscii (trimAscii raw)
      in if starts_with ''q='' parameter then allowed \<and> valid_quality (drop 2 parameter) else allowed)"

text \<open>One element of the header: its coding and whether its quality allows it.\<close>

definition read_coding :: "string \<Rightarrow> string \<times> bool" where
  "read_coding raw =
     (let item = trimAscii raw
      in (case find_from CHR '';'' item 0 of
            None \<Rightarrow> (lowerAscii (trimAscii item), True)
          | Some semicolon \<Rightarrow>
              (lowerAscii (trimAscii (substr item 0 semicolon)),
               foldl check_parameter True (segments_from CHR '';'' item (semicolon + 1)))))"

fun accept_items :: "string list \<Rightarrow> bool \<Rightarrow> bool \<Rightarrow> bool" where
  "accept_items [] wildcard wildcardAllowed = (wildcard \<and> wildcardAllowed)"
| "accept_items (raw # items) wildcard wildcardAllowed =
     (case read_coding raw of (coding, allowed) \<Rightarrow>
        if coding = ''gzip'' then allowed
        else if coding = ''*'' then accept_items items True allowed
        else accept_items items wildcard wildcardAllowed)"

definition acceptsGzip :: "string \<Rightarrow> bool" where
  "acceptsGzip raw = accept_items (segments_from CHR '','' raw 0) False False"

section \<open>Tables\<close>

definition steamClient :: "string \<Rightarrow> bool" where
  "steamClient userAgent =
     (if starts_with ''Valve/Steam HTTP Client'' userAgent then True
      else if starts_with ''Steam/'' userAgent then True
      else contains ''Steam'' userAgent \<and> contains ''HTTP'' userAgent \<and> contains ''Client'' userAgent)"

definition contentType :: "string \<Rightarrow> string" where
  "contentType ext =
     (if ext = ''.html'' \<or> ext = ''.htm'' then ''text/html''
      else if ext = ''.txt'' \<or> ext = ''.res'' then ''text/plain''
      else if ext = ''.wav'' then ''audio/wav''
      else if ext = ''.mp3'' then ''audio/mpeg''
      else if ext = ''.bmp'' then ''image/bmp''
      else if ext = ''.tga'' then ''image/x-tga''
      else if ext = ''.bz2'' then ''application/x-bzip2''
      else if ext = ''.gz'' then ''application/gzip''
      else ''application/octet-stream'')"

datatype TerminationCode =
    COMPLETED_OK | WITH_ERROR | TIMEOUT_REACHED | DAEMON_SHUTDOWN | READ_ERROR | CLIENT_ABORT

fun terminationName :: "TerminationCode \<Rightarrow> string" where
  "terminationName COMPLETED_OK = ''ok''"
| "terminationName WITH_ERROR = ''error''"
| "terminationName TIMEOUT_REACHED = ''timeout''"
| "terminationName DAEMON_SHUTDOWN = ''shutdown''"
| "terminationName READ_ERROR = ''read error''"
| "terminationName CLIENT_ABORT = ''client abort''"

text \<open>\<^verbatim>\<open>std::fixed << std::setprecision(1) << bytes / 1024.0\<close>: the conversion to \<open>double\<close> keeps 53
  significant bits, the printed tenth is rounded to nearest, ties to even.\<close>

definition round_half_even :: "nat \<Rightarrow> nat \<Rightarrow> nat" where
  "round_half_even n d =
     (let q = n div d; r = n mod d
      in if 2 * r < d then q else if 2 * r > d then q + 1 else if even q then q else q + 1)"

fun double_of_nat :: "nat \<Rightarrow> nat \<Rightarrow> nat" where
  "double_of_nat n 0 = n"
| "double_of_nat n (Suc k) =
     (if n \<ge> 2 ^ (53 + k) then round_half_even n (2 ^ Suc k) * 2 ^ Suc k else double_of_nat n k)"

definition kilobytes :: "u64 \<Rightarrow> string" where
  "kilobytes bs =
     (let tenths = round_half_even (double_of_nat (unat bs) 11 * 10) 1024
      in to_string (tenths div 10) @ ''.'' @ to_string (tenths mod 10) @ ''kB'')"

section \<open>Decimal numbers\<close>

lemma dec_value_simps [simp]:
  "dec_value n [] = n" "dec_value n (c # cs) = dec_value (n * 10 + digit_value c) cs"
  by (simp_all add: dec_value_def)

lemma dec_value_ge: "n \<le> dec_value n s"
proof (induction s arbitrary: n)
  case (Cons c s)
  from Cons.IH [of "n * 10 + digit_value c"] show ?case by simp
qed simp

lemma digit_step:
  fixes p :: u64
  assumes "d \<le> 9"
  shows "p > (UINT64_MAX - of_nat d) div 10 \<longleftrightarrow> 18446744073709551615 < unat p * 10 + d"
    and "unat p * 10 + d \<le> 18446744073709551615 \<Longrightarrow> unat (p * 10 + of_nat d) = unat p * 10 + d"
proof -
  have d: "unat (of_nat d :: u64) = d" using assms by (simp add: unat_of_nat)
  have "unat (UINT64_MAX - of_nat d) = 18446744073709551615 - d"
    using assms by (subst unat_sub_small) (simp_all add: d)
  then have "unat ((UINT64_MAX - of_nat d) div 10) = (18446744073709551615 - d) div 10"
    by (simp add: unat_div_distrib)
  then show "p > (UINT64_MAX - of_nat d) div 10 \<longleftrightarrow> 18446744073709551615 < unat p * 10 + d"
    using assms by (auto simp: word_less_nat_alt)
  assume small: "unat p * 10 + d \<le> 18446744073709551615"
  then have "unat (p * 10) = unat p * 10" by (subst unat_mult_small) simp_all
  with small show "unat (p * 10 + of_nat d) = unat p * 10 + d"
    by (subst unat_add_small) (simp_all add: d)
qed

lemma digit_value_le: "is_digit c \<Longrightarrow> digit_value c \<le> 9"
  by (auto simp: is_digit_def digit_value_def)

lemma parseUnsigned_loop_spec:
  "parseUnsigned_loop s p = Some w \<longleftrightarrow>
     list_all is_digit s \<and> dec_value (unat p) s \<le> 18446744073709551615 \<and> unat w = dec_value (unat p) s"
proof (induction s arbitrary: p)
  case Nil
  then show ?case using unat_u64_le [of p] by (auto simp: word_unat_eq_iff)
next
  case (Cons c s)
  show ?case
  proof (cases "is_digit c")
    case True
    note step = digit_step [OF digit_value_le [OF True], of p]
    show ?thesis
    proof (cases "unat p * 10 + digit_value c \<le> 18446744073709551615")
      case False
      then have "\<not> dec_value (unat p) (c # s) \<le> 18446744073709551615"
        using dec_value_ge [of "unat p * 10 + digit_value c" s] by simp
      with False True step(1) show ?thesis by (simp add: Let_def)
    next
      case small: True
      with True step Cons.IH [of "p * 10 + of_nat (digit_value c)"] show ?thesis
        by (simp add: Let_def)
    qed
  qed simp
qed

lemma digit_char_digit:
  "d < 10 \<Longrightarrow> is_digit (digit_char d)" "d < 10 \<Longrightarrow> digit_value (digit_char d) = d"
  by (simp_all add: is_digit_def digit_value_def byte_digit_char)

lemma to_string_digits: "list_all is_digit (to_string n)"
  using digits_of_less [of 10 _ n] by (auto simp: to_string_def list_all_iff digit_char_digit)

lemma to_string_not_Nil [simp]: "to_string n \<noteq> []"
  by (simp add: to_string_def)

lemma to_string_value: "dec_value 0 (to_string n) = n"
proof -
  have "dec_value a (map digit_char ds) = foldl (\<lambda>a d. a * 10 + d) a ds"
    if "\<forall>d \<in> set ds. d < 10" for a ds
    using that by (induction ds arbitrary: a) (simp_all add: digit_char_digit)
  then show ?thesis
    using digits_of_less [of 10 _ n] digits_of_value [of 10 n] by (simp add: to_string_def)
qed

lemma parseUnsigned_spec:
  "parseUnsigned s = Some w \<longleftrightarrow>
     s \<noteq> [] \<and> list_all is_digit s \<and> dec_value 0 s < 2 ^ 64 \<and> unat w = dec_value 0 s"
  using parseUnsigned_loop_spec [of s 0 w] by (auto simp: parseUnsigned_def)

section \<open>Properties\<close>

text \<open>The number parser is exact: it accepts precisely the non-empty strings of decimal digits
  whose value fits 64 bits, and returns that value. The overflow test before each digit
  neither misses an overflow nor refuses a number that fits.\<close>

theorem parseUnsigned_exact:
  "parseUnsigned s = Some w \<longleftrightarrow>
     s \<noteq> [] \<and> list_all is_digit s \<and> dec_value 0 s < 2 ^ 64 \<and> unat w = dec_value 0 s"
  by (rule parseUnsigned_spec)

text \<open>A byte range as RFC 7233 writes it, its text, and the bytes it selects of a file of a given
  size: the first position and how many.\<close>

datatype range_spec = Closed nat nat | From nat | Suffix nat

fun print_range :: "range_spec \<Rightarrow> string" where
  "print_range (Closed a b) = ''bytes='' @ to_string a @ ''-'' @ to_string b"
| "print_range (From a) = ''bytes='' @ to_string a @ ''-''"
| "print_range (Suffix n) = ''bytes='' @ ''-'' @ to_string n"

fun range_bytes :: "range_spec \<Rightarrow> nat \<Rightarrow> (nat \<times> nat) option" where
  "range_bytes (Closed a b) len = (if a \<le> b \<and> a < len then Some (a, min (b + 1) len - a) else None)"
| "range_bytes (From a) len = (if a < len then Some (a, len - a) else None)"
| "range_bytes (Suffix n) len = (if 0 < n \<and> 0 < len then Some (len - n, min n len) else None)"

fun range_fits :: "range_spec \<Rightarrow> bool" where
  "range_fits (Closed a b) = (a < 2 ^ 64 \<and> b < 2 ^ 64)"
| "range_fits (From a) = (a < 2 ^ 64)"
| "range_fits (Suffix n) = (n < 2 ^ 64)"

lemma find_from_None: "c \<notin> set (drop start s) \<Longrightarrow> start \<le> length s \<Longrightarrow> find_from c s start = None"
proof -
  assume c: "c \<notin> set (drop start s)" and "start \<le> length s"
  have "takeWhile (\<lambda>x. x \<noteq> c) (drop start s) = drop start s"
    using c by (auto simp: takeWhile_eq_all_conv)
  with \<open>start \<le> length s\<close> show ?thesis by (simp add: find_from_def Let_def del: takeWhile_eq_all_conv)
qed

lemma find_from_append: "c \<notin> set xs \<Longrightarrow> find_from c (xs @ c # ys) 0 = Some (length xs)"
proof -
  assume "c \<notin> set xs"
  then have "takeWhile (\<lambda>x. x \<noteq> c) (xs @ c # ys) = xs" by (subst takeWhile_append2) auto
  then show ?thesis by (simp add: find_from_def)
qed

lemma parseUnsigned_to_string:
  "n < 2 ^ 64 \<Longrightarrow> parseUnsigned (to_string n) = Some (of_nat n)"
  by (subst parseUnsigned_spec) (simp add: to_string_digits to_string_value unat_of_nat)

lemma digit_not: "is_digit c \<Longrightarrow> c \<noteq> CHR ''-'' \<and> c \<noteq> CHR '','' \<and> \<not> ascii_blank c"
  by (auto simp: is_digit_def ascii_blank_def)

lemma to_string_not: "CHR ''-'' \<notin> set (to_string n)" "CHR '','' \<notin> set (to_string n)"
    "\<not> ascii_blank (last (to_string n))"
  using to_string_digits [of n] digit_not by (auto simp: list_all_iff)

lemma trimAscii_id: "s \<noteq> [] \<Longrightarrow> \<not> ascii_blank (hd s) \<Longrightarrow> \<not> ascii_blank (last s) \<Longrightarrow> trimAscii s = s"
proof -
  assume s: "s \<noteq> []" "\<not> ascii_blank (hd s)" "\<not> ascii_blank (last s)"
  then have "dropWhile ascii_blank s = s" by (cases s) auto
  moreover have "dropWhile ascii_blank (rev s) = rev s" using s by (cases s rule: rev_cases) auto
  ultimately show ?thesis by (simp add: trimAscii_def trim_of_def)
qed

text \<open>The parser on a well-formed header, with the two numbers still as texts.\<close>

lemma parseRange_text:
  assumes "list_all is_digit first" "list_all is_digit second" "first @ second \<noteq> []"
  shows "parseRange (''bytes='' @ first @ ''-'' @ second) whole = select_range first second whole"
proof -
  let ?spec = "first @ CHR ''-'' # second" and ?v = "''bytes='' @ first @ ''-'' @ second"
  have no: "CHR ''-'' \<notin> set first" "CHR ''-'' \<notin> set second" "CHR '','' \<notin> set ?spec"
    using assms(1,2) digit_not by (auto simp: list_all_iff)
  have "\<not> ascii_blank (last ?v)"
    using assms(2) digit_not by (cases "second = []") (auto simp: list_all_iff ascii_blank_def)
  then have trim: "trimAscii ?v = ?v" by (intro trimAscii_id) (simp_all add: ascii_blank_def)
  have unit: "is_bytes_unit ?v" by (simp add: is_bytes_unit_def)
  have drop: "drop 6 ?v = ?spec" by simp
  have comma: "find_from CHR '','' ?spec 0 = None" using no(3) by (intro find_from_None) simp_all
  have dash: "find_from CHR ''-'' ?spec 0 = Some (length first)" using no(1) by (rule find_from_append)
  have once: "find_from CHR ''-'' ?spec (length first + 1) = None"
    using no(2) by (intro find_from_None) simp_all
  show ?thesis
    unfolding parseRange_def Let_def trim drop comma dash
    using unit once by (simp add: substr_def)
qed

lemma unat_pred: "(w :: u64) \<noteq> 0 \<Longrightarrow> unat (w - 1) = unat w - 1"
  by (subst unat_sub_small) (simp_all add: Suc_le_eq unat_gt_0)

lemma unat_min: "unat (min a b :: u64) = min (unat a) (unat b)"
  by (simp add: min_def word_le_nat_alt)

text \<open>The arithmetic of a closed or open range, in the naturals.\<close>

lemma closed_range_arith:
  fixes w start e :: u64
  assumes "start < w" "start \<le> e"
  shows "unat (min e (w - 1) - start + 1) = min (unat e + 1) (unat w) - unat start"
    and "0 < unat (min e (w - 1) - start + 1)"
    and "unat start + unat (min e (w - 1) - start + 1) \<le> unat w"
proof -
  have w: "w \<noteq> 0" using assms(1) by auto
  have lt: "unat start < unat w" and le: "unat start \<le> unat e"
    using assms by (simp_all add: word_less_nat_alt word_le_nat_alt)
  have m: "unat (min e (w - 1)) = min (unat e) (unat w - 1)" by (simp add: unat_min unat_pred w)
  have s: "unat (min e (w - 1) - start) = min (unat e) (unat w - 1) - unat start"
    using lt le by (subst unat_sub_small) (simp_all add: m)
  have "unat (min e (w - 1) - start + 1) = min (unat e) (unat w - 1) - unat start + 1"
    using lt unat_u64_le [of w] by (subst unat_add_small) (simp_all add: s)
  with lt le show "unat (min e (w - 1) - start + 1) = min (unat e + 1) (unat w) - unat start"
    "0 < unat (min e (w - 1) - start + 1)"
    "unat start + unat (min e (w - 1) - start + 1) \<le> unat w" by simp_all
qed

lemma select_range_sound:
  assumes "br_status (select_range first second whole) = RangeValid"
  defines "r \<equiv> select_range first second whole"
  shows "0 < unat (br_length r) \<and> unat (br_start r) + unat (br_length r) \<le> unat whole"
proof (cases "first = []")
  case True
  with assms(1) obtain suffix where s: "parseUnsigned second = Some suffix" "suffix \<noteq> 0" "whole \<noteq> 0"
    by (auto simp: select_range_def no_range_def Let_def split: if_splits option.splits)
  let ?n = "min suffix whole"
  have "unat (whole - ?n) = unat whole - unat ?n" by (rule unat_sub_small) (simp add: unat_min)
  moreover have "0 < unat ?n" using s by (simp add: unat_min unat_gt_0)
  ultimately show ?thesis using True s by (simp add: r_def select_range_def Let_def unat_min)
next
  case False
  with assms(1) obtain start e where s: "parseUnsigned first = Some start" "start < whole"
    and e: "(if second = [] then Some (whole - 1) else parseUnsigned second) = Some e"
      "second = [] \<or> start \<le> e"
    by (auto simp: select_range_def no_range_def Let_def split: if_splits option.splits)
  have w: "whole \<noteq> 0" using s(2) by auto
  have "start \<le> e"
    using e s(2) w by (auto simp: word_le_nat_alt word_less_nat_alt unat_pred split: if_splits)
  with closed_range_arith(2,3) [OF s(2) this] False s e w show ?thesis
    by (auto simp: r_def select_range_def Let_def)
qed

text \<open>A valid range lies inside the file: whatever the header says, a range reported as valid is
  not empty, and its start plus its length does not exceed the file size (as natural numbers,
  so nothing wraps).\<close>

lemma range_inside_file:
  assumes "br_status (parseRange raw whole) = RangeValid"
  shows "0 < unat (br_length (parseRange raw whole)) \<and>
    unat (br_start (parseRange raw whole)) + unat (br_length (parseRange raw whole)) \<le> unat whole"
proof -
  obtain first second where "parseRange raw whole = select_range first second whole"
    using assms by (auto simp: parseRange_def no_range_def Let_def split: if_splits option.splits)
  with assms select_range_sound show ?thesis by simp
qed

lemma unat_of_fits: "n < 18446744073709551616 \<Longrightarrow> unat (of_nat n :: u64) = n"
  by (simp add: unat_of_nat)

lemma select_closed:
  assumes "a < 2 ^ 64" "b < 2 ^ 64"
  shows "select_range (to_string a) (to_string b) whole =
    (if a < unat whole \<and> a \<le> b
     then \<lparr>br_status = RangeValid, br_start = of_nat a,
           br_length = min (of_nat b) (whole - 1) - of_nat a + 1\<rparr>
     else no_range\<lparr>br_status := RangeUnsatisfiable\<rparr>)"
  using assms unat_gt_0 [of whole]
  by (auto simp: select_range_def parseUnsigned_to_string word_le_nat_alt word_less_nat_alt unat_of_fits Let_def)

lemma select_from:
  assumes "a < 2 ^ 64"
  shows "select_range (to_string a) [] whole =
    (if a < unat whole
     then \<lparr>br_status = RangeValid, br_start = of_nat a,
           br_length = min (whole - 1) (whole - 1) - of_nat a + 1\<rparr>
     else no_range\<lparr>br_status := RangeUnsatisfiable\<rparr>)"
  using assms unat_gt_0 [of whole]
  by (auto simp: select_range_def parseUnsigned_to_string word_le_nat_alt unat_of_fits Let_def)

lemma range_closed_case:
  fixes e whole :: u64
  assumes "a < 2 ^ 64" "unat e = b" "a \<le> b" "a < unat whole"
  shows "unat (min e (whole - 1) - of_nat a + 1) = min (b + 1) (unat whole) - a"
proof -
  have "of_nat a < whole" "of_nat a \<le> e"
    using assms by (simp_all add: word_less_nat_alt word_le_nat_alt unat_of_fits)
  from closed_range_arith(1) [OF this] assms show ?thesis by (simp add: unat_of_fits)
qed

text \<open>C13. Ranges mean what RFC 7233 says: for each of the three forms, written with any numbers
  below 2^64, the parser selects exactly the bytes the form denotes for a file of the given
  size, and reports an error when the form denotes none.\<close>

theorem range_refines_rfc:
  assumes "range_fits r"
  shows "case range_bytes r (unat whole) of
      None \<Rightarrow> br_status (parseRange (print_range r) whole) \<in> {RangeInvalid, RangeUnsatisfiable}
    | Some (s, n) \<Rightarrow> br_status (parseRange (print_range r) whole) = RangeValid \<and>
        unat (br_start (parseRange (print_range r) whole)) = s \<and>
        unat (br_length (parseRange (print_range r) whole)) = n"
proof (cases r)
  case (Closed a b)
  then have fits: "a < 2 ^ 64" "b < 2 ^ 64" using assms by simp_all
  have "parseRange (print_range r) whole = select_range (to_string a) (to_string b) whole"
    using parseRange_text [OF to_string_digits to_string_digits] by (simp add: Closed)
  with fits Closed range_closed_case [of a "of_nat b" b whole] show ?thesis
    by (simp add: select_closed unat_of_fits no_range_def)
next
  case (From a)
  then have fits: "a < 2 ^ 64" using assms by simp
  have "parseRange (print_range r) whole = select_range (to_string a) [] whole"
    using parseRange_text [OF to_string_digits, of "[]" a] by (simp add: From)
  moreover have "a < unat whole \<Longrightarrow> whole \<noteq> 0" by auto
  ultimately show ?thesis
    using fits From range_closed_case [of a "whole - 1" "unat whole - 1" whole]
    by (auto simp: select_from unat_of_fits no_range_def unat_pred)
next
  case (Suffix n)
  then have fits: "n < 2 ^ 64" using assms by simp
  have eq: "parseRange (print_range r) whole = select_range [] (to_string n) whole"
    using parseRange_text [of "[]" "to_string n"] to_string_digits [of n] by (simp add: Suffix)
  have z: "(of_nat n :: u64) = 0 \<longleftrightarrow> n = 0" "whole = 0 \<longleftrightarrow> unat whole = 0"
    using fits unat_of_fits [of n] by (auto simp: word_unat_eq_iff)
  have "unat (whole - min (of_nat n) whole) = unat whole - n"
    using fits by (subst unat_sub_small) (auto simp: unat_min unat_of_fits)
  with fits z show ?thesis
    unfolding eq by (simp add: Suffix select_range_def parseUnsigned_to_string Let_def no_range_def unat_min unat_of_fits)
qed

lemma range_inside_file_witness:
  "0 < unat (br_length (parseRange ''bytes=5-'' 9)) \<and>
    unat (br_start (parseRange ''bytes=5-'' 9)) + unat (br_length (parseRange ''bytes=5-'' 9)) \<le> unat (9 :: u64)"
  by (rule range_inside_file) code_simp

theorem range_refines_rfc_witness:
  "br_status (parseRange (print_range (Closed 2 5)) 16) = RangeValid \<and>
     unat (br_start (parseRange (print_range (Closed 2 5)) 16)) = 2 \<and>
     unat (br_length (parseRange (print_range (Closed 2 5)) 16)) = 4"
  using range_refines_rfc [of "Closed 2 5" 16] by simp

subsection \<open>Sanitising\<close>

definition printable :: "char \<Rightarrow> bool" where
  "printable c \<longleftrightarrow> 0x20 \<le> byte c \<and> byte c \<noteq> 0x7f"

lemma hex_digits_printable: "d < 16 \<Longrightarrow> printable (hex_digits ! d)"
proof -
  have "list_all printable hex_digits" "length hex_digits = 16" by code_simp+
  then show "d < 16 \<Longrightarrow> ?thesis" by (simp add: list_all_length)
qed

lemma sanitize_loop_ok:
  "length out \<le> limit \<Longrightarrow> list_all printable out \<Longrightarrow>
   length (sanitize_loop limit out s) \<le> limit \<and> list_all printable (sanitize_loop limit out s)"
proof (induction limit out s rule: sanitize_loop.induct)
  case (2 limit out c cs)
  have "byte c div 16 < 16" using nat_of_char_less_256 [of c] by (intro less_mult_imp_div_less) simp
  then have "printable (hex_digits ! (byte c div 16))" "printable (hex_digits ! (byte c mod 16))"
    by (auto intro!: hex_digits_printable)
  moreover have "printable CHR 0x5C" "printable CHR ''x''" by (simp_all add: printable_def)
  ultimately show ?case using 2 by (auto simp: printable_def [of c])
qed simp

lemma sanitize_loop_clean:
  "list_all printable s \<Longrightarrow> length out + length s \<le> limit \<Longrightarrow> sanitize_loop limit out s = out @ s"
  by (induction s arbitrary: out) (auto simp: printable_def)

text \<open>Log lines cannot be forged through request fields: what \<open>sanitize\<close> returns is within the
  limit and free of control bytes, line breaks among them, and a value is passed on unchanged
  exactly when it is clean and short enough.\<close>

theorem sanitize_clean:
  "length (sanitize v limit) \<le> limit \<and> list_all printable (sanitize v limit) \<and>
   (sanitize v limit = v \<longleftrightarrow> list_all printable v \<and> length v \<le> limit)"
proof -
  have "length (sanitize v limit) \<le> limit \<and> list_all printable (sanitize v limit)"
    unfolding sanitize_def by (rule sanitize_loop_ok) simp_all
  moreover have "sanitize v limit = v" if "list_all printable v" "length v \<le> limit"
    using sanitize_loop_clean [of v "[]" limit] that by (simp add: sanitize_def)
  ultimately show ?thesis by auto
qed

subsection \<open>Entity tags\<close>

lemma append_sep_inject:
  "c \<notin> set xs \<Longrightarrow> c \<notin> set ys \<Longrightarrow> xs @ c # as = ys @ c # bs \<longleftrightarrow> xs = ys \<and> as = bs"
  by (auto simp: append_Cons_eq_iff) (auto simp: append_eq_append_conv2 Cons_eq_append_conv append_eq_Cons_conv)

lemma to_hex_not: "CHR ''-'' \<notin> set (to_hex n)" "CHR 0x22 \<notin> set (to_hex n)" "CHR '','' \<notin> set (to_hex n)"
  using to_hex_byte [of _ n] by force+

lemma makeEtag_tail:
  "to_hex m @ (if g then ''-gz'' else []) @ [CHR 0x22] = to_hex n @ (if h then ''-gz'' else []) @ [CHR 0x22]
     \<longleftrightarrow> m = n \<and> g = h"
proof (cases "g = h")
  case True
  then show ?thesis by (simp add: to_hex_inject)
next
  case False
  have "CHR ''-'' \<in> set (to_hex m @ (if g then ''-gz'' else []) @ [CHR 0x22]) \<longleftrightarrow> g"
    "CHR ''-'' \<in> set (to_hex n @ (if h then ''-gz'' else []) @ [CHR 0x22]) \<longleftrightarrow> h"
    using to_hex_not by auto
  with False show ?thesis by metis
qed

text \<open>Entity tags identify the representation: two tags are equal exactly when size,
  modification identity, file identity and encoding all agree, so a client's cached copy is
  confirmed only for the same bytes as far as these witness it.\<close>

theorem etag_injective:
  "makeEtag f g = makeEtag f' g' \<longleftrightarrow>
     fi_size f = fi_size f' \<and> modifiedIdentity f = modifiedIdentity f' \<and>
     fileIdentity f = fileIdentity f' \<and> g = g'"
proof -
  have "makeEtag f g = makeEtag f' g' \<longleftrightarrow>
      to_hex (unat (fi_size f)) = to_hex (unat (fi_size f')) \<and>
      to_hex (unat (modifiedIdentity f)) = to_hex (unat (modifiedIdentity f')) \<and>
      unat (fileIdentity f) = unat (fileIdentity f') \<and> g = g'"
    unfolding makeEtag_def
    by (simp only: list.inject append_Cons append_Nil append_sep_inject [OF to_hex_not(1) to_hex_not(1)]
        makeEtag_tail conj_assoc refl simp_thms)
  then show ?thesis by (simp only: to_hex_inject word_unat_eq_iff)
qed

lemma etag_items_iff:
  "etag_items items etag \<longleftrightarrow>
     (\<exists>item \<in> set items. trimAscii item = ''*'' \<or>
        (if starts_with ''W/'' (trimAscii item) \<or> starts_with ''w/'' (trimAscii item)
         then trimAscii (drop 2 (trimAscii item)) else trimAscii item) = etag)"
  by (induction items) (auto simp: Let_def)

lemma makeEtag_plain:
  "trimAscii (makeEtag f g) = makeEtag f g" "CHR '','' \<notin> set (makeEtag f g)"
  "makeEtag f g \<noteq> []" "hd (makeEtag f g) = CHR 0x22"
proof -
  show "trimAscii (makeEtag f g) = makeEtag f g"
    by (rule trimAscii_id) (simp_all add: makeEtag_def ascii_blank_def)
  show "CHR '','' \<notin> set (makeEtag f g)" using to_hex_not by (auto simp: makeEtag_def)
qed (simp_all add: makeEtag_def)

lemma weak_tag_stripped:
  assumes "weak = [] \<or> weak = ''W/'' \<or> weak = ''w/''"
  shows "(if starts_with ''W/'' (weak @ makeEtag f g) \<or> starts_with ''w/'' (weak @ makeEtag f g)
      then trimAscii (drop 2 (weak @ makeEtag f g)) else weak @ makeEtag f g) = makeEtag f g"
proof -
  obtain r where "makeEtag f g = CHR 0x22 # r" by (simp add: makeEtag_def)
  then show ?thesis using assms makeEtag_plain(1) [of f g] by (elim disjE) (simp_all add: starts_with_def)
qed

lemma weak_tag_trim: assumes "gap = [] \<or> gap = '' ''" "weak = [] \<or> weak = ''W/'' \<or> weak = ''w/''"
  shows "trimAscii (gap @ weak @ makeEtag f g) = weak @ makeEtag f g"
proof -
    have "trimAscii (weak @ makeEtag f g) = weak @ makeEtag f g"
      using assms by (intro trimAscii_id) (auto simp: makeEtag_def ascii_blank_def)
    moreover have "trimAscii (CHR '' '' # s) = trimAscii s" for s
      by (simp add: trimAscii_def trim_of_def ascii_blank_def)
    ultimately show ?thesis using assms(1) by (elim disjE) simp_all
qed

text \<open>A client that sends back the tag it was given is recognised: \<open>etagMatches\<close> accepts the
  tag of a file, with or without the weak prefix, as any element of the list.\<close>

theorem etag_roundtrip:
  assumes "weak = [] \<or> weak = ''W/'' \<or> weak = ''w/''"
    and "before = [] \<or> (\<exists>list. before = list @ '', '')" and "after = [] \<or> (\<exists>list. after = '','' @ list)"
  shows "etagMatches (before @ weak @ makeEtag f g @ after) (makeEtag f g)"
proof -
  let ?tag = "makeEtag f g"
  obtain gap where gap: "gap = [] \<or> gap = '' ''"
    and mem: "gap @ weak @ ?tag \<in> set (segments CHR '','' (before @ weak @ ?tag @ after))"
  proof -
    have one: "segments CHR '','' (gap @ weak @ ?tag) = [gap @ weak @ ?tag]" if "gap = [] \<or> gap = '' ''" for gap
      using that assms(1) makeEtag_plain(2) by (intro segments_plain) auto
    have tail: "gap @ weak @ ?tag \<in> set (segments CHR '','' (gap @ weak @ ?tag @ after))"
      if "gap = [] \<or> gap = '' ''" for gap
      using assms(3) one [OF that] segments_sep [of "CHR '',''" "gap @ weak @ ?tag"] by auto
    from assms(2) show ?thesis
    proof
      assume "before = []" with tail [of "[]"] show ?thesis by (intro that [of "[]"]) auto
    next
      assume "\<exists>list. before = list @ '', ''"
      then obtain list where "before = list @ '', ''" ..
      with tail [of "'' ''"] segments_sep [of "CHR '',''" list "'' '' @ weak @ ?tag @ after"]
      show ?thesis by (intro that [of "'' ''"]) auto
    qed
  qed
  have trim: "trimAscii (gap @ weak @ ?tag) = weak @ ?tag"
    using gap assms(1) by (rule weak_tag_trim)
  show ?thesis
    unfolding etagMatches_def segments_from_0 etag_items_iff
    using weak_tag_stripped [OF assms(1), of f g] by (intro bexI [OF _ mem] disjI2) (simp only: trim)
qed

theorem etag_roundtrip_witness:
  "etagMatches (''\"a\"'' @ '', '' @ ''W/'' @ makeEtag (info_of sample_fs (1, 5)) True @ [])
     (makeEtag (info_of sample_fs (1, 5)) True)"
  using etag_roundtrip [of "''W/''" "''\"a\"'' @ '', ''" "[]" "info_of sample_fs (1, 5)" True] by simp

subsection \<open>Dates\<close>

lemma div_pred: "0 < k \<Longrightarrow> y div k = (y - 1) div k + (if y mod k = 0 then 1 else 0)" for k y :: int
proof -
  assume k: "0 < k"
  show ?thesis
  proof (cases "y mod k = 0")
    case True
    then have "y - 1 = k * (y div k - 1) + (k - 1)" using mult_div_mod_eq [of k y] by (simp add: right_diff_distrib)
    then have "(y - 1) div k = y div k - 1" by (rule int_div_pos_eq) (use k in simp_all)
    with True show ?thesis by simp
  next
    case False
    have m: "0 \<le> y mod k" "y mod k < k" using k by simp_all
    have "y - 1 = k * (y div k) + (y mod k - 1)" using mult_div_mod_eq [of k y] by linarith
    then have "(y - 1) div k = y div k" by (rule int_div_pos_eq) (use m False in linarith)+
    with False show ?thesis by simp
  qed
qed

lemma leap_count:
  "(p400 \<longrightarrow> p100) \<Longrightarrow> (p100 \<longrightarrow> p4) \<Longrightarrow>
   365 + (if p4 then 1 else 0) - (if p100 then 1 else 0) + (if p400 then 1 else 0) =
     (if p4 \<and> (\<not> p100 \<or> p400) then 366 else (365 :: int))"
  by (cases p4; cases p100; cases p400) simp_all

lemma days_before_Suc: "days_before_year (y + 1) = days_before_year y + year_length y"
proof -
  let ?p = "\<lambda>k. if y mod k = 0 then 1 else 0 :: int"
  have "y mod 400 mod 100 = y mod 100" "y mod 100 mod 4 = y mod 4"
    by (rule mod_mod_cancel, simp)+
  then have dvd: "y mod 400 = 0 \<longrightarrow> y mod 100 = 0" "y mod 100 = 0 \<longrightarrow> y mod 4 = 0"
    by (metis mod_0)+
  have "y div 4 = (y - 1) div 4 + ?p 4" "y div 100 = (y - 1) div 100 + ?p 100"
    "y div 400 = (y - 1) div 400 + ?p 400"
    by (rule div_pred, simp)+
  then have "days_before_year (y + 1) = days_before_year y + (365 + ?p 4 - ?p 100 + ?p 400)"
    unfolding days_before_year_def add_diff_cancel_right'
    by (simp only: algebra_simps)
  then show ?thesis
    unfolding leap_count [OF dvd] year_length_def leap_year_def by simp
qed

declare year_search.simps [simp del]

lemma year_search_days:
  "year_search y d = (y', d') \<Longrightarrow>
     days_before_year y + d = days_before_year y' + d' \<and> 0 \<le> d' \<and> d' < year_length y'"
proof (induction y d rule: year_search.induct)
  case (1 y d)
  consider "d < 0" | "0 \<le> d" "year_length y \<le> d" | "0 \<le> d" "d < year_length y" by linarith
  then show ?case
  proof cases
    case 1
    with "1.IH"(1) "1.prems" days_before_Suc [of "y - 1"] show ?thesis
      by (simp add: year_search.simps [of y d])
  next
    case 2
    with "1.IH"(2) "1.prems" days_before_Suc [of y] show ?thesis
      by (simp add: year_search.simps [of y d])
  next
    case 3
    with "1.prems" show ?thesis by (simp add: year_search.simps [of y d])
  qed
qed

lemma month_search_days:
  "month_search ls m d = (m', d') \<Longrightarrow> 0 \<le> d \<Longrightarrow> d < sum_list ls \<Longrightarrow>
     m \<le> m' \<and> m' < m + int (length ls) \<and> d = sum_list (take (nat (m' - m)) ls) + d' \<and> 0 \<le> d'"
proof (induction ls m d rule: month_search.induct)
  case (2 l ls m d)
  show ?case
  proof (cases "d < l")
    case True
    with 2 show ?thesis by auto
  next
    case False
    with 2 have ih: "m + 1 \<le> m' \<and> m' < m + 1 + int (length ls) \<and>
        d - l = sum_list (take (nat (m' - (m + 1))) ls) + d' \<and> 0 \<le> d'" by simp
    then have "nat (m' - m) = Suc (nat (m' - (m + 1)))" by linarith
    with ih show ?thesis by auto
  qed
qed simp

lemma sum_month_lengths: "sum_list (month_lengths y) = year_length y"
  by (simp add: month_lengths_def year_length_def)

lemma timegm_gmtime: "timegm_exact (gmtime t) = t"
proof -
  let ?days = "t div 86400" and ?rest = "t mod 86400"
  obtain y yday where y: "year_search 1970 ?days = (y, yday)" by fastforce
  obtain m mday where m: "month_search (month_lengths y) 0 yday = (m, mday)" by fastforce
  have "days_before_year 1970 = 0" by (simp add: days_before_year_def)
  with year_search_days [OF y] have d: "?days = days_before_year y + yday" "0 \<le> yday" "yday < year_length y"
    by simp_all
  with month_search_days [OF m] have "yday = sum_list (take (nat m) (month_lengths y)) + mday"
    by (simp add: sum_month_lengths)
  moreover have "timegm_exact (gmtime t) =
      (days_before_year y + sum_list (take (nat m) (month_lengths y)) + (mday + 1) - 1) * 86400 +
      ?rest div 3600 * 3600 + ?rest div 60 mod 60 * 60 + ?rest mod 60"
    by (simp only: gmtime_def timegm_exact_def y m Let_def case_prod_conv tm.simps diff_add_cancel)
  ultimately have "timegm_exact (gmtime t) =
      ?days * 86400 + ?rest div 3600 * 3600 + ?rest div 60 mod 60 * 60 + ?rest mod 60"
    unfolding d(1) by simp
  also have "?rest div 60 mod 60 * 60 + ?rest mod 60 = ?rest mod 3600"
    using zmod_zmult2_eq [of 60 ?rest 60] by simp
  then have "?days * 86400 + ?rest div 3600 * 3600 + ?rest div 60 mod 60 * 60 + ?rest mod 60 =
      ?days * 86400 + (?rest div 3600 * 3600 + ?rest mod 3600)" by linarith
  also have "\<dots> = t" by simp
  finally show ?thesis .
qed

lemma days_before_mono: "y \<le> y' \<Longrightarrow> days_before_year y \<le> days_before_year y'"
proof (induction y' rule: int_ge_induct)
  case (step y')
  with days_before_Suc [of y'] show ?case by (simp add: year_length_def split: if_splits)
qed simp

lemma month_search_day:
  "month_search ls m d = (m', d') \<Longrightarrow> d < sum_list ls \<Longrightarrow> \<forall>l \<in> set ls. l \<le> k \<Longrightarrow> 0 \<le> k \<Longrightarrow> d' < k"
  by (induction ls m d rule: month_search.induct) (auto split: if_splits)

text \<open>The fields of a time of the 32 bit \<open>time_t\<close> from 1970 on.\<close>

definition printable_tm :: "tm \<Rightarrow> bool" where
  "printable_tm u \<longleftrightarrow> 0 \<le> tm_sec u \<and> tm_sec u < 60 \<and> 0 \<le> tm_min u \<and> tm_min u < 60 \<and>
     0 \<le> tm_hour u \<and> tm_hour u < 24 \<and> 1 \<le> tm_mday u \<and> tm_mday u \<le> 31 \<and>
     0 \<le> tm_mon u \<and> tm_mon u < 12 \<and> 70 \<le> tm_year u \<and> tm_year u \<le> 138 \<and> 0 \<le> tm_wday u \<and> tm_wday u < 7"

lemma gmtime_fields:
  assumes "0 \<le> s" "s < 2147483648"
  shows "printable_tm (gmtime s)"
proof -
  let ?days = "s div 86400" and ?rest = "s mod 86400"
  obtain y yday where y: "year_search 1970 ?days = (y, yday)" by fastforce
  obtain m mday where m: "month_search (month_lengths y) 0 yday = (m, mday)" by fastforce
  have days: "0 \<le> ?days" "?days < 24856" using assms by simp_all
  have known: "days_before_year 1970 = 0" "days_before_year 2039 = 25202" by (simp_all add: days_before_year_def)
  with year_search_days [OF y] have d: "?days = days_before_year y + yday" "0 \<le> yday" "yday < year_length y"
    by simp_all
  have "1970 \<le> y"
    using days_before_mono [of "y + 1" 1970] days_before_Suc [of y] d known days by (cases "1970 \<le> y") simp_all
  moreover have "y < 2039"
    using days_before_mono [of 2039 y] d known days by (cases "y < 2039") simp_all
  moreover have mo: "yday < sum_list (month_lengths y)" using d(3) by (simp add: sum_month_lengths)
  have "\<forall>l \<in> set (month_lengths y). l \<le> 31" by (simp add: month_lengths_def)
  then have "mday < 31" by (rule month_search_day [OF m mo]) simp
  moreover from month_search_days [OF m d(2) mo] have "0 \<le> mday" "0 \<le> m" "m < 12"
    by (simp_all add: month_lengths_def)
  moreover have "0 \<le> ?rest" "?rest < 86400" by simp_all
  then have "?rest div 3600 < 24" "0 \<le> ?rest div 3600" by simp_all
  ultimately show ?thesis
    unfolding printable_tm_def gmtime_def y m Let_def case_prod_conv tm.simps by simp
qed

text \<open>Printed numbers have the width of their field.\<close>

lemma two_digits_field:
  assumes "0 \<le> n" "n < 100"
  shows "length (two_digits n) = 2 \<and> list_all is_digit (two_digits n) \<and> int (dec_value 0 (two_digits n)) = n"
proof -
  have "list_all (\<lambda>k. length (two_digits (int k)) = 2 \<and> list_all is_digit (two_digits (int k)) \<and>
      dec_value 0 (two_digits (int k)) = k) [0..<100]" by code_simp
  moreover have "nat n \<in> set [0..<100]" using assms by (simp add: nat_less_iff)
  ultimately have "length (two_digits (int (nat n))) = 2 \<and>
      list_all is_digit (two_digits (int (nat n))) \<and> dec_value 0 (two_digits (int (nat n))) = nat n"
    by (simp only: list_all_iff) blast
  with assms(1) show ?thesis by simp
qed

lemma year_field:
  assumes "70 \<le> y" "y \<le> 138"
  shows "length (to_string (nat (y + 1900))) = 4"
proof -
  define n where "n = nat (y + 1900)"
  have "1000 \<le> n" "n < 10000" using assms by (simp_all add: n_def)
  then have "\<not> n < 10" "\<not> n div 10 < 10" "\<not> n div 10 div 10 < 10" "n div 10 div 10 div 10 < 10" by simp_all
  then have "length (to_string n) = 4" unfolding to_string_def by (simp add: digits_of.simps [of 10])
  then show ?thesis by (simp add: n_def)
qed

lemma get_number_digits:
  assumes "length ds = width" "list_all is_digit ds" "low \<le> int (dec_value 0 ds)" "int (dec_value 0 ds) \<le> high"
  shows "get_number width low high (ds @ rest) = Some (int (dec_value 0 ds), rest)"
proof -
  have "takeWhile is_digit ds = ds" using assms(2) by (simp add: list_all_iff takeWhile_eq_all_conv)
  then have ds: "takeWhile is_digit (take width (ds @ rest)) = ds" using assms(1) by simp
  show ?thesis using assms unfolding get_number_def Let_def ds by simp
qed

lemma less_7: "0 \<le> w \<Longrightarrow> w < 7 \<Longrightarrow> w = 0 \<or> w = 1 \<or> w = 2 \<or> w = 3 \<or> w = 4 \<or> w = 5 \<or> w = (6 :: int)"
  by presburger

lemma less_12: "0 \<le> m \<Longrightarrow> m < 12 \<Longrightarrow> m = 0 \<or> m = 1 \<or> m = 2 \<or> m = 3 \<or> m = 4 \<or> m = 5 \<or> m = 6 \<or> m = 7 \<or>
    m = 8 \<or> m = 9 \<or> m = 10 \<or> m = (11 :: int)"
  by presburger

lemma day_field:
  assumes "0 \<le> w" "w < 7"
  shows "get_name (zip full_day_names day_names) 0 (day_names ! nat w @ CHR '','' # rest) = Some (w, CHR '','' # rest)"
  using less_7 [OF assms] by (elim disjE) (simp_all add: day_names_def full_day_names_def lowerAscii_def tolower_def)

lemma month_field:
  assumes "0 \<le> m" "m < 12"
  shows "get_name (zip full_month_names month_names) 0 (month_names ! nat m @ CHR '' '' # rest) =
    Some (m, CHR '' '' # rest)"
  using less_12 [OF assms] by (elim disjE) (simp_all add: month_names_def full_month_names_def lowerAscii_def tolower_def)

lemma number_field:
  assumes "0 \<le> n" "n < 100" "low \<le> n" "n \<le> high"
  shows "get_number 2 low high (two_digits n @ rest) = Some (n, rest)"
  using get_number_digits [of "two_digits n" 2 low high rest] two_digits_field [OF assms(1,2)] assms(3,4) by simp

lemma year_number:
  assumes "70 \<le> y" "y \<le> 138"
  shows "get_number 4 0 9999 (to_string (nat (y + 1900)) @ rest) = Some (y + 1900, rest)"
  using get_number_digits [of "to_string (nat (y + 1900))" 4 0 9999 rest] year_field [OF assms] assms
  by (simp add: to_string_digits to_string_value)

lemma not_space_digit: "is_digit c \<Longrightarrow> \<not> is_space c"
  by (auto simp: is_digit_def is_space_def)

text \<open>A printed field is not empty and does not begin with white space, and reading it back, with
  the byte that follows, sets that field.\<close>

lemma put_field_start:
  assumes "printable_tm u" "conversion \<in> set ''abdHMSY''"
  shows "put_field conversion u \<noteq> [] \<and> \<not> is_space (hd (put_field conversion u))"
proof -
  have digits: "ds \<noteq> [] \<and> \<not> is_space (hd ds)" if "list_all is_digit ds" "0 < length ds" for ds
    using that not_space_digit by (cases ds) auto
  have two: "two_digits n \<noteq> [] \<and> \<not> is_space (hd (two_digits n))" if "0 \<le> n" "n < 100" for n
    using two_digits_field [OF that] by (intro digits) simp_all
  have year: "to_string (nat (tm_year u + 1900)) \<noteq> [] \<and> \<not> is_space (hd (to_string (nat (tm_year u + 1900))))"
    using year_field [of "tm_year u"] assms(1) by (intro digits) (simp_all add: to_string_digits printable_tm_def)
  have day: "day_names ! nat w \<noteq> [] \<and> \<not> is_space (hd (day_names ! nat w))" if "0 \<le> w" "w < 7" for w
    using less_7 [OF that] by (elim disjE) (simp_all add: day_names_def is_space_def)
  have month: "month_names ! nat m \<noteq> [] \<and> \<not> is_space (hd (month_names ! nat m))" if "0 \<le> m" "m < 12" for m
    using less_12 [OF that] by (elim disjE) (simp_all add: month_names_def is_space_def)
  from assms two year day month show ?thesis by (auto simp: put_field_def printable_tm_def)
qed

lemma put_field_get:
  assumes "printable_tm u"
  shows "get_field CHR ''a'' (put_field CHR ''a'' u @ CHR '','' # rest) v = Some (CHR '','' # rest, v\<lparr>tm_wday := tm_wday u\<rparr>)"
    "get_field CHR ''b'' (put_field CHR ''b'' u @ CHR '' '' # rest) v = Some (CHR '' '' # rest, v\<lparr>tm_mon := tm_mon u\<rparr>)"
    "get_field CHR ''d'' (put_field CHR ''d'' u @ rest) v = Some (rest, v\<lparr>tm_mday := tm_mday u\<rparr>)"
    "get_field CHR ''H'' (put_field CHR ''H'' u @ rest) v = Some (rest, v\<lparr>tm_hour := tm_hour u\<rparr>)"
    "get_field CHR ''M'' (put_field CHR ''M'' u @ rest) v = Some (rest, v\<lparr>tm_min := tm_min u\<rparr>)"
    "get_field CHR ''S'' (put_field CHR ''S'' u @ rest) v = Some (rest, v\<lparr>tm_sec := tm_sec u\<rparr>)"
    "get_field CHR ''Y'' (put_field CHR ''Y'' u @ rest) v = Some (rest, v\<lparr>tm_year := tm_year u\<rparr>)"
  using assms
  by (simp_all add: get_field_def put_field_def printable_tm_def day_field month_field number_field year_number)

text \<open>One step of the interpreter over a printed field, a literal byte and white space.\<close>

lemma get_time_field:
  assumes "get_field conversion (put_field conversion u @ c # rest) v = Some (c # rest, v')"
    and "printable_tm u" "conversion \<in> set ''abdHMSY''"
  shows "get_time (CHR 0x25 # conversion # format) (put_field conversion u @ c # rest) v = get_time format (c # rest) v'"
  using assms put_field_start [OF assms(2,3)] by simp

lemma get_time_literal:
  "c \<noteq> CHR 0x25 \<Longrightarrow> \<not> is_space c \<Longrightarrow> get_time (c # format) (c # rest) v = get_time format rest v"
  by simp

lemma get_time_space:
  assumes "printable_tm u" "conversion \<in> set ''abdHMSY''"
  shows "get_time (CHR '' '' # CHR 0x25 # format) (CHR '' '' # put_field conversion u @ rest) v =
    get_time (CHR 0x25 # format) (put_field conversion u @ rest) v"
proof -
  have "dropWhile is_space (CHR '' '' # put_field conversion u @ rest) = put_field conversion u @ rest"
    using put_field_start [OF assms] by (cases "put_field conversion u") (simp_all add: is_space_def)
  then show ?thesis
    by (subst get_time.simps(2)) (simp add: is_space_def)
qed

lemma http_date_fields:
  assumes "printable_tm u"
  shows "get_time ''%a, %d %b %Y %H:%M:%S GMT'' (put_time ''%a, %d %b %Y %H:%M:%S GMT'' u @ behind) v = Some u"
proof -
  note field = put_field_get [OF assms] get_time_field [OF _ assms] get_time_space [OF assms]
  have "get_time ''GMT'' (''GMT'' @ behind) w = Some w" for w by simp
  moreover have "get_time '' GMT'' ('' GMT'' @ behind) w = get_time ''GMT'' (''GMT'' @ behind) w" for w
    by (subst get_time.simps(2)) (simp add: is_space_def)
  ultimately show ?thesis
    by (simp add: field get_time_literal is_space_def del: get_time.simps)
qed

text \<open>What \<open>httpDate\<close> has to print: an IMF-fixdate of RFC 9110.\<close>

definition imf_fixdate :: "tm \<Rightarrow> string" where
  "imf_fixdate u =
     day_names ! nat (tm_wday u) @ '', '' @ two_digits (tm_mday u) @ '' '' @
     month_names ! nat (tm_mon u) @ '' '' @ to_string (nat (tm_year u + 1900)) @ '' '' @
     two_digits (tm_hour u) @ '':'' @ two_digits (tm_min u) @ '':'' @ two_digits (tm_sec u) @ '' GMT''"

text \<open>C14. HTTP dates round-trip: for every modification time from 1970 to the end of the 32 bit
  \<open>time_t\<close>, \<open>httpDate\<close> prints the IMF-fixdate of RFC 9110, and parsing that date, alone or
  with white space in front or anything behind, gives the same second. A client that sends the
  \<^verbatim>\<open>Last-Modified\<close> date back is answered as unmodified.\<close>

theorem http_date_roundtrip:
  assumes "0 \<le> s" "s < 2147483648" and "\<forall>c \<in> set gap. is_space c"
  shows "httpDate s = imf_fixdate (gmtime s) \<and> parseHttpDate (gap @ httpDate s @ behind) = Some s"
proof -
  have t: "to_time_t s = s" using assms(1,2) by (simp add: to_time_t_def)
  have start: "dropWhile is_space (gap @ httpDate s @ behind) = httpDate s @ behind"
    using assms(3) put_field_start [OF gmtime_fields [OF assms(1,2)], of "CHR ''a''"] t
    by (cases "put_field CHR ''a'' (gmtime s)") (auto simp: httpDate_def dropWhile_append)
  have "get_time ''%a, %d %b %Y %H:%M:%S GMT'' (httpDate s @ behind) v = Some (gmtime s)" for v
    unfolding httpDate_def t by (rule http_date_fields [OF gmtime_fields [OF assms(1,2)]])
  with start assms(1,2) have "parseHttpDate (gap @ httpDate s @ behind) = Some s"
    by (simp add: parseHttpDate_def timegm_def timegm_gmtime Let_def)
  moreover have "httpDate s = imf_fixdate (gmtime s)"
    by (simp add: httpDate_def t imf_fixdate_def put_field_def)
  ultimately show ?thesis by simp
qed

theorem http_date_roundtrip_witness:
  "httpDate 784111777 = ''Sun, 06 Nov 1994 08:49:37 GMT'' \<and>
   parseHttpDate ''Sun, 06 Nov 1994 08:49:37 GMT'' = Some 784111777"
proof -
  have "imf_fixdate (gmtime 784111777) = ''Sun, 06 Nov 1994 08:49:37 GMT''" by code_simp
  moreover have "httpDate 784111777 = imf_fixdate (gmtime 784111777) \<and>
      parseHttpDate ([] @ httpDate 784111777 @ []) = Some 784111777"
    by (rule http_date_roundtrip) simp_all
  ultimately show ?thesis by (metis append_Nil append_Nil2)
qed


lemma find_append: "find P (xs @ ys) = (case find P xs of None \<Rightarrow> find P ys | Some x \<Rightarrow> Some x)"
  by (induction xs) auto

lemma accept_items_eq:
  "accept_items items w wa =
     (case find (\<lambda>(c, a). c = ''gzip'') (map read_coding items) of
        Some (c, a) \<Rightarrow> a
      | None \<Rightarrow> (case find (\<lambda>(c, a). c = ''*'') (rev (map read_coding items)) of
            Some (c, a) \<Rightarrow> a
          | None \<Rightarrow> w \<and> wa))"
  by (induction items arbitrary: w wa) (auto simp: find_append split: option.splits)

text \<open>Content coding negotiation: an element that names gzip decides, the first one if there are
  several, wherever it stands relative to a wildcard; with no such element the last wildcard
  decides; with neither, the identity encoding is used.\<close>

theorem accepts_gzip_decision:
  "acceptsGzip raw =
     (let codings = map read_coding (segments CHR '','' raw)
      in case find (\<lambda>(c, a). c = ''gzip'') codings of
           Some (c, a) \<Rightarrow> a
         | None \<Rightarrow> (case find (\<lambda>(c, a). c = ''*'') (rev codings) of Some (c, a) \<Rightarrow> a | None \<Rightarrow> False))"
  by (auto simp: acceptsGzip_def segments_from_0 accept_items_eq Let_def split: option.splits)

end
