(* ===== verification/Logger.thy ===== *)
theory Logger
  imports Path_Resolver Http_Fields "HOL-Library.Sublist"
begin

text \<open>
  The asynchronous logger (\<^verbatim>\<open>src/src/logger.cpp\<close>, \<^verbatim>\<open>logger.h\<close>): a bounded queue that request
  threads fill and one worker drains into a file per local day, with old files removed at
  each rollover. The worker's loop is cut at its critical section: \<open>LTake\<close> is the section
  under the mutex, \<open>LEmit\<close> the part outside it. \<open>std::mktime\<close> depends on the time zone and is
  a parameter; the local date is an input of the steps that read it.
\<close>

section \<open>Dates in file names\<close>

text \<open>The fields of \<open>std::tm\<close> the logger reads.\<close>

record local_tm =
  lt_year :: int
  lt_mon :: int
  lt_mday :: int
  lt_yday :: int

definition sameDay :: "local_tm \<Rightarrow> local_tm \<Rightarrow> bool" where
  "sameDay left right \<longleftrightarrow> lt_year left = lt_year right \<and> lt_yday left = lt_yday right"

text \<open>\<^verbatim>\<open>%0<w>d\<close> of \<open>snprintf\<close>.\<close>

definition zero_pad :: "nat \<Rightarrow> string \<Rightarrow> string" where
  "zero_pad w s = replicate (w - length s) CHR ''0'' @ s"

definition format_int :: "nat \<Rightarrow> int \<Rightarrow> string" where
  "format_int w n =
     (if n < 0 then CHR ''-'' # zero_pad (w - 1) (to_string (nat (- n))) else zero_pad w (to_string (nat n)))"

definition dateStamp :: "local_tm \<Rightarrow> string" where
  "dateStamp day =
     take 39 (format_int 4 (lt_year day + 1900) @ ''-'' @ format_int 2 (lt_mon day + 1) @ ''-'' @
       format_int 2 (lt_mday day))"

text \<open>\<open>mktime year month day\<close> stands for \<open>std::mktime\<close> of midnight on a day given by its calendar
  fields (which it normalises); -1 is its error value.\<close>

definition midnight :: "(int \<Rightarrow> int \<Rightarrow> int \<Rightarrow> int) \<Rightarrow> int \<Rightarrow> int \<Rightarrow> int \<Rightarrow> int" where
  "midnight mktime year month dayOfMonth = mktime (year - 1900) (month - 1) dayOfMonth"

definition parseStamp :: "(int \<Rightarrow> int \<Rightarrow> int \<Rightarrow> int) \<Rightarrow> string \<Rightarrow> int option" where
  "parseStamp mktime stamp =
     (if length stamp \<noteq> 10 \<or> stamp ! 4 \<noteq> CHR ''-'' \<or> stamp ! 7 \<noteq> CHR ''-'' then None
      else if \<not> list_all (\<lambda>i. i = 4 \<or> i = 7 \<or> is_digit (stamp ! i)) [0..<length stamp] then None
      else (let year = int (dec_value 0 (substr stamp 0 4)); month = int (dec_value 0 (substr stamp 5 2)); day = int (dec_value 0 (substr stamp 8 2))
            in if month < 1 \<or> month > 12 \<or> day < 1 \<or> day > 31 then None
               else (let out = midnight mktime year month day in if out \<noteq> - 1 then Some out else None)))"

section \<open>The logger\<close>

text \<open>The worker thread: waiting at the condition variable, or holding a batch and the number of
  dropped lines it took with it. \<open>w_open\<close> is the day of the open file (\<open>openDay\<close> when \<open>opened\<close> is
  set) and \<open>w_good\<close> the state of the output stream, which stays bad after a failure until the
  file is opened again.\<close>

datatype worker_pc = Waiting | Holding "string list" u32

record log_worker =
  w_pc :: worker_pc
  w_open :: "local_tm option"
  w_good :: bool

record AsyncLogger =
  lg_basePath :: path
  lg_keepDays :: nat
  lg_queue :: "string list"
  lg_stopping :: bool
  lg_dropped :: u32
  lg_worker :: "log_worker option"
  lg_offered :: "string list"
  lg_lines :: "string list"
  lg_reported :: nat
  lg_lost :: nat

text \<open>The last four fields record the history and are read by no operation: the lines offered
  while the logger ran, the lines written, the number reported as dropped in the file, and
  the number of lines neither written nor counted any more: their batch failed while it was
  written, or the worker had ended.\<close>

definition lg_init :: AsyncLogger where
  "lg_init = \<lparr>lg_basePath = [], lg_keepDays = 7, lg_queue = [], lg_stopping = False, lg_dropped = 0,
     lg_worker = None, lg_offered = [], lg_lines = [], lg_reported = 0, lg_lost = 0\<rparr>"

definition kMaxQueuedLines :: nat where "kMaxQueuedLines = 4096"

definition path_stem :: "path \<Rightarrow> string" where
  "path_stem p = (let name = last p in take (length name - length (extension_of name)) name)"

definition dailyPath :: "AsyncLogger \<Rightarrow> local_tm \<Rightarrow> path" where
  "dailyPath s day =
     butlast (lg_basePath s) @
       [path_stem (lg_basePath s) @ ''-'' @ dateStamp day @ extension_of (last (lg_basePath s))]"

text \<open>Whether \<open>purge\<close> removes a directory entry: the test of the loop, for a regular file.\<close>

definition purge_name :: "(int \<Rightarrow> int \<Rightarrow> int \<Rightarrow> int) \<Rightarrow> AsyncLogger \<Rightarrow> int \<Rightarrow> string \<Rightarrow> bool" where
  "purge_name mktime s cutoff name =
     (let prefix = path_stem (lg_basePath s) @ ''-''; ext = extension_of (last (lg_basePath s))
      in if length name \<noteq> length prefix + 10 + length ext then False
         else if substr name 0 (length prefix) \<noteq> prefix then False
         else if ext \<noteq> [] \<and> drop (length name - length ext) name \<noteq> ext then False
         else (case parseStamp mktime (substr name (length prefix) 10) of
             None \<Rightarrow> False | Some stamp \<Rightarrow> stamp < cutoff))"

text \<open>The names \<open>purge\<close> removes from a directory whose regular files are listed.\<close>

definition purge :: "(int \<Rightarrow> int \<Rightarrow> int \<Rightarrow> int) \<Rightarrow> AsyncLogger \<Rightarrow> local_tm \<Rightarrow> string list \<Rightarrow> string list" where
  "purge mktime s today files =
     (if lg_keepDays s = 0 then []
      else (let cutoff = mktime (lt_year today) (lt_mon today) (lt_mday today - (int (lg_keepDays s) - 1))
            in if cutoff = - 1 then [] else filter (purge_name mktime s cutoff) files))"

definition lg_write :: "string \<Rightarrow> AsyncLogger \<Rightarrow> AsyncLogger" where
  "lg_write line s =
     (if lg_stopping s then s
      else (let s = s\<lparr>lg_offered := lg_offered s @ [line]\<rparr>
            in if length (lg_queue s) \<ge> kMaxQueuedLines then s\<lparr>lg_dropped := lg_dropped s + 1\<rparr>
               else s\<lparr>lg_queue := lg_queue s @ [line]\<rparr>))"

text \<open>The critical section of \<open>run\<close>, entered when the wait's predicate holds.\<close>

definition lg_take :: "AsyncLogger \<Rightarrow> AsyncLogger" where
  "lg_take s =
     (case lg_worker s of
        Some w \<Rightarrow>
          if w_pc w = Waiting \<and> (lg_stopping s \<or> lg_queue s \<noteq> []) then
            (let batch = lg_queue s; dropped = lg_dropped s; s = s\<lparr>lg_queue := [], lg_dropped := 0\<rparr>
             in if batch = [] \<and> lg_stopping s
                then s\<lparr>lg_worker := None, lg_lost := lg_lost s + unat dropped\<rparr>
                else s\<lparr>lg_worker := Some (w\<lparr>w_pc := Holding batch dropped\<rparr>)\<rparr>)
          else s
      | None \<Rightarrow> s)"

text \<open>The rest of the iteration: \<open>canOpen\<close> says whether opening today's file would succeed,
  \<open>fails\<close> how the output goes if it is attempted: \<open>None\<close> when all of it succeeds, \<open>Some k\<close> when
  only the first \<open>k\<close> lines reach the file before the stream fails (in an insertion or in the
  flush). The report of dropped lines is the first line of the output.\<close>

definition lg_emit :: "local_tm \<Rightarrow> bool \<Rightarrow> nat option \<Rightarrow> AsyncLogger \<Rightarrow> AsyncLogger" where
  "lg_emit today canOpen fails s =
     (case lg_worker s of
        Some w \<Rightarrow>
          (case w_pc w of
             Waiting \<Rightarrow> s
           | Holding batch dropped \<Rightarrow>
               (let reopen = (case w_open w of Some day \<Rightarrow> \<not> sameDay today day | None \<Rightarrow> True);
                    opened = (if reopen then (if canOpen then Some today else None) else w_open w);
                    good = (if reopen then canOpen else w_good w)
                in if \<not> good
                   then s\<lparr>lg_worker := Some \<lparr>w_pc = Waiting, w_open = opened, w_good = False\<rparr>,
                          lg_dropped := lg_dropped s + (dropped + of_nat (length batch))\<rparr>
                   else (let report = (if dropped \<noteq> 0 then 1 else 0);
                             reached = (case fails of None \<Rightarrow> report + length batch | Some k \<Rightarrow> k);
                             written = take (reached - report) batch;
                             reported = (if report \<le> reached then unat dropped else 0)
                         in s\<lparr>lg_worker := Some \<lparr>w_pc = Waiting, w_open = opened, w_good = (fails = None)\<rparr>,
                              lg_reported := lg_reported s + reported, lg_lines := lg_lines s @ written,
                              lg_lost := lg_lost s + (unat dropped - reported) + (length batch - length written)\<rparr>)))
      | None \<Rightarrow> s)"

definition lg_request_stop :: "AsyncLogger \<Rightarrow> AsyncLogger" where
  "lg_request_stop s = s\<lparr>lg_stopping := True\<rparr>"

text \<open>The end of \<open>stop\<close>, after the worker was joined.\<close>

definition lg_joined :: "AsyncLogger \<Rightarrow> AsyncLogger" where
  "lg_joined s = (if lg_worker s = None \<and> lg_stopping s then s\<lparr>lg_queue := [], lg_lost := lg_lost s + length (lg_queue s)\<rparr> else s)"

text \<open>\<open>start\<close> after its call of \<open>stop\<close>: \<open>dirOk\<close> and \<open>probeOk\<close> are the results of creating the
  directory and of opening today's file.\<close>

definition lg_start :: "path \<Rightarrow> nat \<Rightarrow> bool \<Rightarrow> bool \<Rightarrow> AsyncLogger \<Rightarrow> bool \<times> AsyncLogger" where
  "lg_start basePath keepDays dirOk probeOk s =
     (if length basePath > 1 \<and> \<not> dirOk then (False, s)
      else (let s = s\<lparr>lg_basePath := basePath, lg_keepDays := keepDays, lg_dropped := 0,
                      lg_offered := [], lg_lines := [], lg_reported := 0, lg_lost := 0\<rparr>
            in if \<not> probeOk then (False, s)
               else (True, s\<lparr>lg_stopping := False, lg_worker := Some \<lparr>w_pc = Waiting, w_open = None, w_good = True\<rparr>\<rparr>)))"

datatype lg_event =
    LWrite string
  | LTake
  | LEmit local_tm bool "nat option"
  | LStop
  | LJoined
  | LStart path nat bool bool

fun lg_step :: "AsyncLogger \<Rightarrow> lg_event \<Rightarrow> AsyncLogger" where
  "lg_step s (LWrite line) = lg_write line s"
| "lg_step s LTake = lg_take s"
| "lg_step s (LEmit today c k) = lg_emit today c k s"
| "lg_step s LStop = lg_request_stop s"
| "lg_step s LJoined = lg_joined s"
| "lg_step s (LStart b k d p) =
     (if lg_worker s = None \<and> lg_stopping s \<and> lg_queue s = [] then snd (lg_start b k d p s) else s)"

section \<open>The queue\<close>

definition held :: "AsyncLogger \<Rightarrow> string list \<times> u32" where
  "held s = (case lg_worker s of
       Some w \<Rightarrow> (case w_pc w of Holding b d \<Rightarrow> (b, d) | Waiting \<Rightarrow> ([], 0))
     | None \<Rightarrow> ([], 0))"

text \<open>Everything offered is written, reported as dropped, lost with the worker, or still counted
  or queued, modulo the width of the drop counter.\<close>

definition lg_inv :: "AsyncLogger \<Rightarrow> bool" where
  "lg_inv s \<longleftrightarrow>
     length (lg_queue s) \<le> kMaxQueuedLines \<and>
     subseq (lg_lines s @ fst (held s) @ lg_queue s) (lg_offered s) \<and>
     (length (lg_offered s) < 2 ^ 32 \<longrightarrow>
        length (lg_offered s) =
          length (lg_lines s) + lg_reported s + lg_lost s + unat (lg_dropped s) +
          length (lg_queue s) + length (fst (held s)) + unat (snd (held s)))"

lemma held_simps [simp]:
  "held (s\<lparr>lg_queue := q\<rparr>) = held s" "held (s\<lparr>lg_dropped := d\<rparr>) = held s"
  "held (s\<lparr>lg_offered := f\<rparr>) = held s" "held (s\<lparr>lg_stopping := b\<rparr>) = held s"
  "held (s\<lparr>lg_lost := n\<rparr>) = held s" "held (s\<lparr>lg_lines := ls\<rparr>) = held s"
  "held (s\<lparr>lg_reported := n\<rparr>) = held s"
  "held (s\<lparr>lg_worker := None\<rparr>) = ([], 0)"
  "held (s\<lparr>lg_worker := Some w\<rparr>) = (case w_pc w of Holding b d \<Rightarrow> (b, d) | Waiting \<Rightarrow> ([], 0))"
  by (simp_all add: held_def)

lemma unat_u32_add: "unat (a :: u32) + unat b < 4294967296 \<Longrightarrow> unat (a + b) = unat a + unat b"
  using unat_add_lem [of a b] by simp

lemma unat_u32_of_nat: "n < 4294967296 \<Longrightarrow> unat (of_nat n :: u32) = n"
  by (simp add: unat_of_nat)

lemma lg_write_inv:
  assumes "lg_inv s"
  shows "lg_inv (lg_write line s)"
proof (cases "lg_stopping s \<or> length (lg_queue s) < kMaxQueuedLines")
  case True
  have "subseq (lg_lines s @ fst (held s) @ lg_queue s @ [line]) (lg_offered s @ [line])"
    using assms list_emb_append_mono [of "(=)" _ "lg_offered s" "[line]" "[line]"]
    by (fastforce simp: lg_inv_def)
  with True assms show ?thesis by (auto simp: lg_inv_def lg_write_def Let_def)
next
  case False
  have "unat (lg_dropped s + 1) = unat (lg_dropped s) + 1" if "Suc (length (lg_offered s)) < 4294967296"
    using assms that by (subst unat_u32_add) (auto simp: lg_inv_def)
  moreover have "subseq (lg_lines s @ fst (held s) @ lg_queue s) (lg_offered s @ [line])"
    using assms list_emb_append_mono [of "(=)" _ "lg_offered s" "[]" "[line]"]
    by (fastforce simp: lg_inv_def)
  ultimately show ?thesis using False assms by (auto simp: lg_inv_def lg_write_def Let_def)
qed

lemma lg_take_inv:
  assumes "lg_inv s"
  shows "lg_inv (lg_take s)"
proof (cases "\<exists>w. lg_worker s = Some w \<and> w_pc w = Waiting \<and> (lg_stopping s \<or> lg_queue s \<noteq> [])")
  case True
  then obtain w where w: "lg_worker s = Some w" "w_pc w = Waiting" "lg_stopping s \<or> lg_queue s \<noteq> []" by blast
  then have "held s = ([], 0)" by (simp add: held_def)
  with w assms show ?thesis by (auto simp: lg_inv_def lg_take_def Let_def)
next
  case False
  then have "lg_take s = s" by (auto simp: lg_take_def split: option.split)
  with assms show ?thesis by simp
qed

lemma subseq_drop_middle: "subseq (xs @ ys @ zs) us \<Longrightarrow> subseq (xs @ zs) us"
  by (rule subseq_order.trans [rotated], assumption) (simp add: list_emb_append2 subseq_append')

lemma subseq_take_middle: "subseq (xs @ ys @ zs) us \<Longrightarrow> subseq (xs @ take n ys @ zs) us"
  by (rule subseq_order.trans [rotated], assumption)
    (intro list_emb_append_mono subseq_order.refl prefix_imp_subseq take_is_prefix)

lemma lg_emit_inv:
  assumes "lg_inv s"
  shows "lg_inv (lg_emit today canOpen fails s)"
proof (cases "\<exists>w b d. lg_worker s = Some w \<and> w_pc w = Holding b d")
  case True
  then obtain w b d where w: "lg_worker s = Some w" "w_pc w = Holding b d" by blast
  then have h: "held s = (b, d)" by (simp add: held_def)
  have "unat (lg_dropped s + (d + of_nat (length b))) = unat (lg_dropped s) + unat d + length b"
    if "length (lg_offered s) < 4294967296"
  proof -
    have small: "unat (lg_dropped s) + unat d + length b < 4294967296"
      using assms that h by (simp add: lg_inv_def)
    then have "unat (of_nat (length b) :: u32) = length b" by (intro unat_u32_of_nat) simp
    with small show ?thesis by (simp add: unat_u32_add)
  qed
  moreover have "subseq (lg_lines s @ take n b @ lg_queue s) (lg_offered s)" for n
    using assms h by (auto simp: lg_inv_def intro: subseq_take_middle)
  moreover from this [of 0] have "subseq (lg_lines s @ lg_queue s) (lg_offered s)" by simp
  ultimately show ?thesis
    using w assms h by (auto simp: lg_inv_def lg_emit_def Let_def split: option.split)
next
  case False
  then have "lg_emit today canOpen fails s = s"
    by (auto simp: lg_emit_def split: option.split worker_pc.split)
  with assms show ?thesis by simp
qed

lemma lg_inv_step: "lg_inv s \<Longrightarrow> lg_inv (lg_step s e)"
proof (induction s e rule: lg_step.induct)
  case (5 s)
  have "subseq (lg_lines s @ fst (held s) @ lg_queue s) (lg_offered s) \<Longrightarrow>
      subseq (lg_lines s @ fst (held s)) (lg_offered s)"
    using subseq_drop_middle [of "lg_lines s @ fst (held s)" "lg_queue s" "[]"] by simp
  with 5 show ?case by (auto simp: lg_joined_def lg_inv_def)
next
  case (6 s b k d p)
  have "lg_worker s = None \<Longrightarrow> held s = ([], 0)" by (simp add: held_def)
  with 6 show ?case by (auto simp: lg_start_def lg_inv_def held_def Let_def kMaxQueuedLines_def)
qed (simp_all add: lg_write_inv lg_take_inv lg_emit_inv, simp add: lg_request_stop_def lg_inv_def)

interpretation lg: transition_system lg_init lg_step lg_inv
proof unfold_locales
  show "lg_inv lg_init" by (simp add: lg_inv_def lg_init_def held_def)
qed (rule lg_inv_step)

text \<open>Without a failure while a batch is written, nothing is lost while the worker runs.\<close>

definition write_failure :: "lg_event \<Rightarrow> bool" where
  "write_failure e \<longleftrightarrow> (\<exists>today canOpen k. e = LEmit today canOpen (Some k))"

lemma lg_no_loss_step:
  assumes "lg_worker s \<noteq> None \<longrightarrow> lg_lost s = 0" and "\<not> write_failure e"
  shows "lg_worker (lg_step s e) \<noteq> None \<longrightarrow> lg_lost (lg_step s e) = 0"
proof (cases e)
  case (LEmit today canOpen fails)
  with assms show ?thesis
    by (cases fails) (auto simp: write_failure_def lg_emit_def Let_def split: option.splits worker_pc.splits)
next
  case LTake
  with assms show ?thesis by (auto simp: lg_take_def Let_def split: option.splits)
qed (use assms in \<open>auto simp: lg_write_def lg_request_stop_def lg_joined_def lg_start_def Let_def\<close>)

lemma lg_no_loss:
  "\<not> list_ex write_failure es \<Longrightarrow> lg_worker s \<noteq> None \<longrightarrow> lg_lost s = 0 \<Longrightarrow>
     lg_worker (foldl lg_step s es) \<noteq> None \<longrightarrow> lg_lost (foldl lg_step s es) = 0"
proof (induction es arbitrary: s)
  case (Cons e es)
  then show ?case using lg_no_loss_step [of s e] by simp
qed simp

section \<open>File names\<close>

lemma zero_pad_digits: "list_all is_digit s \<Longrightarrow> list_all is_digit (zero_pad w s)"
  by (auto simp: zero_pad_def list_all_iff is_digit_def)

lemma zero_pad_value: "dec_value 0 (zero_pad w s) = dec_value 0 s"
proof -
  have "dec_value 0 (replicate k CHR ''0'' @ s) = dec_value 0 s" for k
    by (induction k) (simp_all add: digit_value_def)
  then show ?thesis by (simp add: zero_pad_def)
qed

lemma length_zero_pad: "length s \<le> w \<Longrightarrow> length (zero_pad w s) = w"
  by (simp add: zero_pad_def)

text \<open>A number of at most \<open>w\<close> digits printed with width \<open>w\<close>.\<close>

lemma format_int_field:
  assumes "0 \<le> n" "n < 10 ^ Suc k"
  shows "length (format_int (Suc k) n) = Suc k" "list_all is_digit (format_int (Suc k) n)"
    "int (dec_value 0 (format_int (Suc k) n)) = n"
proof -
  have "nat n < 10 ^ Suc k" using assms by (simp add: nat_less_iff)
  then have "length (to_string (nat n)) \<le> Suc k"
    using digits_of_length [of 10 "nat n" k] by (simp add: to_string_def)
  with assms(1) show "length (format_int (Suc k) n) = Suc k" "list_all is_digit (format_int (Suc k) n)"
    "int (dec_value 0 (format_int (Suc k) n)) = n"
    by (simp_all add: format_int_def length_zero_pad zero_pad_digits to_string_digits zero_pad_value
        to_string_value)
qed

lemma stamp_shape:
  assumes "length a = 4" "length b = 2" "length c = 2"
    "list_all is_digit a" "list_all is_digit b" "list_all is_digit c"
  shows "parseStamp mktime (a @ ''-'' @ b @ ''-'' @ c) =
    (let year = int (dec_value 0 a); month = int (dec_value 0 b); day = int (dec_value 0 c)
     in if month < 1 \<or> month > 12 \<or> day < 1 \<or> day > 31 then None
        else (let out = midnight mktime year month day in if out \<noteq> - 1 then Some out else None))"
proof -
  obtain a0 a1 a2 a3 where a: "a = [a0, a1, a2, a3]"
    using assms(1) by (auto simp: eval_nat_numeral length_Suc_conv)
  obtain b0 b1 where b: "b = [b0, b1]" using assms(2) by (auto simp: eval_nat_numeral length_Suc_conv)
  obtain c0 c1 where c: "c = [c0, c1]" using assms(3) by (auto simp: eval_nat_numeral length_Suc_conv)
  show ?thesis
    using assms(4-6) unfolding a b c
    by (simp add: parseStamp_def substr_def Let_def upt_rec)
qed

text \<open>The stamp of a calendar day is read back as the midnight of that day.\<close>

lemma parseStamp_dateStamp:
  assumes "- 1900 \<le> lt_year day" "lt_year day < 8100" "0 \<le> lt_mon day" "lt_mon day < 12"
    "1 \<le> lt_mday day" "lt_mday day \<le> 31"
  shows "length (dateStamp day) = 10"
    and "parseStamp mktime (dateStamp day) =
      (let out = mktime (lt_year day) (lt_mon day) (lt_mday day) in if out \<noteq> - 1 then Some out else None)"
proof -
  let ?y = "format_int 4 (lt_year day + 1900)" and ?m = "format_int 2 (lt_mon day + 1)"
    and ?d = "format_int 2 (lt_mday day)"
  note y = format_int_field [of "lt_year day + 1900" 3, simplified]
  note m = format_int_field [of "lt_mon day + 1" 1, simplified]
  note d = format_int_field [of "lt_mday day" 1, simplified]
  have len: "length ?y = 4" "length ?m = 2" "length ?d = 2"
    using y(1) m(1) d(1) assms by (simp_all add: eval_nat_numeral)
  then have stamp: "dateStamp day = ?y @ ''-'' @ ?m @ ''-'' @ ?d" by (simp add: dateStamp_def)
  with len show "length (dateStamp day) = 10" by simp
  have dig: "list_all is_digit ?y" "list_all is_digit ?m" "list_all is_digit ?d"
    and val: "int (dec_value 0 ?y) = lt_year day + 1900" "int (dec_value 0 ?m) = lt_mon day + 1"
    "int (dec_value 0 ?d) = lt_mday day"
    using y(2,3) m(2,3) d(2,3) assms by (simp_all add: eval_nat_numeral)
  show "parseStamp mktime (dateStamp day) =
      (let out = mktime (lt_year day) (lt_mon day) (lt_mday day) in if out \<noteq> - 1 then Some out else None)"
    unfolding stamp stamp_shape [OF len dig] val using assms by (simp add: midnight_def Let_def)
qed

definition calendar_day :: "local_tm \<Rightarrow> bool" where
  "calendar_day day \<longleftrightarrow> - 1900 \<le> lt_year day \<and> lt_year day < 8100 \<and> 0 \<le> lt_mon day \<and> lt_mon day < 12 \<and>
     1 \<le> lt_mday day \<and> lt_mday day \<le> 31"

lemma purge_name_daily:
  assumes "calendar_day day" "mktime (lt_year day) (lt_mon day) (lt_mday day) \<noteq> - 1"
  shows "purge_name mktime s cutoff (last (dailyPath s day)) \<longleftrightarrow>
    mktime (lt_year day) (lt_mon day) (lt_mday day) < cutoff"
proof -
  note stamp = parseStamp_dateStamp [of day]
  have "length (dateStamp day) = 10" "parseStamp mktime (dateStamp day) =
      Some (mktime (lt_year day) (lt_mon day) (lt_mday day))"
    using assms stamp(1) stamp(2) [of mktime] by (simp_all add: calendar_day_def Let_def)
  then show ?thesis by (simp add: purge_name_def dailyPath_def substr_def Let_def)
qed

lemma purge_name_shape:
  assumes "purge_name mktime s cutoff name"
  shows "\<exists>stamp. length stamp = 10 \<and>
    name = path_stem (lg_basePath s) @ ''-'' @ stamp @ extension_of (last (lg_basePath s))"
proof -
  let ?p = "path_stem (lg_basePath s) @ ''-''" and ?x = "extension_of (last (lg_basePath s))"
  let ?stamp = "take 10 (drop (length ?p) name)"
  have len: "length name = length ?p + 10 + length ?x"
    and pre: "take (length ?p) name = ?p" and ext: "?x = [] \<or> drop (length name - length ?x) name = ?x"
    using assms by (auto simp: purge_name_def substr_def Let_def split: if_splits)
  from ext len have "drop 10 (drop (length ?p) name) = ?x"
    by (cases "?x = []") (simp_all add: add.commute)
  then have "drop (length ?p) name = ?stamp @ ?x" by (metis append_take_drop_id)
  with pre have "name = ?p @ ?stamp @ ?x" by (metis append_take_drop_id)
  moreover have "length ?stamp = 10" using len by simp
  ultimately have "length ?stamp = 10 \<and> name = path_stem (lg_basePath s) @ ''-'' @ ?stamp @ ?x"
    by (metis append.assoc)
  then show ?thesis ..
qed

section \<open>Properties\<close>

text \<open>C24. The log's books: in every history of writes, worker steps, stops and starts, whatever
  opening a file and writing to it do, the queue stays within 4096 lines; the lines that reached
  the files, the batch in the worker's hands and the queue are, in this order, a subsequence of
  the lines offered, so nothing is duplicated or reordered; as long as fewer than 2^32 lines were
  offered since the start (the width of the drop counter), the lines missing in that sequence are
  exactly those reported as dropped in the file, those the drop counter or the worker still holds
  to report, and those lost; and none are lost while the worker runs, unless the output of a
  batch failed after the check of the stream.\<close>

theorem log_accounting:
  fixes es
  defines "s \<equiv> foldl lg_step lg_init es"
  shows "length (lg_queue s) \<le> kMaxQueuedLines \<and>
    subseq (lg_lines s @ fst (held s) @ lg_queue s) (lg_offered s) \<and>
    (length (lg_offered s) < 2 ^ 32 \<longrightarrow>
      length (lg_offered s) = length (lg_lines s @ fst (held s) @ lg_queue s) +
        (lg_reported s + unat (snd (held s)) + unat (lg_dropped s) + lg_lost s)) \<and>
    (lg_worker s \<noteq> None \<and> \<not> list_ex write_failure es \<longrightarrow> lg_lost s = 0)"
proof -
  have "lg_inv s" unfolding s_def by (rule lg.inv_reachable)
  moreover have "\<not> list_ex write_failure es \<Longrightarrow> lg_worker s \<noteq> None \<longrightarrow> lg_lost s = 0"
    unfolding s_def by (rule lg_no_loss) (simp_all add: lg_init_def)
  ultimately show ?thesis by (auto simp: lg_inv_def)
qed

definition log_day :: local_tm where
  "log_day = \<lparr>lt_year = 126, lt_mon = 6, lt_mday = 26, lt_yday = 206\<rparr>"

text \<open>Two lines, a batch of which only the first reaches the file, and a batch the bad stream
  then counts as dropped.\<close>

definition log_example :: "lg_event list" where
  "log_example = [LStop, LJoined, LStart [''fastdl.log''] 7 True True, LWrite ''a'', LWrite ''b'', LTake,
     LEmit log_day True (Some 1), LWrite ''c'', LTake, LEmit log_day True None, LWrite ''d'']"

theorem log_accounting_witness:
  "(lg_lines (foldl lg_step lg_init log_example), lg_queue (foldl lg_step lg_init log_example),
    unat (lg_dropped (foldl lg_step lg_init log_example)), lg_lost (foldl lg_step lg_init log_example)) =
     ([''a''], [''d''], 1, 1) \<and>
   lg_lost (foldl lg_step lg_init (take 6 log_example)) = 0"
proof -
  let ?s = "foldl lg_step lg_init log_example" and ?t = "foldl lg_step lg_init (take 6 log_example)"
  have "lg_lines ?s = [''a'']" "lg_queue ?s = [''d'']" "length (lg_offered ?s) = 4" "held ?s = ([], 0)"
    "lg_reported ?s = 0" "lg_dropped ?s = 1"
    by code_simp+
  moreover have "\<not> list_ex write_failure (take 6 log_example)" "lg_worker ?t \<noteq> None"
    by (simp add: log_example_def write_failure_def, code_simp)
  ultimately show ?thesis
    using log_accounting [of log_example] log_accounting [of "take 6 log_example"] by simp
qed

text \<open>C25. Rotation removes exactly the expired days: of the files named after a day (stem, date
  stamp, extension) \<open>purge\<close> removes those whose midnight lies before the cutoff, the midnight
  \<open>keepDays - 1\<close> days before today, and keeps the others; and it removes nothing that does
  not have the form of a log file name.\<close>

theorem purge_exact:
  assumes "lg_keepDays s \<noteq> 0"
    and "cutoff = mktime (lt_year today) (lt_mon today) (lt_mday today - (int (lg_keepDays s) - 1))"
      "cutoff \<noteq> - 1"
    and "calendar_day day" "mktime (lt_year day) (lt_mon day) (lt_mday day) \<noteq> - 1"
  shows "(last (dailyPath s day) \<in> set (purge mktime s today files) \<longleftrightarrow>
      last (dailyPath s day) \<in> set files \<and> mktime (lt_year day) (lt_mon day) (lt_mday day) < cutoff) \<and>
    set (purge mktime s today files) \<subseteq> {name. \<exists>stamp. length stamp = 10 \<and>
      name = path_stem (lg_basePath s) @ ''-'' @ stamp @ extension_of (last (lg_basePath s))}"
proof -
  have p: "purge mktime s today files = filter (purge_name mktime s cutoff) files"
    using assms(1-3) by (simp add: purge_def Let_def)
  show ?thesis
    unfolding p using purge_name_daily [where mktime = mktime, OF assms(4,5), of s cutoff] purge_name_shape [of mktime s cutoff]
    by auto
qed

theorem purge_exact_witness:
  defines "s \<equiv> lg_init\<lparr>lg_basePath := [''logs'', ''fastdl.log''], lg_keepDays := 2\<rparr>"
    and "mk \<equiv> (\<lambda>y m d. (y * 372 + m * 31 + d) * 86400 :: int)"
  shows "last (dailyPath s \<lparr>lt_year = 126, lt_mon = 6, lt_mday = 26, lt_yday = 206\<rparr>) = ''fastdl-2026-07-26.log'' \<and>
    (''fastdl-2026-07-25.log'' \<in> set (purge mk s \<lparr>lt_year = 126, lt_mon = 6, lt_mday = 27, lt_yday = 207\<rparr>
       [''fastdl-2026-07-25.log'', ''fastdl-2026-07-26.log'']))"
proof -
  let ?t = "\<lparr>lt_year = 126, lt_mon = 6, lt_mday = 27, lt_yday = 207\<rparr>"
    and ?d = "\<lparr>lt_year = 126, lt_mon = 6, lt_mday = 25, lt_yday = 205\<rparr>"
    and ?fs = "[''fastdl-2026-07-25.log'', ''fastdl-2026-07-26.log'']"
  have d: "last (dailyPath s ?d) = ''fastdl-2026-07-25.log''"
    "last (dailyPath s \<lparr>lt_year = 126, lt_mon = 6, lt_mday = 26, lt_yday = 206\<rparr>) = ''fastdl-2026-07-26.log''"
    unfolding s_def by code_simp+
  have "last (dailyPath s ?d) \<in> set (purge mk s ?t ?fs) \<longleftrightarrow> last (dailyPath s ?d) \<in> set ?fs \<and>
      mk (lt_year ?d) (lt_mon ?d) (lt_mday ?d) < mk (lt_year ?t) (lt_mon ?t) (lt_mday ?t - (int (lg_keepDays s) - 1))"
    by (rule conjunct1 [OF purge_exact]) (simp_all add: s_def mk_def calendar_day_def)
  with d show ?thesis by (simp add: s_def mk_def)
qed

end
