(* ===== verification/Compression_Cache.thy ===== *)
theory Compression_Cache
  imports Path_Resolver Http_Fields
begin

unbundle bit_operations_syntax

text \<open>
  The gzip cache (\<^verbatim>\<open>src/src/compression_cache.cpp\<close>, \<^verbatim>\<open>compression_cache.h\<close>): identities and keys of
  cached representations, the marker files that tie an artifact to the version of the source
  it was made from, the look-up that request threads make, and the job queue shared with the
  worker thread. The worker's loop is cut at its critical sections. The start-up checks are in
  \<open>Cache_Start\<close>, writing artifacts and pruning in \<open>Cache_Publish\<close> and \<open>Cache_Maintenance\<close>.
\<close>

section \<open>Data\<close>

record CompressionSource =
  cs_path :: path
  cs_extension :: string
  cs_info :: OpenedFileInfo

record CachedRepresentation =
  cr_path :: path
  cr_size :: u64

record CompressionStats =
  cst_running :: bool
  cst_entries :: u64
  cst_bytes :: u64
  cst_queued :: u64
  cst_hits :: u64
  cst_misses :: u64
  cst_failures :: u64

record Job =
  jb_source :: CompressionSource
  jb_identity :: string
  jb_key :: string

text \<open>The worker: at its wait, compressing a job it took, building (with the key of the file it
  compresses, if any), or gone.\<close>

datatype cc_worker = Idle | Compressing Job | Building "string option" | Gone

record CompressionCache =
  cc_cachePath :: path
  cc_resolver :: "PathResolver option"
  cc_maxFileBytes :: u64
  cc_maxBytes :: u64
  cc_jobs :: "Job list"
  cc_pending :: "string list"
  cc_stopping :: bool
  cc_buildRequested :: bool
  cc_running :: bool
  cc_entries :: u64
  cc_bytes :: u64
  cc_hits :: u64
  cc_misses :: u64
  cc_failures :: u64
  cc_worker :: cc_worker

definition kMaximumQueuedJobs :: nat where "kMaximumQueuedJobs = 1024"

definition cc_init :: CompressionCache where
  "cc_init = \<lparr>cc_cachePath = [], cc_resolver = None, cc_maxFileBytes = 0, cc_maxBytes = 0, cc_jobs = [], cc_pending = [], cc_stopping = True,
     cc_buildRequested = False, cc_running = False, cc_entries = 0, cc_bytes = 0, cc_hits = 0,
     cc_misses = 0, cc_failures = 0, cc_worker = Gone\<rparr>"

section \<open>Identities and keys\<close>

definition eligible :: "CompressionSource \<Rightarrow> bool" where
  "eligible source \<longleftrightarrow> (if fi_size (cs_info source) < 1024 then False
     else cs_extension source \<in> set [''.bsp'', ''.wad'', ''.mdl'', ''.spr'', ''.wav'', ''.bmp'', ''.tga'', ''.txt'', ''.res''])"

text \<open>\<open>path::generic_u8string\<close> of an absolute path.\<close>

definition path_text :: "path \<Rightarrow> string" where
  "path_text p = (if tl p = [] then ''/'' else concat (map (\<lambda>n. CHR ''/'' # n) (tl p)))"

definition sourceIdentity :: "CompressionSource \<Rightarrow> string" where
  "sourceIdentity source =
     path_text (cs_path source) @ [CHR 0x0A] @ to_string (unat (fi_size (cs_info source))) @ [CHR 0x0A] @
     to_string (unat (modifiedIdentity (cs_info source))) @ [CHR 0x0A] @
     to_string (unat (fileIdentity (cs_info source))) @ [CHR 0x0A]"

definition skipIdentity :: "CompressionCache \<Rightarrow> CompressionSource \<Rightarrow> string" where
  "skipIdentity c source =
     sourceIdentity source @ ''skip-policy=5-percent,max-bytes='' @ to_string (unat (cc_maxBytes c)) @ [CHR 0x0A]"

definition fnv1a :: "string \<Rightarrow> u64 \<Rightarrow> u64" where
  "fnv1a value seed = foldl (\<lambda>hash c. (hash XOR of_nat (byte c)) * 1099511628211) seed value"

definition hex16 :: "u64 \<Rightarrow> string" where
  "hex16 w = (let s = to_hex (unat w) in replicate (16 - length s) CHR ''0'' @ s)"

definition cacheKey :: "string \<Rightarrow> string" where
  "cacheKey identity = hex16 (fnv1a identity 14695981039346656037) @ hex16 (fnv1a identity 7809847782465536322)"

section \<open>Artifacts\<close>

definition regularArtifact :: "file_system \<Rightarrow> path \<Rightarrow> bool" where
  "regularArtifact fs p = is_regular (lstat fs p)"

text \<open>The bytes an input stream opened on the path delivers.\<close>

definition read_bytes :: "file_system \<Rightarrow> path \<Rightarrow> string option" where
  "read_bytes fs p =
     (case openReadFile fs p of Some (Regular i) \<Rightarrow> Some (st_bytes (fs_inode fs i)) | _ \<Rightarrow> None)"

definition markerMatches :: "file_system \<Rightarrow> path \<Rightarrow> string \<Rightarrow> bool" where
  "markerMatches fs p identity =
     (if \<not> regularArtifact fs p then False
      else (case file_size fs p of
          Inl e \<Rightarrow> False
        | Inr n \<Rightarrow>
            if n \<noteq> of_nat (length identity) then False
            else (case read_bytes fs p of
                None \<Rightarrow> False
              | Some stored \<Rightarrow> length identity \<le> length stored \<and> take (length identity) stored = identity)))"

section \<open>Operations\<close>

definition enqueue :: "CompressionSource \<Rightarrow> string \<Rightarrow> string \<Rightarrow> CompressionCache \<Rightarrow> CompressionCache" where
  "enqueue source identity key c =
     (if cc_stopping c \<or> length (cc_jobs c) \<ge> kMaximumQueuedJobs \<or> key \<in> set (cc_pending c) then c
      else c\<lparr>cc_pending := key # cc_pending c,
             cc_jobs := cc_jobs c @ [\<lparr>jb_source = source, jb_identity = identity, jb_key = key\<rparr>]\<rparr>)"

text \<open>The three groups of file system queries see the tree at their own moments.\<close>

definition lookup ::
  "file_system \<Rightarrow> file_system \<Rightarrow> file_system \<Rightarrow> CompressionSource \<Rightarrow> CompressionCache \<Rightarrow>
     CachedRepresentation option \<times> CompressionCache" where
  "lookup fsMeta fsGz fsSkip source c =
     (if \<not> cc_running c \<or> \<not> eligible source then (None, c)
      else
        (let identity = sourceIdentity source;
             key = cacheKey identity;
             gzipPath = cc_cachePath c @ [key @ ''.gz''];
             metadataPath = cc_cachePath c @ [key @ ''.meta''];
             hit = (if markerMatches fsMeta metadataPath identity \<and> regularArtifact fsGz gzipPath
                    then (case file_size fsGz gzipPath of
                        Inl e \<Rightarrow> None
                      | Inr n \<Rightarrow> if n \<ge> 18 then Some \<lparr>cr_path = gzipPath, cr_size = n\<rparr> else None)
                    else None)
         in case hit of
              Some cached \<Rightarrow> (Some cached, c\<lparr>cc_hits := cc_hits c + 1\<rparr>)
            | None \<Rightarrow>
                (let c = c\<lparr>cc_misses := cc_misses c + 1\<rparr>
                 in if \<not> markerMatches fsSkip (cc_cachePath c @ [key @ ''.skip'']) (skipIdentity c source)
                    then (None, enqueue source identity key c) else (None, c))))"

definition requestBuild :: "CompressionCache \<Rightarrow> CompressionCache" where
  "requestBuild c = (if cc_stopping c then c else c\<lparr>cc_buildRequested := True\<rparr>)"

definition cc_stats :: "CompressionCache \<Rightarrow> CompressionStats" where
  "cc_stats c = \<lparr>cst_running = cc_running c, cst_entries = cc_entries c, cst_bytes = cc_bytes c,
     cst_queued = of_nat (length (cc_jobs c)), cst_hits = cc_hits c, cst_misses = cc_misses c,
     cst_failures = cc_failures c\<rparr>"

text \<open>The first critical section of \<open>run\<close>.\<close>

definition run_take :: "CompressionCache \<Rightarrow> CompressionCache" where
  "run_take c =
     (if cc_worker c = Idle \<and> (cc_stopping c \<or> cc_buildRequested c \<or> cc_jobs c \<noteq> []) then
        (if cc_stopping c then c\<lparr>cc_worker := Gone\<rparr>
         else if cc_buildRequested c then c\<lparr>cc_buildRequested := False, cc_worker := Building None\<rparr>
         else c\<lparr>cc_worker := Compressing (hd (cc_jobs c)), cc_jobs := tl (cc_jobs c)\<rparr>)
      else c)"

text \<open>The second, after \<open>compress\<close> returned.\<close>

definition run_finish :: "bool \<Rightarrow> CompressionCache \<Rightarrow> CompressionCache" where
  "run_finish succeeded c =
     (case cc_worker c of
        Compressing job \<Rightarrow>
          (let c = c\<lparr>cc_pending := remove1 (jb_key job) (cc_pending c), cc_worker := Idle\<rparr>
           in if \<not> succeeded \<and> \<not> cc_stopping c then c\<lparr>cc_failures := cc_failures c + 1\<rparr> else c)
      | _ \<Rightarrow> c)"

text \<open>The critical sections of \<open>scanAndBuild\<close> around one file, and its end.\<close>

definition scan_insert :: "string \<Rightarrow> CompressionCache \<Rightarrow> CompressionCache" where
  "scan_insert key c =
     (if cc_worker c = Building None then
        (if cc_stopping c then c\<lparr>cc_worker := Idle\<rparr>
         else if key \<in> set (cc_pending c) then c
         else c\<lparr>cc_pending := key # cc_pending c, cc_worker := Building (Some key)\<rparr>)
      else c)"

definition scan_finish :: "bool \<Rightarrow> CompressionCache \<Rightarrow> CompressionCache" where
  "scan_finish succeeded c =
     (case cc_worker c of
        Building (Some key) \<Rightarrow>
          (let c = c\<lparr>cc_pending := remove1 key (cc_pending c)\<rparr>;
               c = (if \<not> succeeded \<and> \<not> cc_stopping c then c\<lparr>cc_failures := cc_failures c + 1\<rparr> else c)
           in c\<lparr>cc_worker := (if cc_stopping c then Idle else Building None)\<rparr>)
      | _ \<Rightarrow> c)"

definition scan_end :: "CompressionCache \<Rightarrow> CompressionCache" where
  "scan_end c = (if cc_worker c = Building None then c\<lparr>cc_worker := Idle\<rparr> else c)"

definition cc_request_stop :: "CompressionCache \<Rightarrow> CompressionCache" where
  "cc_request_stop c = c\<lparr>cc_stopping := True, cc_running := False\<rparr>"

text \<open>The end of \<open>stop\<close>, after the worker was joined.\<close>

definition cc_joined :: "CompressionCache \<Rightarrow> CompressionCache" where
  "cc_joined c =
     (if cc_worker c = Gone \<and> cc_stopping c
      then c\<lparr>cc_jobs := [], cc_pending := [], cc_buildRequested := False, cc_resolver := None\<rparr> else c)"

text \<open>The end of \<open>start\<close>, once its checks passed.\<close>

definition cc_started ::
  "path \<Rightarrow> PathResolver option \<Rightarrow> u64 \<Rightarrow> u64 \<Rightarrow> CompressionCache \<Rightarrow> CompressionCache" where
  "cc_started canonicalCache resolver maxFileBytes maxBytes c =
     (if cc_worker c = Gone \<and> cc_stopping c \<and> cc_jobs c = [] \<and> cc_pending c = []
      then c\<lparr>cc_cachePath := canonicalCache, cc_resolver := resolver, cc_maxFileBytes := maxFileBytes,
             cc_maxBytes := maxBytes, cc_entries := 0, cc_bytes := 0,
             cc_hits := 0, cc_misses := 0, cc_failures := 0, cc_stopping := False,
             cc_buildRequested := False, cc_worker := Idle, cc_running := True\<rparr> else c)"

datatype cc_event =
    CLookup file_system file_system file_system CompressionSource
  | CRequestBuild | CTake | CFinish bool | CScanInsert string | CScanFinish bool | CScanEnd
  | CStop | CJoined | CStarted path "PathResolver option" u64 u64

fun cc_step :: "CompressionCache \<Rightarrow> cc_event \<Rightarrow> CompressionCache" where
  "cc_step c (CLookup f1 f2 f3 source) = snd (lookup f1 f2 f3 source c)"
| "cc_step c CRequestBuild = requestBuild c"
| "cc_step c CTake = run_take c"
| "cc_step c (CFinish b) = run_finish b c"
| "cc_step c (CScanInsert key) = scan_insert key c"
| "cc_step c (CScanFinish b) = scan_finish b c"
| "cc_step c CScanEnd = scan_end c"
| "cc_step c CStop = cc_request_stop c"
| "cc_step c CJoined = cc_joined c"
| "cc_step c (CStarted p r f m) = cc_started p r f m c"

section \<open>The queue\<close>

definition in_hand :: "CompressionCache \<Rightarrow> string list" where
  "in_hand c = (case cc_worker c of
       Compressing job \<Rightarrow> [jb_key job] | Building (Some key) \<Rightarrow> [key] | _ \<Rightarrow> [])"

text \<open>Every pending key belongs to exactly one queued job or to the worker's hands, and every job
  carries the identity and key of its source.\<close>

definition cc_inv :: "CompressionCache \<Rightarrow> bool" where
  "cc_inv c \<longleftrightarrow>
     length (cc_jobs c) \<le> kMaximumQueuedJobs \<and> distinct (cc_pending c) \<and>
     mset (cc_pending c) = mset (in_hand c @ map jb_key (cc_jobs c)) \<and>
     (\<forall>job \<in> set (cc_jobs c). jb_identity job = sourceIdentity (jb_source job) \<and>
        jb_key job = cacheKey (jb_identity job) \<and> eligible (jb_source job))"

lemma enqueue_inv:
  assumes "cc_inv c" "eligible source"
  shows "cc_inv (enqueue source (sourceIdentity source) (cacheKey (sourceIdentity source)) c)"
  using assms by (auto simp: cc_inv_def enqueue_def in_hand_def)

lemma lookup_inv:
  assumes "cc_inv c"
  shows "cc_inv (snd (lookup f1 f2 f3 source c))"
proof -
  have frame: "cc_inv (c\<lparr>cc_hits := h\<rparr>)" "cc_inv (c\<lparr>cc_misses := m\<rparr>)" for h m
    using assms by (simp_all add: cc_inv_def in_hand_def)
  then show ?thesis
    using assms enqueue_inv [OF frame(2)] by (simp add: lookup_def Let_def split: option.split)
qed

lemma run_take_inv: "cc_inv c \<Longrightarrow> cc_inv (run_take c)"
  by (cases "cc_jobs c") (auto simp: cc_inv_def run_take_def in_hand_def)

lemma run_finish_inv: "cc_inv c \<Longrightarrow> cc_inv (run_finish b c)"
  by (auto simp: cc_inv_def run_finish_def in_hand_def Let_def split: cc_worker.splits)

lemma scan_inv:
  "cc_inv c \<Longrightarrow> cc_inv (scan_insert key c)" "cc_inv c \<Longrightarrow> cc_inv (scan_finish b c)"
  "cc_inv c \<Longrightarrow> cc_inv (scan_end c)"
  by (auto simp: cc_inv_def scan_insert_def scan_finish_def scan_end_def in_hand_def Let_def
      split: cc_worker.splits option.splits)

lemma cc_inv_step: "cc_inv c \<Longrightarrow> cc_inv (cc_step c e)"
proof (induction c e rule: cc_step.induct)
  case (9 c)
  then show ?case by (auto simp: cc_inv_def cc_joined_def in_hand_def)
next
  case (10 c p r f m)
  then show ?case by (auto simp: cc_inv_def cc_started_def in_hand_def)
qed (simp_all add: lookup_inv run_take_inv run_finish_inv scan_inv,
     simp_all add: cc_inv_def requestBuild_def cc_request_stop_def in_hand_def)

interpretation cc: transition_system cc_init cc_step cc_inv
proof unfold_locales
  show "cc_inv cc_init" by (simp add: cc_inv_def cc_init_def in_hand_def)
qed (rule cc_inv_step)

section \<open>Identities name one version\<close>

definition proper_path :: "path \<Rightarrow> bool" where
  "proper_path p \<longleftrightarrow> p \<noteq> [] \<and> hd p = ''/'' \<and>
     list_all (\<lambda>n. n \<noteq> [] \<and> CHR ''/'' \<notin> set n \<and> CHR 0x0A \<notin> set n) (tl p)"

lemma path_text_segments:
  assumes "proper_path p"
  shows "tl p = filter (\<lambda>n. n \<noteq> []) (segments CHR ''/'' (path_text p))"
proof (cases "tl p")
  case Nil
  then show ?thesis by (simp add: path_text_def)
next
  case (Cons n ns)
  have slash: "list_all (\<lambda>n. CHR ''/'' \<notin> set n) (n # ns)" and ne: "\<forall>m \<in> set (n # ns). m \<noteq> []"
    using assms Cons by (auto simp: proper_path_def list_all_iff)
  have "path_text p = CHR ''/'' # (n @ url_of ns)" using Cons by (simp add: path_text_def url_of_def)
  with segments_url_of [OF slash] have "segments CHR ''/'' (path_text p) = [] # n # ns" by simp
  with Cons ne show ?thesis by simp
qed

lemma path_text_inject:
  assumes "proper_path p" "proper_path q" "path_text p = path_text q"
  shows "p = q"
proof -
  have "tl p = tl q" using path_text_segments [OF assms(1)] path_text_segments [OF assms(2)] assms(3) by simp
  with assms(1,2) show ?thesis by (cases p; cases q) (auto simp: proper_path_def)
qed

lemma path_text_no_newline: "proper_path p \<Longrightarrow> CHR 0x0A \<notin> set (path_text p)"
  by (auto simp: proper_path_def path_text_def list_all_iff)

lemma to_string_no_newline: "CHR 0x0A \<notin> set (to_string n)"
  using to_string_digits [of n] by (auto simp: list_all_iff is_digit_def)

lemma to_string_inject: "to_string m = to_string n \<Longrightarrow> m = n"
  by (metis to_string_value)

lemma identity_prefix:
  assumes "proper_path (cs_path s)" "proper_path (cs_path t)"
    and "sourceIdentity s @ rest = sourceIdentity t"
  shows "cs_path s = cs_path t \<and> fi_size (cs_info s) = fi_size (cs_info t) \<and>
    modifiedIdentity (cs_info s) = modifiedIdentity (cs_info t) \<and>
    fileIdentity (cs_info s) = fileIdentity (cs_info t)"
proof -
  note sep = append_sep_inject [OF path_text_no_newline path_text_no_newline]
    append_sep_inject [OF to_string_no_newline to_string_no_newline]
  have "path_text (cs_path s) = path_text (cs_path t)"
    "to_string (unat (fi_size (cs_info s))) = to_string (unat (fi_size (cs_info t)))"
    "to_string (unat (modifiedIdentity (cs_info s))) = to_string (unat (modifiedIdentity (cs_info t)))"
    "to_string (unat (fileIdentity (cs_info s))) = to_string (unat (fileIdentity (cs_info t)))"
    using assms(3) by (auto simp: sourceIdentity_def sep assms(1,2))
  with assms(1,2) show ?thesis
    by (auto dest!: to_string_inject intro: path_text_inject simp: word_unat_eq_iff)
qed

lemma markerMatches_bytes:
  assumes "markerMatches fs p identity"
  shows "regularArtifact fs p \<and> (\<exists>stored rest. read_bytes fs p = Some stored \<and> stored = identity @ rest)"
proof -
  obtain stored where s: "regularArtifact fs p" "read_bytes fs p = Some stored"
    "take (length identity) stored = identity"
    using assms by (auto simp: markerMatches_def split: if_splits sum.splits option.splits)
  then have "stored = identity @ drop (length identity) stored" by (metis append_take_drop_id)
  with s show ?thesis by blast
qed

section \<open>Properties\<close>

text \<open>C26. A cached representation is served only for the version of the source it was made from.
  When \<open>lookup\<close> reports a hit, the cache runs and the source is eligible; the artifact is a
  regular file of the cache directory, of the reported size and at least 18 bytes; and the
  marker beside it is a regular file: if it was written for some source version (with paths
  free of line breaks), then that version has the same path, size, modification and file
  identity as the one asked for.\<close>

theorem lookup_hit_same_version:
  assumes "lookup fsMeta fsGz fsSkip source c = (Some cached, c')"
    and "read_bytes fsMeta (cc_cachePath c @ [cacheKey (sourceIdentity source) @ ''.meta'']) =
      Some (sourceIdentity made)"
    and "proper_path (cs_path source)" "proper_path (cs_path made)"
  shows "cc_running c \<and> eligible source \<and>
    cr_path cached = cc_cachePath c @ [cacheKey (sourceIdentity source) @ ''.gz''] \<and>
    regularArtifact fsGz (cr_path cached) \<and> file_size fsGz (cr_path cached) = Inr (cr_size cached) \<and>
    18 \<le> cr_size cached \<and> c' = c\<lparr>cc_hits := cc_hits c + 1\<rparr> \<and>
    cs_path source = cs_path made \<and> fi_size (cs_info source) = fi_size (cs_info made) \<and>
    modifiedIdentity (cs_info source) = modifiedIdentity (cs_info made) \<and>
    fileIdentity (cs_info source) = fileIdentity (cs_info made)"
proof -
  let ?key = "cacheKey (sourceIdentity source)"
  let ?gz = "cc_cachePath c @ [?key @ ''.gz'']" and ?meta = "cc_cachePath c @ [?key @ ''.meta'']"
  have run: "cc_running c" "eligible source"
    using assms(1) by (auto simp: lookup_def split: if_splits)
  have hit: "markerMatches fsMeta ?meta (sourceIdentity source)" "regularArtifact fsGz ?gz"
    "file_size fsGz ?gz = Inr (cr_size cached)" "18 \<le> cr_size cached" "cr_path cached = ?gz"
    "c' = c\<lparr>cc_hits := cc_hits c + 1\<rparr>"
    using assms(1) run by (auto simp: lookup_def Let_def split: if_splits sum.splits)
  from markerMatches_bytes [OF hit(1)] assms(2) obtain rest
    where "sourceIdentity source @ rest = sourceIdentity made" by auto
  from identity_prefix [OF assms(3,4) this] run hit show ?thesis by simp
qed

text \<open>C27. Work is queued once and bounded: in every history of look-ups, builds, worker steps,
  stops and starts at most 1024 jobs wait, no two of them have the same key, none has the key
  of the file the worker is busy with, and every job is eligible and carries the identity and
  key of its source.\<close>

theorem cache_work_unique:
  fixes es
  defines "c \<equiv> foldl cc_step cc_init es"
  shows "length (cc_jobs c) \<le> kMaximumQueuedJobs \<and>
    distinct (in_hand c @ map jb_key (cc_jobs c)) \<and>
    set (cc_pending c) = set (in_hand c @ map jb_key (cc_jobs c)) \<and>
    list_all (\<lambda>job. jb_identity job = sourceIdentity (jb_source job) \<and>
      jb_key job = cacheKey (jb_identity job) \<and> eligible (jb_source job)) (cc_jobs c)"
proof -
  have inv: "cc_inv c" unfolding c_def by (rule cc.inv_reachable)
  then have "mset (cc_pending c) = mset (in_hand c @ map jb_key (cc_jobs c))" by (simp add: cc_inv_def)
  then have "distinct (in_hand c @ map jb_key (cc_jobs c))"
    "set (cc_pending c) = set (in_hand c @ map jb_key (cc_jobs c))"
    using inv mset_eq_setD mset_eq_imp_distinct_iff unfolding cc_inv_def by blast+
  with inv show ?thesis by (auto simp: cc_inv_def list_all_iff)
qed

definition sample_source :: CompressionSource where
  "sample_source = \<lparr>cs_path = [''/'', ''m.bsp''], cs_extension = ''.bsp'',
     cs_info = \<lparr>fi_size = 2048, modifiedSeconds = 1, modifiedIdentity = 5, fileIdentity = 7\<rparr>\<rparr>"

definition sample_cache_fs :: file_system where
  "sample_cache_fs = \<lparr>
     fs_tree = map_of [
       ([], Directory (1, 2) [''c''] True),
       ([''c''], Directory (1, 3) [] True),
       ([''c'', cacheKey (sourceIdentity sample_source) @ ''.meta''], Regular (1, 4)),
       ([''c'', cacheKey (sourceIdentity sample_source) @ ''.gz''], Regular (1, 5))],
     fs_inode = (\<lambda>i. \<lparr>st_bytes = (if i = (1, 4) then sourceIdentity sample_source else ''01234567890123456789''),
       st_mtim_sec = 0, st_mtim_nsec = 0, st_readable = True\<rparr>)\<rparr>"

lemma sample_cache_paths:
  defines "k \<equiv> cacheKey (sourceIdentity sample_source)"
  shows "stat sample_cache_fs [''/'', ''c'', k @ ''.meta''] = Inr (Regular (1, 4))"
    "stat sample_cache_fs [''/'', ''c'', k @ ''.gz''] = Inr (Regular (1, 5))"
    "lstat sample_cache_fs [''/'', ''c'', k @ ''.meta''] = Inr (Regular (1, 4))"
    "lstat sample_cache_fs [''/'', ''c'', k @ ''.gz''] = Inr (Regular (1, 5))"
proof -
  have dot: "\<not> dot_name ''c''" "\<not> dot_name (k @ ''.meta'')" "\<not> dot_name (k @ ''.gz'')"
    by (cases k; simp add: dot_name_def)+
  have root: "lookup_in sample_cache_fs [] ''c'' = Inr (Directory (1, 3) [] True)"
    by (simp add: lookup_in_def tree_at_def sample_cache_fs_def)
  have files: "lookup_in sample_cache_fs [''c''] (k @ ''.meta'') = Inr (Regular (1, 4))"
    "lookup_in sample_cache_fs [''c''] (k @ ''.gz'') = Inr (Regular (1, 5))"
    by (simp_all add: lookup_in_def tree_at_def sample_cache_fs_def k_def)
  have c: "resolved sample_cache_fs [''c'']"
    using resolved_snoc [of sample_cache_fs "[]" "''c''"] dot(1) root by (simp add: enters_def)
  have res: "resolved sample_cache_fs ([''c''] @ [k @ ''.meta''])" "resolved sample_cache_fs ([''c''] @ [k @ ''.gz''])"
    unfolding resolved_snoc using dot root files c by (simp_all add: enters_def)
  note tree = lookup_in_tree [OF files(1)] lookup_in_tree [OF files(2)]
  show "stat sample_cache_fs [''/'', ''c'', k @ ''.meta''] = Inr (Regular (1, 4))"
    "stat sample_cache_fs [''/'', ''c'', k @ ''.gz''] = Inr (Regular (1, 5))"
    "lstat sample_cache_fs [''/'', ''c'', k @ ''.meta''] = Inr (Regular (1, 4))"
    "lstat sample_cache_fs [''/'', ''c'', k @ ''.gz''] = Inr (Regular (1, 5))"
    using stat_resolved [OF res(1)] stat_resolved [OF res(2)] lstat_resolved [OF res(1)]
      lstat_resolved [OF res(2)] tree by simp_all
qed

theorem lookup_hit_same_version_witness:
  "\<exists>cached. fst (lookup sample_cache_fs sample_cache_fs sample_cache_fs sample_source
      (cc_started [''/'', ''c''] None 0 1000000 cc_init)) = Some cached \<and> 18 \<le> cr_size cached"
proof -
  let ?c = "cc_started [''/'', ''c''] None 0 1000000 cc_init"
  let ?l = "lookup sample_cache_fs sample_cache_fs sample_cache_fs sample_source ?c"
  let ?k = "cacheKey (sourceIdentity sample_source)"
  have c: "cc_cachePath ?c = [''/'', ''c'']" "cc_running ?c" by (simp_all add: cc_started_def cc_init_def)
  have el: "eligible sample_source" by (simp add: eligible_def sample_source_def)
  have bytes: "st_bytes (fs_inode sample_cache_fs (1, 4)) = sourceIdentity sample_source"
    "st_readable (fs_inode sample_cache_fs (1, 4))" "inode_size sample_cache_fs (1, 5) = 20"
    "inode_size sample_cache_fs (1, 4) = of_nat (length (sourceIdentity sample_source))"
    by (simp_all add: sample_cache_fs_def inode_size_def)
  note paths = sample_cache_paths
  have r: "read_bytes sample_cache_fs (cc_cachePath ?c @ [?k @ ''.meta'']) = Some (sourceIdentity sample_source)"
    by (simp add: c read_bytes_def openReadFile_def paths bytes)
  then have "markerMatches sample_cache_fs (cc_cachePath ?c @ [?k @ ''.meta'']) (sourceIdentity sample_source)"
    by (simp add: c markerMatches_def regularArtifact_def file_size_def paths bytes)
  then have "fst ?l \<noteq> None"
    by (simp add: lookup_def c el Let_def regularArtifact_def file_size_def paths bytes)
  then obtain cached c' where l: "?l = (Some cached, c')" by (metis option.exhaust prod.collapse)
  have "proper_path (cs_path sample_source)" by code_simp
  with lookup_hit_same_version [OF l r] l show ?thesis by auto
qed

end
