(* ===== verification/Server.thy ===== *)
theory Server
  imports Rate_Limiter Transfer_Metrics Bandwidth_Limiter Logger Compression_Cache
begin

text \<open>
  The request path of \<^verbatim>\<open>fastdl_server.cpp\<close>: how a request is read, checked against the limiters
  and the resolver, answered, transferred and accounted for. Starting and stopping the server
  are in \<open>Server_Lifecycle\<close>.

  libmicrohttpd is a parameter. What it tells about a request is the record \<open>connection\<close>; what
  its calls answer is part of the record \<open>exchange\<close>, together with the file system states the
  queries of the request meet and the clock readings. A response that is queued is appended to
  \<open>io_queued\<close>; destroying the last reference to a callback response runs \<open>fileReaderFree\<close>, as
  its documentation says. Open descriptors are counted in the multiset \<open>sv_files\<close>. Exceptions
  (memory exhaustion) are not modelled.
\<close>

section \<open>State\<close>

record FastdlConfig =
  cf_enabled :: bool
  cf_bindAddress :: string
  cf_port :: u16
  cf_root :: path
  cf_baseDir :: path
  cf_serveDirs :: string
  cf_serveTypes :: string
  cf_serveRootTypes :: string
  cf_maxFileBytes :: u64
  cf_threads :: u32
  cf_maxConnections :: u32
  cf_maxConnectionsPerIp :: u32
  cf_connectionTimeoutSeconds :: u32
  cf_requestsPerMinute :: u32
  cf_denialsPerMinute :: u32
  cf_blockSeconds :: u32
  cf_bandwidthMaxMbps :: double
  cf_bandwidthIpMbps :: double
  cf_steamOnly :: bool
  cf_gzip :: bool
  cf_gzipCache :: bool
  cf_gzipCachePath :: path
  cf_gzipCacheMaxBytes :: u64
  cf_autoDownloadUrl :: bool
  cf_publicUrl :: string
  cf_logPath :: path
  cf_logAgeDays :: u32

definition default_config :: FastdlConfig where
  "default_config =
     \<lparr>cf_enabled = True, cf_bindAddress = ''0.0.0.0'', cf_port = 0, cf_root = [], cf_baseDir = [],
      cf_serveDirs = ''sprites,sound,sounds,overviews,models,maps,gfx'',
      cf_serveTypes = ''bsp,nav,res,wad,mdl,spr,wav,mp3,bmp,tga,txt,htm,html,gz,bz2'',
      cf_serveRootTypes = ''wad'', cf_maxFileBytes = 250 * 1024 * 1024,
      cf_threads = 1, cf_maxConnections = 64, cf_maxConnectionsPerIp = 32,
      cf_connectionTimeoutSeconds = 30, cf_requestsPerMinute = 500, cf_denialsPerMinute = 36,
      cf_blockSeconds = 180, cf_bandwidthMaxMbps = Finite 0, cf_bandwidthIpMbps = Finite 0,
      cf_steamOnly = True, cf_gzip = False, cf_gzipCache = True,
      cf_gzipCachePath = [''fastdl_cache''], cf_gzipCacheMaxBytes = 256 * 1024 * 1024,
      cf_autoDownloadUrl = False, cf_publicUrl = [],
      cf_logPath = [''logs'', ''fastdl'', ''fastdl.log''], cf_logAgeDays = 7\<rparr>"

record RequestState =
  rq_handled :: bool
  rq_invalidTarget :: bool
  rq_fileResponse :: bool
  rq_activeTransfer :: bool
  rq_status :: nat
  rq_responseSize :: u64
  rq_bytesSupplied :: u64
  rq_ip :: string
  rq_method :: string
  rq_url :: string
  rq_userAgent :: string
  rq_reason :: string

definition new_request :: RequestState where
  "new_request = \<lparr>rq_handled = False, rq_invalidTarget = False, rq_fileResponse = False,
     rq_activeTransfer = False, rq_status = 0, rq_responseSize = 0, rq_bytesSupplied = 0,
     rq_ip = [], rq_method = [], rq_url = [], rq_userAgent = [], rq_reason = []\<rparr>"

record FastdlServer =
  sv_daemon :: bool
  sv_logging :: bool
  sv_logBase :: path
  sv_config :: FastdlConfig
  sv_resolver :: PathResolver
  sv_limiter :: rate_limiter
  sv_bandwidth :: BandwidthLimiter
  sv_metrics :: TransferMetrics
  sv_compression :: CompressionCache
  sv_compressionError :: string
  sv_logger :: AsyncLogger
  sv_files :: "descriptor multiset"

record TransferContext =
  tc_fd :: descriptor
  tc_sourceOffset :: u64
  tc_length :: u64
  tc_lease :: "client_ref option"

datatype body = Buffer string | Callback TransferContext

record response =
  rs_body :: body
  rs_headers :: "(string \<times> string) list"

text \<open>The client's socket address, and the header fields of the request.\<close>

datatype sockaddr = IPv4 u32 | OtherFamily

record connection =
  cn_address :: "sockaddr option"
  cn_header :: "string \<Rightarrow> string option"

record exchange =
  ex_blockedNow :: int
  ex_requestNow :: int
  ex_denialNow :: int
  ex_attachNow :: int
  ex_resolveFs :: file_system
  ex_entryFs :: file_system
  ex_sizeFs :: file_system
  ex_openFs :: file_system
  ex_inspectFs :: file_system
  ex_metaFs :: file_system
  ex_gzFs :: file_system
  ex_skipFs :: file_system
  ex_cacheOpenFs :: file_system
  ex_cacheInspectFs :: file_system
  ex_create :: "body \<Rightarrow> bool"
  ex_addHeader :: "response \<Rightarrow> string \<Rightarrow> string \<Rightarrow> bool"
  ex_queue :: "nat \<Rightarrow> response \<Rightarrow> bool"

text \<open>What a handler works on: the server, the state of its request, and the responses it queued
  on its connection.\<close>

record request_io =
  io_server :: FastdlServer
  io_state :: RequestState
  io_queued :: "(nat \<times> response) list"

section \<open>Reading the request\<close>

text \<open>\<open>inet_ntop\<close> prints the four bytes of an address in decimal.\<close>

definition inet_ntop :: "u32 \<Rightarrow> string" where
  "inet_ntop a =
     to_string (unat (drop_bit 24 a)) @ ''.'' @ to_string (unat (drop_bit 16 a AND 255)) @ ''.'' @
     to_string (unat (drop_bit 8 a AND 255)) @ ''.'' @ to_string (unat (a AND 255))"

definition clientIp :: "connection \<Rightarrow> string" where
  "clientIp cn =
     (case cn_address cn of
        None \<Rightarrow> ''unknown''
      | Some (IPv4 a) \<Rightarrow> inet_ntop a
      | Some OtherFamily \<Rightarrow> ''unknown'')"

definition header :: "connection \<Rightarrow> string \<Rightarrow> nat \<Rightarrow> string" where
  "header cn name maxLength =
     (case boundedCopy (cn_header cn name) maxLength of (ok, result) \<Rightarrow> if ok then result else [])"

section \<open>Answering\<close>

text \<open>\<open>addHeader(...) && addHeader(...) && ...\<close> on a fresh response.\<close>

fun add_headers :: "exchange \<Rightarrow> (string \<times> string) list \<Rightarrow> response \<Rightarrow> response option" where
  "add_headers ex [] r = Some r"
| "add_headers ex ((name, value) # hs) r =
     (if ex_addHeader ex r name value
      then add_headers ex hs (r\<lparr>rs_headers := rs_headers r @ [(name, value)]\<rparr>) else None)"

text \<open>Create a response from a buffer, add its headers, queue it.\<close>

definition respond_buffer ::
  "exchange \<Rightarrow> nat \<Rightarrow> string \<Rightarrow> (string \<times> string) list \<Rightarrow> request_io \<Rightarrow> bool \<times> request_io" where
  "respond_buffer ex status text hs w =
     (if \<not> ex_create ex (Buffer text) then (False, w)
      else (case add_headers ex hs \<lparr>rs_body = Buffer text, rs_headers = []\<rparr> of
          None \<Rightarrow> (False, w)
        | Some r \<Rightarrow> if ex_queue ex status r
                     then (True, w\<lparr>io_queued := io_queued w @ [(status, r)]\<rparr>) else (False, w)))"

definition note_answer :: "bool \<Rightarrow> nat \<Rightarrow> u64 \<Rightarrow> string \<Rightarrow> request_io \<Rightarrow> request_io" where
  "note_answer fileResponse status n reason w =
     w\<lparr>io_state := (io_state w)\<lparr>rq_fileResponse := fileResponse, rq_status := status,
         rq_responseSize := n, rq_reason := reason\<rparr>\<rparr>"

definition plain_headers :: "(string \<times> string) list" where
  "plain_headers = [(''Content-Type'', ''text/plain; charset=utf-8''), (''Cache-Control'', ''no-store'')]"

definition respondText ::
  "exchange \<Rightarrow> nat \<Rightarrow> string \<Rightarrow> string \<Rightarrow> request_io \<Rightarrow> bool \<times> request_io" where
  "respondText ex status text reason w =
     respond_buffer ex status text plain_headers
       (note_answer False status (of_nat (length text)) reason w)"

definition range_error_body :: string where
  "range_error_body = ''416 Range Not Satisfiable'' @ [CHR 0x0A]"

definition respondRangeError :: "exchange \<Rightarrow> u64 \<Rightarrow> request_io \<Rightarrow> bool \<times> request_io" where
  "respondRangeError ex totalSize w =
     respond_buffer ex 416 range_error_body
       (plain_headers @ [(''Accept-Ranges'', ''bytes''),
          (''Content-Range'', ''bytes */'' @ to_string (unat totalSize))])
       (note_answer False 416 (of_nat (length range_error_body)) ''invalid or unsatisfiable range'' w)"

definition forbidden_body :: string where "forbidden_body = ''403 Forbidden'' @ [CHR 0x0A]"
definition not_found_body :: string where "not_found_body = ''404 Not Found'' @ [CHR 0x0A]"
definition server_error_body :: string where "server_error_body = ''500 Internal Server Error'' @ [CHR 0x0A]"

definition on_limiter :: "(rate_limiter \<Rightarrow> rate_limiter) \<Rightarrow> request_io \<Rightarrow> request_io" where
  "on_limiter f w = w\<lparr>io_server := (io_server w)\<lparr>sv_limiter := f (sv_limiter (io_server w))\<rparr>\<rparr>"

definition on_metrics :: "(TransferMetrics \<Rightarrow> TransferMetrics) \<Rightarrow> request_io \<Rightarrow> request_io" where
  "on_metrics f w = w\<lparr>io_server := (io_server w)\<lparr>sv_metrics := f (sv_metrics (io_server w))\<rparr>\<rparr>"

definition on_files :: "(descriptor multiset \<Rightarrow> descriptor multiset) \<Rightarrow> request_io \<Rightarrow> request_io" where
  "on_files f w = w\<lparr>io_server := (io_server w)\<lparr>sv_files := f (sv_files (io_server w))\<rparr>\<rparr>"

definition deny :: "exchange \<Rightarrow> string \<Rightarrow> bool \<Rightarrow> request_io \<Rightarrow> bool \<times> request_io" where
  "deny ex reason strike w =
     (let cfg = sv_config (io_server w);
          w = (if strike
               then on_limiter (recordDenial (rq_ip (io_state w)) (cf_denialsPerMinute cfg)
                      (cf_blockSeconds cfg) (ex_denialNow ex)) w
               else w)
      in respondText ex 403 forbidden_body reason w)"

section \<open>Transfers\<close>

text \<open>Deleting a transfer context closes its descriptor and drops its lease.\<close>

definition fileReaderFree :: "TransferContext \<Rightarrow> FastdlServer \<Rightarrow> FastdlServer" where
  "fileReaderFree ctx sv =
     sv\<lparr>sv_files := sv_files sv - {#tc_fd ctx#},
        sv_bandwidth := release_lease (tc_lease ctx) (sv_bandwidth sv)\<rparr>"

definition free_context :: "TransferContext \<Rightarrow> request_io \<Rightarrow> request_io" where
  "free_context ctx w = w\<lparr>io_server := fileReaderFree ctx (io_server w)\<rparr>"

datatype reader_result = Supplied string | END_OF_STREAM | END_WITH_ERROR

text \<open>The moments and answers of one call of the reader: the limiter's clock and whether it was
  stopped during and after the wait, the file system at the read and how short the read falls,
  and the second the metrics see.\<close>

record read_call =
  rc_now :: int
  rc_stopInWait :: bool
  rc_stopAtExit :: bool
  rc_fs :: file_system
  rc_short :: nat
  rc_second :: int

definition fileReader ::
  "TransferContext \<Rightarrow> read_call \<Rightarrow> u64 \<Rightarrow> size_t \<Rightarrow> RequestState \<Rightarrow> FastdlServer \<Rightarrow>
     reader_result \<times> RequestState \<times> FastdlServer" where
  "fileReader ctx rc pos n st sv =
     (if pos \<ge> tc_length ctx then (END_OF_STREAM, st, sv)
      else
        (let remaining = tc_length ctx - pos;
             requested = ucast (min remaining (ucast n)) :: size_t;
             (granted, allowed, bw) =
               acquire (tc_lease ctx) requested (rc_now rc) (rc_stopInWait rc) (rc_stopAtExit rc)
                 (sv_bandwidth sv);
             sv = sv\<lparr>sv_bandwidth := bw\<rparr>
         in if granted = 0 then (END_WITH_ERROR, st, sv)
            else if tc_sourceOffset ctx > UINT64_MAX - pos then (END_WITH_ERROR, st, sv)
            else (case readFileAt (rc_fs rc) (tc_fd ctx) (tc_sourceOffset ctx + pos) granted (rc_short rc) of
                None \<Rightarrow> (END_WITH_ERROR, st, sv)
              | Some [] \<Rightarrow> (END_WITH_ERROR, st, sv)
              | Some bs \<Rightarrow>
                  (Supplied bs,
                   st\<lparr>rq_bytesSupplied := rq_bytesSupplied st + of_nat (length bs)\<rparr>,
                   sv\<lparr>sv_metrics := bytesSupplied (of_nat (length bs)) (rc_second rc) (sv_metrics sv)\<rparr>))))"

section \<open>Serving a file\<close>

text \<open>The range a request asks for, after \<open>If-Range\<close>.\<close>

definition effective_range :: "connection \<Rightarrow> exchange \<Rightarrow> OpenedFileInfo \<Rightarrow> ByteRange" where
  "effective_range cn ex opened =
     (let range = parseRange (header cn ''Range'' 256) (fi_size opened)
      in if br_status range = RangeValid \<and>
            \<not> ifRangeMatches (header cn ''If-Range'' 512) (makeEtag opened False)
                (modifiedSeconds opened)
         then no_range else range)"

text \<open>The cached gzip representation instead of the file, when the client takes it: the descriptor
  and length to send, and whether it is the compressed one.\<close>

definition choose_representation ::
  "connection \<Rightarrow> exchange \<Rightarrow> ResolvedFile \<Rightarrow> OpenedFileInfo \<Rightarrow> bool \<Rightarrow> descriptor \<Rightarrow> u64 \<Rightarrow> request_io \<Rightarrow>
     descriptor \<times> u64 \<times> bool \<times> request_io" where
  "choose_representation cn ex f opened partial fd len w =
     (if \<not> partial \<and> cf_gzip (sv_config (io_server w)) \<and> cf_gzipCache (sv_config (io_server w)) \<and>
         acceptsGzip (header cn ''Accept-Encoding'' 1024) then
        (case lookup (ex_metaFs ex) (ex_gzFs ex) (ex_skipFs ex)
                \<lparr>cs_path = rf_path f, cs_extension = rf_extension f, cs_info = opened\<rparr>
                (sv_compression (io_server w)) of (hit, cache) \<Rightarrow>
           (let w = w\<lparr>io_server := (io_server w)\<lparr>sv_compression := cache\<rparr>\<rparr>
            in case hit of
                 None \<Rightarrow> (fd, len, False, w)
               | Some cached \<Rightarrow>
                   (case openReadFile (ex_cacheOpenFs ex) (cr_path cached) of
                      None \<Rightarrow> (fd, len, False, w)
                    | Some cfd \<Rightarrow>
                        (let w = on_files (add_mset cfd) w
                         in case inspectReadFile (ex_cacheInspectFs ex) cfd (cr_path cached) of
                              None \<Rightarrow> (fd, len, False, on_files (\<lambda>F. F - {#cfd#}) w)
                            | Some info \<Rightarrow>
                                if fi_size info = cr_size cached
                                then (cfd, fi_size info, True, on_files (\<lambda>F. F - {#fd#}) w)
                                else (fd, len, False, on_files (\<lambda>F. F - {#cfd#}) w)))))
      else (fd, len, False, w))"

definition not_modified :: "connection \<Rightarrow> exchange \<Rightarrow> OpenedFileInfo \<Rightarrow> string \<Rightarrow> bool" where
  "not_modified cn ex opened etag =
     (let ifNoneMatch = header cn ''If-None-Match'' 2048
      in if ifNoneMatch = [] then
           (case parseHttpDate (header cn ''If-Modified-Since'' 128) of
              None \<Rightarrow> False
            | Some condition \<Rightarrow> modifiedSeconds opened \<le> condition)
         else etagMatches ifNoneMatch etag)"

text \<open>The 304 answer. Its request state is set only once the headers are in place.\<close>

definition not_modified_headers :: "FastdlConfig \<Rightarrow> string \<Rightarrow> string \<Rightarrow> bool \<Rightarrow> (string \<times> string) list" where
  "not_modified_headers cfg etag lastModified compressed =
     [(''Accept-Ranges'', ''bytes''), (''Cache-Control'', ''public, max-age=86400''),
      (''ETag'', etag), (''Last-Modified'', lastModified)] @
     (if cf_gzip cfg then [(''Vary'', ''Accept-Encoding'')] else []) @
     (if compressed then [(''Content-Encoding'', ''gzip'')] else [])"

definition respond_not_modified ::
  "exchange \<Rightarrow> string \<Rightarrow> string \<Rightarrow> bool \<Rightarrow> request_io \<Rightarrow> bool \<times> request_io" where
  "respond_not_modified ex etag lastModified compressed w =
     (if \<not> ex_create ex (Buffer []) then (False, w)
      else (case add_headers ex (not_modified_headers (sv_config (io_server w)) etag lastModified compressed)
                   \<lparr>rs_body = Buffer [], rs_headers = []\<rparr> of
          None \<Rightarrow> (False, w)
        | Some r \<Rightarrow>
            (let w = note_answer True 304 0 ''not modified'' w
             in if ex_queue ex 304 r then (True, w\<lparr>io_queued := io_queued w @ [(304, r)]\<rparr>)
                else (False, w))))"

definition file_headers ::
  "FastdlConfig \<Rightarrow> ResolvedFile \<Rightarrow> OpenedFileInfo \<Rightarrow> string \<Rightarrow> bool \<Rightarrow> bool \<Rightarrow> u64 \<Rightarrow> u64 \<Rightarrow>
     (string \<times> string) list" where
  "file_headers cfg f opened etag compressed partial offset len =
     [(''Content-Type'', contentType (rf_extension f)), (''Cache-Control'', ''public, max-age=86400''),
      (''Accept-Ranges'', ''bytes''), (''ETag'', etag),
      (''Last-Modified'', httpDate (modifiedSeconds opened))] @
     (if cf_gzip cfg then [(''Vary'', ''Accept-Encoding'')] else []) @
     (if compressed then [(''Content-Encoding'', ''gzip'')] else []) @
     (if partial
      then [(''Content-Range'', ''bytes '' @ to_string (unat offset) @ ''-'' @
               to_string (unat (offset + len - 1)) @ ''/'' @ to_string (unat (fi_size opened)))]
      else [])"

text \<open>The file answer. The descriptor passes to the transfer context, which dies with the response
  unless the response was queued.\<close>

definition respond_file ::
  "exchange \<Rightarrow> ResolvedFile \<Rightarrow> OpenedFileInfo \<Rightarrow> string \<Rightarrow> bool \<Rightarrow> bool \<Rightarrow> u64 \<Rightarrow> u64 \<Rightarrow> descriptor \<Rightarrow>
     request_io \<Rightarrow> bool \<times> request_io" where
  "respond_file ex f opened etag compressed partial offset len fd w =
     (let sv = io_server w; st = io_state w; isGet = (rq_method st = ''GET'');
          (lease, bw) = (if isGet then attach (rq_ip st) (ex_attachNow ex) (sv_bandwidth sv)
                         else (None, sv_bandwidth sv));
          ctx = \<lparr>tc_fd = fd, tc_sourceOffset = offset, tc_length = len, tc_lease = lease\<rparr>;
          status = (if partial then 206 else 200);
          w = w\<lparr>io_server := sv\<lparr>sv_bandwidth := bw\<rparr>\<rparr>
      in if \<not> ex_create ex (Callback ctx) then (False, free_context ctx w)
         else (case add_headers ex (file_headers (sv_config sv) f opened etag compressed partial offset len)
                 \<lparr>rs_body = Callback ctx, rs_headers = []\<rparr> of
             None \<Rightarrow> (False, free_context ctx w)
           | Some r \<Rightarrow>
               if \<not> ex_queue ex status r then (False, free_context ctx w)
               else
                 (let w = note_answer True status len [] (w\<lparr>io_queued := io_queued w @ [(status, r)]\<rparr>)
                  in if isGet
                     then (True, on_metrics transferStarted
                             (w\<lparr>io_state := (io_state w)\<lparr>rq_activeTransfer := True\<rparr>\<rparr>))
                     else (True, w))))"

definition serve_opened ::
  "connection \<Rightarrow> exchange \<Rightarrow> ResolvedFile \<Rightarrow> descriptor \<Rightarrow> OpenedFileInfo \<Rightarrow> request_io \<Rightarrow>
     bool \<times> request_io" where
  "serve_opened cn ex f fd opened w =
     (let range = effective_range cn ex opened
      in if br_status range = RangeInvalid \<or> br_status range = RangeUnsatisfiable
         then apsnd (on_files (\<lambda>F. F - {#fd#})) (respondRangeError ex (fi_size opened) w)
         else
           (let partial = (br_status range = RangeValid);
                (fd, len, compressed, w) =
                  choose_representation cn ex f opened partial fd
                    (if partial then br_length range else fi_size opened) w;
                etag = makeEtag opened compressed
            in if not_modified cn ex opened etag
               then apsnd (on_files (\<lambda>F. F - {#fd#}))
                      (respond_not_modified ex etag (httpDate (modifiedSeconds opened)) compressed w)
               else respond_file ex f opened etag compressed partial
                      (if partial then br_start range else 0) len fd w))"

definition serveFile ::
  "connection \<Rightarrow> exchange \<Rightarrow> ResolvedFile \<Rightarrow> request_io \<Rightarrow> bool \<times> request_io" where
  "serveFile cn ex f w =
     (case openReadFile (ex_openFs ex) (rf_path f) of
        None \<Rightarrow> (False, w)
      | Some fd \<Rightarrow>
          (let w = on_files (add_mset fd) w
           in case inspectReadFile (ex_inspectFs ex) fd (rf_path f) of
                None \<Rightarrow> (False, on_files (\<lambda>F. F - {#fd#}) w)
              | Some opened \<Rightarrow>
                  if fi_size opened > cf_maxFileBytes (sv_config (io_server w))
                  then apsnd (on_files (\<lambda>F. F - {#fd#}))
                         (respondText ex 403 forbidden_body ''file too large'' w)
                  else serve_opened cn ex f fd opened w))"

section \<open>Handlers\<close>

text \<open>The part of \<open>dispatch\<close> after the limiters let the request through.\<close>

definition dispatch_target :: "connection \<Rightarrow> exchange \<Rightarrow> request_io \<Rightarrow> bool \<times> request_io" where
  "dispatch_target cn ex w =
     (let f = resolve (sv_resolver (io_server w)) (ex_resolveFs ex) (ex_entryFs ex) (ex_sizeFs ex)
                (Some (rq_url (io_state w))) (cf_maxFileBytes (sv_config (io_server w)))
      in case rf_status f of
           Ok \<Rightarrow>
             (case serveFile cn ex f w of (ok, w) \<Rightarrow>
                if \<not> ok
                then respondText ex 500 server_error_body ''open or response failure'' (on_metrics failure w)
                else (True, w))
         | NotFound \<Rightarrow> respondText ex 404 not_found_body ''not found'' w
         | NotAFile \<Rightarrow> respondText ex 404 not_found_body ''not found'' w
         | TooLarge \<Rightarrow> respondText ex 403 forbidden_body ''file too large'' w
         | IoError \<Rightarrow> respondText ex 500 server_error_body ''file error'' (on_metrics failure w)
         | OutsideRoot \<Rightarrow> deny ex ''outside root'' True w
         | DirectoryDenied \<Rightarrow> deny ex ''directory not served'' True w
         | ExtensionDenied \<Rightarrow> deny ex ''invalid extension'' True w
         | InvalidPath \<Rightarrow> deny ex ''invalid path'' True w)"

definition dispatch :: "connection \<Rightarrow> exchange \<Rightarrow> request_io \<Rightarrow> bool \<times> request_io" where
  "dispatch cn ex w =
     (let w = on_metrics requestStarted w; st = io_state w; cfg = sv_config (io_server w)
      in if rq_method st \<noteq> ''GET'' \<and> rq_method st \<noteq> ''HEAD'' then deny ex ''invalid method'' True w
         else
           (let (isBlocked, rl) = blocked (rq_ip st) (ex_blockedNow ex) (sv_limiter (io_server w));
                w = on_limiter (\<lambda>_. rl) w
            in if isBlocked then deny ex ''blocked'' False w
               else if cf_steamOnly cfg \<and> \<not> steamClient (rq_userAgent st)
               then deny ex ''non-steam client denied'' True w
               else
                 (let (exceeded, rl) = requestExceeded (rq_ip st) (cf_requestsPerMinute cfg)
                        (ex_requestNow ex) (sv_limiter (io_server w));
                      w = on_limiter (\<lambda>_. rl) w
                  in if exceeded then deny ex ''rate limit'' False w
                     else if rq_invalidTarget st then deny ex ''invalid path'' True w
                     else dispatch_target cn ex w)))"

text \<open>The request state made by the first call for a request.\<close>

definition fresh_request :: "connection \<Rightarrow> string option \<Rightarrow> string option \<Rightarrow> RequestState" where
  "fresh_request cn url meth =
     (let (okMethod, m) = boundedCopy meth 16; (okUrl, u) = boundedCopy url 2048
      in new_request\<lparr>rq_ip := clientIp cn, rq_method := if okMethod then m else ''<overlong>'',
           rq_invalidTarget := \<not> okUrl, rq_url := if okUrl then u else ''<overlong>'',
           rq_userAgent := header cn ''User-Agent'' 200\<rparr>)"

text \<open>A call of the access handler: \<open>present\<close> says that its four pointers are not null, \<open>context\<close>
  is the request context before, \<open>upload\<close> the size of the upload data. The result is the
  handler's, with the new context and upload size, the server, and what was queued.\<close>

definition handleRequest ::
  "bool \<Rightarrow> connection \<Rightarrow> exchange \<Rightarrow> string option \<Rightarrow> string option \<Rightarrow> nat \<Rightarrow> RequestState option \<Rightarrow>
     FastdlServer \<Rightarrow> bool \<times> RequestState option \<times> nat \<times> FastdlServer \<times> (nat \<times> response) list" where
  "handleRequest present cn ex url meth upload ctxt sv =
     (if \<not> present then (False, ctxt, upload, sv, [])
      else (case ctxt of
          None \<Rightarrow> (True, Some (fresh_request cn url meth), upload, sv, [])
        | Some st \<Rightarrow>
            if upload \<noteq> 0 then (True, Some st, 0, sv, [])
            else if rq_handled st then (True, Some st, upload, sv, [])
            else (case dispatch cn ex \<lparr>io_server = sv, io_state = st\<lparr>rq_handled := True\<rparr>, io_queued = []\<rparr> of
                (result, w) \<Rightarrow> (result, Some (io_state w), upload, io_server w, io_queued w))))"

text \<open>\<^verbatim>\<open>std::put_time(&local, "%Y-%m-%dT%H:%M:%S")\<close>, for years from 0.\<close>

definition log_stamp :: "tm \<Rightarrow> string" where
  "log_stamp t = to_string (nat (tm_year t + 1900)) @ ''-'' @ two_digits (tm_mon t + 1) @ ''-'' @
     two_digits (tm_mday t) @ ''T'' @ two_digits (tm_hour t) @ '':'' @ two_digits (tm_min t) @ '':'' @
     two_digits (tm_sec t)"

definition log_line :: "tm \<Rightarrow> RequestState \<Rightarrow> TerminationCode \<Rightarrow> string" where
  "log_line now st code =
     (let bs = (if rq_fileResponse st then rq_bytesSupplied st else rq_responseSize st)
      in ''['' @ log_stamp now @ ''] '' @ sanitize (rq_method st) 16 @ '' '' @ sanitize (rq_url st) 2048 @
         '' -> '' @ to_string (rq_status st) @ '' '' @ kilobytes bs @ '' '' @ terminationName code @
         '' from '' @ sanitize (rq_ip st) 64 @ '' ['' @ sanitize (rq_userAgent st) 200 @ '']'' @
         (if rq_reason st \<noteq> [] then '' '' @ rq_reason st else []))"

definition logCompleted :: "tm \<Rightarrow> RequestState \<Rightarrow> TerminationCode \<Rightarrow> FastdlServer \<Rightarrow> FastdlServer" where
  "logCompleted now st code sv = sv\<lparr>sv_logger := lg_write (log_line now st code) (sv_logger sv)\<rparr>"

definition outcome_of :: "RequestState \<Rightarrow> TerminationCode \<Rightarrow> TransferOutcome" where
  "outcome_of st code =
     (if code = COMPLETED_OK \<and> rq_bytesSupplied st = rq_responseSize st then Completed
      else if code = CLIENT_ABORT then Aborted
      else if code = TIMEOUT_REACHED then TimedOut
      else Failed)"

text \<open>\<open>requestCompleted\<close> for a server and a context that are not null; it returns the server, and
  the request context is null afterwards.\<close>

definition requestCompleted ::
  "tm \<Rightarrow> TerminationCode \<Rightarrow> RequestState option \<Rightarrow> FastdlServer \<Rightarrow> RequestState option \<times> FastdlServer" where
  "requestCompleted now code ctxt sv =
     (case ctxt of
        None \<Rightarrow> (None, sv)
      | Some st \<Rightarrow>
          (let sv = (if rq_activeTransfer st
                     then sv\<lparr>sv_metrics := transferFinished (outcome_of st code) (sv_metrics sv)\<rparr> else sv)
           in (None, if rq_handled st then logCompleted now st code sv else sv)))"

section \<open>Frames\<close>

named_theorems io_ops \<open>definitions of the small updates of a handler's world\<close>

lemmas [io_ops] = on_limiter_def on_metrics_def on_files_def note_answer_def free_context_def fileReaderFree_def

text \<open>The transfer contexts that queued responses own.\<close>

fun contexts :: "(nat \<times> response) list \<Rightarrow> TransferContext list" where
  "contexts [] = []"
| "contexts ((status, r) # q) =
     (case rs_body r of Callback ctx \<Rightarrow> [ctx] | Buffer t \<Rightarrow> []) @ contexts q"

lemma contexts_append [simp]: "contexts (p @ q) = contexts p @ contexts q"
  by (induction p rule: contexts.induct) auto

definition lease_list :: "TransferContext list \<Rightarrow> client_ref list" where
  "lease_list cs = concat (map (\<lambda>c. case tc_lease c of None \<Rightarrow> [] | Some r \<Rightarrow> [r]) cs)"

lemma lease_list_simps [simp]:
  "lease_list [] = []" "lease_list (c # cs) = (case tc_lease c of None \<Rightarrow> [] | Some r \<Rightarrow> [r]) @ lease_list cs"
  "lease_list (cs @ ds) = lease_list cs @ lease_list ds"
  by (simp_all add: lease_list_def)

text \<open>What a handler leaves as it was, and what it accounts for: descriptors and leases are
  exactly those of the responses it queued, and the count of active transfers follows the
  flag of the request.\<close>

definition active_change :: "bool \<Rightarrow> bool \<Rightarrow> u64 \<Rightarrow> u64 \<Rightarrow> bool" where
  "active_change a a' n n' \<longleftrightarrow> a' = a \<and> n' = n \<or> \<not> a \<and> a' \<and> n' = saturatingAdd n 1"

lemma active_change_same [simp]: "active_change a a n n"
  by (simp add: active_change_def)

lemma active_change_trans: "active_change a b l m \<Longrightarrow> active_change b c m n \<Longrightarrow> active_change a c l n"
  by (auto simp: active_change_def)

definition good_reason :: "string \<Rightarrow> bool" where
  "good_reason reason \<longleftrightarrow> reason \<noteq> [] \<and> list_all printable reason"

lemma good_reasons [simp]:
  "good_reason ''invalid method''" "good_reason ''blocked''" "good_reason ''non-steam client denied''"
  "good_reason ''rate limit''" "good_reason ''invalid path''" "good_reason ''not found''"
  "good_reason ''file too large''" "good_reason ''file error''" "good_reason ''outside root''"
  "good_reason ''directory not served''" "good_reason ''invalid extension''"
  "good_reason ''open or response failure''" "good_reason ''invalid or unsatisfiable range''"
  "good_reason ''not modified''"
  by (simp_all add: good_reason_def printable_def)

definition accounted :: "request_io \<Rightarrow> request_io \<Rightarrow> bool" where
  "accounted w w' \<longleftrightarrow>
     sv_config (io_server w') = sv_config (io_server w) \<and>
     sv_daemon (io_server w') = sv_daemon (io_server w) \<and>
     sv_resolver (io_server w') = sv_resolver (io_server w) \<and>
     sv_logger (io_server w') = sv_logger (io_server w) \<and>
     rq_ip (io_state w') = rq_ip (io_state w) \<and> rq_method (io_state w') = rq_method (io_state w) \<and>
     rq_url (io_state w') = rq_url (io_state w) \<and> rq_userAgent (io_state w') = rq_userAgent (io_state w) \<and>
     rq_handled (io_state w') = rq_handled (io_state w) \<and>
     rq_bytesSupplied (io_state w') = rq_bytesSupplied (io_state w) \<and>
     (list_all printable (rq_reason (io_state w)) \<longrightarrow> list_all printable (rq_reason (io_state w'))) \<and>
     active_change (rq_activeTransfer (io_state w)) (rq_activeTransfer (io_state w'))
       (tm_active (sv_metrics (io_server w))) (tm_active (sv_metrics (io_server w'))) \<and>
     sv_files (io_server w') + mset (map tc_fd (contexts (io_queued w))) =
       sv_files (io_server w) + mset (map tc_fd (contexts (io_queued w'))) \<and>
     mset (bl_leases (sv_bandwidth (io_server w'))) + mset (lease_list (contexts (io_queued w))) =
       mset (bl_leases (sv_bandwidth (io_server w))) + mset (lease_list (contexts (io_queued w')))"

lemma accounted_refl [simp]: "accounted w w"
  by (simp add: accounted_def)

lemma multiset_chain:
  fixes a b c :: "'x multiset"
  assumes "b + p = a + q" "c + q = b + r"
  shows "c + p = a + r"
proof -
  have "(c + p) + q = (a + r) + q"
    using assms by (metis (no_types, lifting) union_assoc union_commute)
  then show ?thesis by simp
qed

lemma accounted_trans: "accounted u v \<Longrightarrow> accounted v w \<Longrightarrow> accounted u w"
  unfolding accounted_def
  by (elim conjE, intro conjI)
    (simp_all, erule (1) active_change_trans, erule (1) multiset_chain, erule (1) multiset_chain)

lemma attach_leases:
  "attach ip now s = (lease, s') \<Longrightarrow>
   mset (bl_leases s') = mset (bl_leases s) + mset (case lease of None \<Rightarrow> [] | Some r \<Rightarrow> [r])"
  by (auto simp: attach_def attach_new_def lease_to_def make_client_def count_attachment_def
      cleanupClients_def Let_def split: if_splits option.splits)

lemma release_leases:
  "mset (bl_leases (release_lease lease s)) =
     mset (bl_leases s) - mset (case lease of None \<Rightarrow> [] | Some r \<Rightarrow> [r])"
  by (auto simp: release_lease_def split: option.splits)

lemma add_headers_eq:
  "add_headers ex hs r = Some r' \<Longrightarrow> r' = r\<lparr>rs_headers := rs_headers r @ hs\<rparr>"
  by (induction ex hs r rule: add_headers.induct) (auto split: if_splits)

text \<open>How one answer relates to the request state.\<close>

fun body_length :: "body \<Rightarrow> u64" where
  "body_length (Buffer t) = of_nat (length t)"
| "body_length (Callback ctx) = tc_length ctx"

definition matches_state :: "RequestState \<Rightarrow> nat \<times> response \<Rightarrow> bool" where
  "matches_state st a \<longleftrightarrow> rq_status st = fst a \<and> rq_responseSize st = body_length (rs_body (snd a)) \<and>
     (case rs_body (snd a) of
        Buffer t \<Rightarrow> fst a \<in> {304, 403, 404, 416, 500} \<and> \<not> rq_activeTransfer st \<and> rq_reason st \<noteq> []
      | Callback ctx \<Rightarrow> fst a \<in> {200, 206} \<and> rq_fileResponse st \<and>
          (rq_activeTransfer st \<longleftrightarrow> rq_method st = ''GET''))"

text \<open>A handler queues one answer and says so, or queues none.\<close>

definition answered :: "request_io \<Rightarrow> bool \<times> request_io \<Rightarrow> bool" where
  "answered w out \<longleftrightarrow>
     (fst out \<longrightarrow> (\<exists>a. io_queued (snd out) = io_queued w @ [a] \<and> matches_state (io_state (snd out)) a)) \<and>
     (\<not> fst out \<longrightarrow> io_queued (snd out) = io_queued w \<and> \<not> rq_activeTransfer (io_state (snd out)))"

lemma answered_note [simp]: "answered (note_answer b n k reason w) out \<longleftrightarrow> answered w out"
  by (simp add: answered_def note_answer_def)

lemma accounted_note: "good_reason reason \<Longrightarrow> accounted w (note_answer b n k reason w)"
  by (simp add: accounted_def note_answer_def good_reason_def)

lemma io_server_note [simp]: "io_server (note_answer b n k reason w) = io_server w"
  by (simp add: note_answer_def)

lemma respond_buffer_ok:
  assumes "status \<in> {304, 403, 404, 416, 500}" "rq_status (io_state w) = status"
    "rq_responseSize (io_state w) = of_nat (length t)" "\<not> rq_activeTransfer (io_state w)"
    "good_reason (rq_reason (io_state w))"
  shows "answered w (respond_buffer ex status t hs w)" "accounted w (snd (respond_buffer ex status t hs w))"
    "io_server (snd (respond_buffer ex status t hs w)) = io_server w"
  using assms
  by (auto simp: respond_buffer_def answered_def matches_state_def accounted_def good_reason_def split: option.splits dest!: add_headers_eq)

lemma respondText_ok:
  assumes "status \<in> {403, 404, 500}" "\<not> rq_activeTransfer (io_state w)" "good_reason reason"
  shows "answered w (respondText ex status t reason w)" "accounted w (snd (respondText ex status t reason w))"
    "io_server (snd (respondText ex status t reason w)) = io_server w"
proof -
  let ?w = "note_answer False status (of_nat (length t)) reason w"
  have "answered ?w (respond_buffer ex status t plain_headers ?w)"
    "accounted ?w (snd (respond_buffer ex status t plain_headers ?w))"
    "io_server (snd (respond_buffer ex status t plain_headers ?w)) = io_server ?w"
    using assms by (intro respond_buffer_ok; auto simp: io_ops)+
  then show "answered w (respondText ex status t reason w)" "accounted w (snd (respondText ex status t reason w))"
    "io_server (snd (respondText ex status t reason w)) = io_server w"
    using accounted_trans [OF accounted_note] assms(3) by (simp_all add: respondText_def)
qed

lemma respondRangeError_ok:
  assumes "\<not> rq_activeTransfer (io_state w)"
  shows "answered w (respondRangeError ex n w)" "accounted w (snd (respondRangeError ex n w))"
    "io_server (snd (respondRangeError ex n w)) = io_server w"
proof -
  let ?w = "note_answer False 416 (of_nat (length range_error_body)) ''invalid or unsatisfiable range'' w"
  have "answered ?w (respondRangeError ex n w)" "accounted ?w (snd (respondRangeError ex n w))"
    "io_server (snd (respondRangeError ex n w)) = io_server ?w"
    unfolding respondRangeError_def using assms by (intro respond_buffer_ok; auto simp: io_ops)+
  then show "answered w (respondRangeError ex n w)" "accounted w (snd (respondRangeError ex n w))"
    "io_server (snd (respondRangeError ex n w)) = io_server w"
    by (auto intro: accounted_trans [OF accounted_note [OF good_reasons(13)]])
qed

lemma respond_not_modified_ok:
  assumes "\<not> rq_activeTransfer (io_state w)"
  shows "answered w (respond_not_modified ex etag lm z w)" "accounted w (snd (respond_not_modified ex etag lm z w))"
    "io_server (snd (respond_not_modified ex etag lm z w)) = io_server w"
  using assms
  by (auto simp: respond_not_modified_def answered_def matches_state_def accounted_def io_ops Let_def printable_def
      split: option.splits dest!: add_headers_eq)

text \<open>The two ways a file answer ends: refused, with its context freed, or queued.\<close>

lemma respond_file_cases:
  obtains (refused) lease bw where
    "mset (bl_leases bw) = mset (bl_leases (sv_bandwidth (io_server w))) +
       mset (case lease of None \<Rightarrow> [] | Some r \<Rightarrow> [r])"
    "respond_file ex f opened etag z partial offset len fd w =
       (False, free_context \<lparr>tc_fd = fd, tc_sourceOffset = offset, tc_length = len, tc_lease = lease\<rparr>
          (w\<lparr>io_server := (io_server w)\<lparr>sv_bandwidth := bw\<rparr>\<rparr>))"
  | (queued) lease bw r where
    "mset (bl_leases bw) = mset (bl_leases (sv_bandwidth (io_server w))) +
       mset (case lease of None \<Rightarrow> [] | Some r \<Rightarrow> [r])"
    "rs_body r = Callback \<lparr>tc_fd = fd, tc_sourceOffset = offset, tc_length = len, tc_lease = lease\<rparr>"
    "rs_headers r = file_headers (sv_config (io_server w)) f opened etag z partial offset len"
    "respond_file ex f opened etag z partial offset len fd w =
       (True, \<lparr>io_server = (io_server w)\<lparr>sv_bandwidth := bw, sv_metrics :=
                 (if rq_method (io_state w) = ''GET'' then transferStarted (sv_metrics (io_server w))
                  else sv_metrics (io_server w))\<rparr>,
               io_state = (io_state w)\<lparr>rq_fileResponse := True, rq_status := (if partial then 206 else 200),
                 rq_responseSize := len, rq_reason := [],
                 rq_activeTransfer := rq_activeTransfer (io_state w) \<or> rq_method (io_state w) = ''GET''\<rparr>,
               io_queued = io_queued w @ [(if partial then 206 else 200, r)]\<rparr>)"
proof -
  obtain lease bw where a: "(if rq_method (io_state w) = ''GET''
      then attach (rq_ip (io_state w)) (ex_attachNow ex) (sv_bandwidth (io_server w))
      else (None, sv_bandwidth (io_server w))) = (lease, bw)" by fastforce
  then have l: "mset (bl_leases bw) = mset (bl_leases (sv_bandwidth (io_server w))) +
      mset (case lease of None \<Rightarrow> [] | Some r \<Rightarrow> [r])"
    by (auto split: if_splits dest: attach_leases)
  let ?ctx = "\<lparr>tc_fd = fd, tc_sourceOffset = offset, tc_length = len, tc_lease = lease\<rparr>"
  let ?status = "if partial then 206 else 200 :: nat"
  let ?w = "w\<lparr>io_server := (io_server w)\<lparr>sv_bandwidth := bw\<rparr>\<rparr>"
  let ?added = "add_headers ex (file_headers (sv_config (io_server w)) f opened etag z partial offset len)
     \<lparr>rs_body = Callback ?ctx, rs_headers = []\<rparr>"
  consider "\<not> ex_create ex (Callback ?ctx) \<or> ?added = None"
    | r where "ex_create ex (Callback ?ctx)" "?added = Some r" "\<not> ex_queue ex ?status r"
    | r where "ex_create ex (Callback ?ctx)" "?added = Some r" "ex_queue ex ?status r" by (cases ?added) auto
  then show thesis
  proof cases
    case 1
    then have "respond_file ex f opened etag z partial offset len fd w = (False, free_context ?ctx ?w)"
      unfolding respond_file_def Let_def a by auto
    with l show ?thesis by (rule refused)
  next
    case (2 r)
    then have "respond_file ex f opened etag z partial offset len fd w = (False, free_context ?ctx ?w)"
      unfolding respond_file_def Let_def a by simp
    with l show ?thesis by (rule refused)
  next
    case (3 r)
    from add_headers_eq [OF 3(2)] have "rs_body r = Callback ?ctx"
      "rs_headers r = file_headers (sv_config (io_server w)) f opened etag z partial offset len" by simp_all
    from l this show ?thesis
      by (rule queued) (use 3 in \<open>simp add: respond_file_def Let_def a io_ops\<close>)
  qed
qed

lemma respond_file_ok:
  assumes "\<not> rq_activeTransfer (io_state w)" "fd \<in># sv_files (io_server w)"
    and "out = respond_file ex f opened etag z partial offset len fd w"
  shows "answered w out \<and> accounted (on_files (\<lambda>F. F - {#fd#}) w) (snd out) \<and>
    sv_limiter (io_server (snd out)) = sv_limiter (io_server w)"
proof (cases rule: respond_file_cases [of w ex f opened etag z partial offset len fd])
  case refused
  with assms show ?thesis
    by (simp add: answered_def accounted_def io_ops release_leases)
next
  case queued
  with assms show ?thesis
    by (simp add: answered_def matches_state_def accounted_def io_ops active_change_def transferStarted_def)
qed

text \<open>The representation that is sent: the file itself, or a cached one that was looked up, opened
  and inspected; the other descriptor is closed.\<close>

definition source_of :: "ResolvedFile \<Rightarrow> OpenedFileInfo \<Rightarrow> CompressionSource" where
  "source_of f opened = \<lparr>cs_path = rf_path f, cs_extension = rf_extension f, cs_info = opened\<rparr>"

definition cached_as :: "exchange \<Rightarrow> ResolvedFile \<Rightarrow> OpenedFileInfo \<Rightarrow> CompressionCache \<Rightarrow> descriptor \<Rightarrow> u64 \<Rightarrow> bool" where
  "cached_as ex f opened c fd len \<longleftrightarrow>
     (\<exists>cached c' info. lookup (ex_metaFs ex) (ex_gzFs ex) (ex_skipFs ex) (source_of f opened) c = (Some cached, c') \<and>
        openReadFile (ex_cacheOpenFs ex) (cr_path cached) = Some fd \<and>
        inspectReadFile (ex_cacheInspectFs ex) fd (cr_path cached) = Some info \<and>
        fi_size info = len \<and> cr_size cached = len)"

lemma choose_representation_cases:
  assumes "choose_representation cn ex f opened partial fd len w = (fd', len', z, w')"
    and "fd \<in># sv_files (io_server w)"
  obtains c F where "w' = w\<lparr>io_server := (io_server w)\<lparr>sv_compression := c, sv_files := F\<rparr>\<rparr>"
    "fd' \<in># F" "F - {#fd'#} = sv_files (io_server w) - {#fd#}"
    "if z then \<not> partial \<and> cf_gzip (sv_config (io_server w)) \<and>
        cached_as ex f opened (sv_compression (io_server w)) fd' len'
     else fd' = fd \<and> len' = len"
proof -
  note result = that
  show thesis
  proof (cases "\<not> partial \<and> cf_gzip (sv_config (io_server w)) \<and> cf_gzipCache (sv_config (io_server w)) \<and>
      acceptsGzip (header cn ''Accept-Encoding'' 1024)")
    case False
    with assms show ?thesis
      by (intro result [where c = "sv_compression (io_server w)" and F = "sv_files (io_server w)"])
        (auto simp: choose_representation_def split: if_splits)
  next
    case True
    obtain hit c where lk: "lookup (ex_metaFs ex) (ex_gzFs ex) (ex_skipFs ex) (source_of f opened)
        (sv_compression (io_server w)) = (hit, c)" by fastforce
    let ?w = "w\<lparr>io_server := (io_server w)\<lparr>sv_compression := c\<rparr>\<rparr>" and ?F = "sv_files (io_server w)"
    note ev = choose_representation_def Let_def lk [unfolded source_of_def]
    have plain: thesis if "(fd', len', z, w') = (fd, len, False, ?w)"
      using that assms(2) by (intro result [where c = c and F = ?F]) auto
    show ?thesis
    proof (cases hit)
      case None
      with assms(1) True have "(fd', len', z, w') = (fd, len, False, ?w)" by (simp add: ev)
      then show ?thesis by (rule plain)
    next
      case (Some cached)
      show ?thesis
      proof (cases "openReadFile (ex_cacheOpenFs ex) (cr_path cached)")
        case None
        with assms(1) True Some have "(fd', len', z, w') = (fd, len, False, ?w)" by (simp add: ev)
        then show ?thesis by (rule plain)
      next
        case (Some cfd)
        let ?info = "inspectReadFile (ex_cacheInspectFs ex) cfd (cr_path cached)"
        show ?thesis
        proof (cases "\<exists>info. ?info = Some info \<and> fi_size info = cr_size cached")
          case False
          with assms(1) True Some \<open>hit = Some cached\<close> have "(fd', len', z, w') = (fd, len, False, ?w)"
            by (auto simp: ev io_ops split: option.splits)
          then show ?thesis by (rule plain)
        next
          case match: True
          then obtain info where info: "?info = Some info" "fi_size info = cr_size cached" by blast
          with assms(1) True Some \<open>hit = Some cached\<close>
          have r: "fd' = cfd" "len' = fi_size info" "z"
            "w' = ?w\<lparr>io_server := (io_server ?w)\<lparr>sv_files := add_mset cfd ?F - {#fd#}\<rparr>\<rparr>"
            by (auto simp: ev io_ops)
          show ?thesis
          proof (rule result [where c = c and F = "add_mset cfd (?F - {#fd#})"])
            show "w' = w\<lparr>io_server := (io_server w)\<lparr>sv_compression := c, sv_files := add_mset cfd (?F - {#fd#})\<rparr>\<rparr>"
              using r(4) assms(2) by (cases "cfd = fd") (auto simp: insert_DiffM2)
            show "if z then \<not> partial \<and> cf_gzip (sv_config (io_server w)) \<and>
                cached_as ex f opened (sv_compression (io_server w)) fd' len' else fd' = fd \<and> len' = len"
              using r info True lk Some \<open>hit = Some cached\<close> by (auto simp: cached_as_def)
          qed (use r(1) in auto)
        qed
      qed
    qed
  qed
qed

lemma serve_opened_ok:
  assumes "\<not> rq_activeTransfer (io_state w)" "fd \<in># sv_files (io_server w)"
    and "out = serve_opened cn ex f fd opened w"
  shows "answered w out \<and> accounted (on_files (\<lambda>F. F - {#fd#}) w) (snd out) \<and>
    sv_limiter (io_server (snd out)) = sv_limiter (io_server w)"
proof -
  let ?range = "effective_range cn ex opened"
  have closed: "answered w (apsnd (on_files (\<lambda>F. F - {#fd'#})) r) \<and>
      accounted (on_files (\<lambda>F. F - {#fd'#}) v) (snd (apsnd (on_files (\<lambda>F. F - {#fd'#})) r)) \<and>
      sv_limiter (io_server (snd (apsnd (on_files (\<lambda>F. F - {#fd'#})) r))) = sv_limiter (io_server v)"
    if "answered v r" "accounted v (snd r)" "io_server (snd r) = io_server v" "io_queued v = io_queued w" for fd' v r
    using that by (cases r) (simp add: answered_def accounted_def on_files_def)
  show ?thesis
  proof (cases "br_status ?range = RangeInvalid \<or> br_status ?range = RangeUnsatisfiable")
    case True
    with assms(3) have "out = apsnd (on_files (\<lambda>F. F - {#fd#})) (respondRangeError ex (fi_size opened) w)"
      by (simp add: serve_opened_def Let_def)
    then show ?thesis
      using closed [OF respondRangeError_ok [OF assms(1)] refl] by simp
  next
    case False
    let ?partial = "br_status ?range = RangeValid"
    obtain fd' len z w' where ch: "choose_representation cn ex f opened ?partial fd
        (if ?partial then br_length ?range else fi_size opened) w = (fd', len, z, w')"
      by (metis prod.exhaust)
    from ch assms(2) obtain c F where w': "w' = w\<lparr>io_server := (io_server w)\<lparr>sv_compression := c, sv_files := F\<rparr>\<rparr>"
      "fd' \<in># F" "F - {#fd'#} = sv_files (io_server w) - {#fd#}" by (rule choose_representation_cases) blast
    from w'(1) assms(1) have act: "\<not> rq_activeTransfer (io_state w')" and q: "io_queued w' = io_queued w"
      and lim: "sv_limiter (io_server w') = sv_limiter (io_server w)" by simp_all
    have ref: "accounted (on_files (\<lambda>F. F - {#fd'#}) w') v \<longleftrightarrow> accounted (on_files (\<lambda>F. F - {#fd#}) w) v" for v
      using w'(3) by (simp add: accounted_def on_files_def w'(1))
    show ?thesis
    proof (cases "not_modified cn ex opened (makeEtag opened z)")
      case True
      with assms(3) False have "out = apsnd (on_files (\<lambda>F. F - {#fd'#}))
          (respond_not_modified ex (makeEtag opened z) (httpDate (modifiedSeconds opened)) z w')"
        by (simp add: serve_opened_def Let_def ch)
      then show ?thesis
        using closed [where fd' = fd', OF respond_not_modified_ok [OF act] q] by (simp add: ref lim)
    next
      case False
      with assms(3) \<open>\<not> (br_status ?range = RangeInvalid \<or> br_status ?range = RangeUnsatisfiable)\<close>
      have "out = respond_file ex f opened (makeEtag opened z) z ?partial
          (if ?partial then br_start ?range else 0) len fd' w'"
        by (simp add: serve_opened_def Let_def ch)
      from respond_file_ok [OF act _ this] w'(2) show ?thesis by (simp add: answered_def ref lim q) (simp add: w'(1))
    qed
  qed
qed

lemma serveFile_ok:
  assumes "\<not> rq_activeTransfer (io_state w)"
  shows "answered w (serveFile cn ex f w) \<and> accounted w (snd (serveFile cn ex f w)) \<and>
    sv_limiter (io_server (snd (serveFile cn ex f w))) = sv_limiter (io_server w)"
proof (cases "openReadFile (ex_openFs ex) (rf_path f)")
  case None
  with assms show ?thesis by (simp add: serveFile_def answered_def)
next
  case (Some fd)
  let ?w = "on_files (add_mset fd) w"
  have closing: "on_files (\<lambda>F. F - {#fd#}) ?w = w" by (simp add: on_files_def)
  have act: "\<not> rq_activeTransfer (io_state ?w)" and mem: "fd \<in># sv_files (io_server ?w)"
    and q: "\<And>out. answered ?w out = answered w out"
    and lim: "sv_limiter (io_server ?w) = sv_limiter (io_server w)"
    using assms by (simp_all add: on_files_def answered_def)
  show ?thesis
  proof (cases "inspectReadFile (ex_inspectFs ex) fd (rf_path f)")
    case None
    with Some assms show ?thesis by (simp add: serveFile_def answered_def closing)
  next
    case opened: (Some opened)
    show ?thesis
    proof (cases "fi_size opened > cf_maxFileBytes (sv_config (io_server ?w))")
      case True
      let ?r = "respondText ex 403 forbidden_body ''file too large'' ?w"
      have r: "answered ?w ?r" "accounted ?w (snd ?r)" "io_server (snd ?r) = io_server ?w"
        by (intro respondText_ok; use act in simp)+
      from True Some opened have "serveFile cn ex f w = apsnd (on_files (\<lambda>F. F - {#fd#})) ?r"
        by (simp add: serveFile_def)
      then show ?thesis
        using r by (cases ?r) (simp add: answered_def accounted_def on_files_def)
    next
      case False
      with Some opened have "serveFile cn ex f w = serve_opened cn ex f fd opened ?w"
        by (simp add: serveFile_def)
      from serve_opened_ok [OF act mem this] show ?thesis by (simp add: closing q lim)
    qed
  qed
qed

text \<open>What dispatching does to the limiter, as a history of its operations.\<close>

lemma answered_shift:
  "io_queued v = io_queued w \<Longrightarrow> answered v out \<Longrightarrow> answered w out"
  by (simp add: answered_def)

lemma accounted_on [simp]:
  "accounted w (on_limiter g w)" "accounted w (on_metrics requestStarted w)" "accounted w (on_metrics failure w)"
  by (simp_all add: accounted_def io_ops requestStarted_def failure_def)

lemma on_simps [simp]:
  "io_queued (on_limiter g w) = io_queued w" "io_queued (on_metrics h w) = io_queued w"
  "io_state (on_limiter g w) = io_state w" "io_state (on_metrics h w) = io_state w"
  "sv_limiter (io_server (on_limiter g w)) = g (sv_limiter (io_server w))"
  "sv_limiter (io_server (on_metrics h w)) = sv_limiter (io_server w)"
  "sv_config (io_server (on_limiter g w)) = sv_config (io_server w)"
  "sv_config (io_server (on_metrics h w)) = sv_config (io_server w)"
  by (simp_all add: io_ops)

definition handled_well :: "request_io \<Rightarrow> bool \<times> request_io \<Rightarrow> bool" where
  "handled_well w out \<longleftrightarrow> answered w out \<and> accounted w (snd out)"

lemma handled_wellI:
  assumes "handled_well v out" "io_queued v = io_queued w" "accounted w v"
  shows "handled_well w out"
  using assms accounted_trans by (auto simp: handled_well_def intro: answered_shift)

lemma respondText_well:
  "status \<in> {403, 404, 500} \<Longrightarrow> \<not> rq_activeTransfer (io_state w) \<Longrightarrow> good_reason reason \<Longrightarrow>
   handled_well w (respondText ex status t reason w)"
  by (simp add: handled_well_def respondText_ok)

lemma deny_well:
  assumes "\<not> rq_activeTransfer (io_state w)" "good_reason reason"
  shows "handled_well w (deny ex reason strike w)"
  using assms unfolding deny_def Let_def
  by (cases strike) (auto intro!: handled_wellI [OF respondText_well])

definition strike_event :: "exchange \<Rightarrow> request_io \<Rightarrow> int \<times> rl_event" where
  "strike_event ex w = (ex_denialNow ex,
     RecordDenial (rq_ip (io_state w)) (cf_denialsPerMinute (sv_config (io_server w)))
       (cf_blockSeconds (sv_config (io_server w))))"

lemma deny_limiter:
  assumes "\<not> rq_activeTransfer (io_state w)" "good_reason reason"
  shows "sv_limiter (io_server (snd (deny ex reason strike w))) =
    foldl rl_step (sv_limiter (io_server w)) (if strike then [strike_event ex w] else [])"
  using assms by (simp add: deny_def Let_def respondText_ok(3) strike_event_def)

lemma dispatch_target_well:
  assumes act: "\<not> rq_activeTransfer (io_state w)"
  shows "handled_well w (dispatch_target cn ex w)"
proof -
  let ?f = "resolve (sv_resolver (io_server w)) (ex_resolveFs ex) (ex_entryFs ex) (ex_sizeFs ex)
    (Some (rq_url (io_state w))) (cf_maxFileBytes (sv_config (io_server w)))"
  show ?thesis
  proof (cases "rf_status ?f")
    case Ok
    obtain ok w' where s: "serveFile cn ex ?f w = (ok, w')" by fastforce
    from serveFile_ok [OF act, of cn ex ?f] have sf: "answered w (ok, w')" "accounted w w'" by (simp_all add: s)
    show ?thesis
    proof (cases ok)
      case True
      with Ok s sf show ?thesis by (simp add: dispatch_target_def Let_def handled_well_def)
    next
      case False
      with sf(1) have w': "io_queued w' = io_queued w" "\<not> rq_activeTransfer (io_state w')"
        by (simp_all add: answered_def)
      have "handled_well w (respondText ex 500 server_error_body ''open or response failure'' (on_metrics failure w'))"
        by (rule handled_wellI [OF respondText_well]) (use w' sf(2) in \<open>auto intro: accounted_trans\<close>)
      with Ok s False show ?thesis by (simp add: dispatch_target_def Let_def)
    qed
  next
    case IoError
    have "handled_well w (respondText ex 500 server_error_body ''file error'' (on_metrics failure w))"
      by (rule handled_wellI [OF respondText_well]) (use act in auto)
    with IoError show ?thesis by (simp add: dispatch_target_def Let_def)
  qed (use act in \<open>simp_all add: dispatch_target_def Let_def respondText_well deny_well\<close>)
qed

text \<open>The checks of \<open>dispatch\<close> in their order, with the world each of them leaves.\<close>

definition began :: "request_io \<Rightarrow> request_io" where
  "began w = on_metrics requestStarted w"

definition after_block_check :: "exchange \<Rightarrow> request_io \<Rightarrow> request_io" where
  "after_block_check ex w =
     on_limiter (\<lambda>rl. snd (blocked (rq_ip (io_state w)) (ex_blockedNow ex) rl)) (began w)"

definition after_rate_check :: "exchange \<Rightarrow> request_io \<Rightarrow> request_io" where
  "after_rate_check ex w =
     on_limiter (\<lambda>rl. snd (requestExceeded (rq_ip (io_state w))
         (cf_requestsPerMinute (sv_config (io_server w))) (ex_requestNow ex) rl)) (after_block_check ex w)"

definition good_method :: "RequestState \<Rightarrow> bool" where
  "good_method st \<longleftrightarrow> rq_method st = ''GET'' \<or> rq_method st = ''HEAD''"

definition is_blocked :: "exchange \<Rightarrow> request_io \<Rightarrow> bool" where
  "is_blocked ex w = fst (blocked (rq_ip (io_state w)) (ex_blockedNow ex) (sv_limiter (io_server w)))"

definition good_client :: "request_io \<Rightarrow> bool" where
  "good_client w \<longleftrightarrow> (cf_steamOnly (sv_config (io_server w)) \<longrightarrow> steamClient (rq_userAgent (io_state w)))"

definition is_over_limit :: "exchange \<Rightarrow> request_io \<Rightarrow> bool" where
  "is_over_limit ex w = fst (requestExceeded (rq_ip (io_state w))
     (cf_requestsPerMinute (sv_config (io_server w))) (ex_requestNow ex)
     (sv_limiter (io_server (after_block_check ex w))))"

lemma dispatch_cases:
  obtains (bad_method) "\<not> good_method (io_state w)"
      "dispatch cn ex w = deny ex ''invalid method'' True (began w)"
  | (block) "good_method (io_state w)" "is_blocked ex w"
      "dispatch cn ex w = deny ex ''blocked'' False (after_block_check ex w)"
  | (client) "good_method (io_state w)" "\<not> is_blocked ex w" "\<not> good_client w"
      "dispatch cn ex w = deny ex ''non-steam client denied'' True (after_block_check ex w)"
  | (rate) "good_method (io_state w)" "\<not> is_blocked ex w" "good_client w" "is_over_limit ex w"
      "dispatch cn ex w = deny ex ''rate limit'' False (after_rate_check ex w)"
  | (target) "good_method (io_state w)" "\<not> is_blocked ex w" "good_client w" "\<not> is_over_limit ex w"
      "rq_invalidTarget (io_state w)"
      "dispatch cn ex w = deny ex ''invalid path'' True (after_rate_check ex w)"
  | (passed) "good_method (io_state w)" "\<not> is_blocked ex w" "good_client w" "\<not> is_over_limit ex w"
      "\<not> rq_invalidTarget (io_state w)"
      "dispatch cn ex w = dispatch_target cn ex (after_rate_check ex w)"
proof -
  obtain b rl where b: "blocked (rq_ip (io_state w)) (ex_blockedNow ex) (sv_limiter (io_server w)) = (b, rl)"
    by fastforce
  obtain x rl' where x: "requestExceeded (rq_ip (io_state w)) (cf_requestsPerMinute (sv_config (io_server w)))
      (ex_requestNow ex) rl = (x, rl')" by fastforce
  have w1: "after_block_check ex w = on_limiter (\<lambda>_. rl) (on_metrics requestStarted w)"
    using b by (simp add: after_block_check_def began_def io_ops)
  have w2: "after_rate_check ex w = on_limiter (\<lambda>_. rl') (after_block_check ex w)"
    using x by (simp add: after_rate_check_def w1) (simp add: io_ops)
  have d: "is_blocked ex w = b" "is_over_limit ex w = x" using b x by (simp_all add: is_blocked_def is_over_limit_def w1)
  have dispatch: "dispatch cn ex w =
      (if \<not> good_method (io_state w) then deny ex ''invalid method'' True (began w)
       else if b then deny ex ''blocked'' False (after_block_check ex w)
       else if \<not> good_client w then deny ex ''non-steam client denied'' True (after_block_check ex w)
       else if x then deny ex ''rate limit'' False (after_rate_check ex w)
       else if rq_invalidTarget (io_state w) then deny ex ''invalid path'' True (after_rate_check ex w)
       else dispatch_target cn ex (after_rate_check ex w))"
    unfolding w2 w1 dispatch_def good_method_def good_client_def began_def Let_def
    by (simp add: b x)
  show thesis
    using dispatch d bad_method block client rate target passed by (auto split: if_splits)
qed

lemma after_checks [simp]:
  "io_state (began w) = io_state w" "io_queued (began w) = io_queued w" "accounted w (began w)"
  "sv_limiter (io_server (began w)) = sv_limiter (io_server w)"
  "io_state (after_block_check ex w) = io_state w" "io_queued (after_block_check ex w) = io_queued w"
  "accounted w (after_block_check ex w)"
  "sv_limiter (io_server (after_block_check ex w)) =
     rl_step (sv_limiter (io_server w)) (ex_blockedNow ex, Blocked (rq_ip (io_state w)))"
  "io_state (after_rate_check ex w) = io_state w" "io_queued (after_rate_check ex w) = io_queued w"
  "accounted w (after_rate_check ex w)"
  "sv_config (io_server (began w)) = sv_config (io_server w)"
  "sv_config (io_server (after_block_check ex w)) = sv_config (io_server w)"
  "sv_config (io_server (after_rate_check ex w)) = sv_config (io_server w)"
  by (simp_all add: after_rate_check_def after_block_check_def began_def)
    (auto simp: accounted_def io_ops requestStarted_def)

lemma after_rate_limiter:
  "sv_limiter (io_server (after_rate_check ex w)) =
     foldl rl_step (sv_limiter (io_server w))
       [(ex_blockedNow ex, Blocked (rq_ip (io_state w))),
        (ex_requestNow ex, RequestExceeded (rq_ip (io_state w)) (cf_requestsPerMinute (sv_config (io_server w))))]"
  by (simp add: after_rate_check_def)

lemma dispatch_well:
  assumes "\<not> rq_activeTransfer (io_state w)"
  shows "handled_well w (dispatch cn ex w)"
  by (cases rule: dispatch_cases [of w cn ex])
    (use assms in \<open>auto intro!: handled_wellI [OF deny_well] handled_wellI [OF dispatch_target_well]\<close>)

lemma dispatch_target_limiter:
  assumes act: "\<not> rq_activeTransfer (io_state w)"
  shows "\<exists>strike. sv_limiter (io_server (snd (dispatch_target cn ex w))) =
    foldl rl_step (sv_limiter (io_server w)) (if strike then [strike_event ex w] else [])"
proof -
  let ?f = "resolve (sv_resolver (io_server w)) (ex_resolveFs ex) (ex_entryFs ex) (ex_sizeFs ex)
    (Some (rq_url (io_state w))) (cf_maxFileBytes (sv_config (io_server w)))"
  have plain: "sv_limiter (io_server (snd (respondText ex status t reason v))) = sv_limiter (io_server v)"
    if "status \<in> {403, 404, 500}" "\<not> rq_activeTransfer (io_state v)" "good_reason reason" for status t reason v
    using respondText_ok(3) [OF that] by simp
  show ?thesis
  proof (cases "rf_status ?f")
    case Ok
    obtain ok w' where s: "serveFile cn ex ?f w = (ok, w')" by fastforce
    from serveFile_ok [OF act, of cn ex ?f] have sf: "answered w (ok, w')"
      "sv_limiter (io_server w') = sv_limiter (io_server w)" by (simp_all add: s)
    then have "\<not> ok \<Longrightarrow> \<not> rq_activeTransfer (io_state w')" by (simp add: answered_def)
    with Ok s sf(2) show ?thesis
      by (intro exI [of _ False]) (simp add: dispatch_target_def Let_def plain)
  next
    case NotFound
    with act show ?thesis by (intro exI [of _ False]) (simp add: dispatch_target_def Let_def plain)
  next
    case NotAFile
    with act show ?thesis by (intro exI [of _ False]) (simp add: dispatch_target_def Let_def plain)
  next
    case TooLarge
    with act show ?thesis by (intro exI [of _ False]) (simp add: dispatch_target_def Let_def plain)
  next
    case IoError
    with act show ?thesis by (intro exI [of _ False]) (simp add: dispatch_target_def Let_def plain)
  qed (use act in \<open>intro exI [of _ True], simp add: dispatch_target_def Let_def deny_limiter\<close>)+
qed

text \<open>The limiter operations a request makes: a prefix of the two checks, and perhaps a strike. The
  request got past the limiter exactly when both checks were made and let it through.\<close>

definition check_events :: "exchange \<Rightarrow> request_io \<Rightarrow> (int \<times> rl_event) list" where
  "check_events ex w =
     [(ex_blockedNow ex, Blocked (rq_ip (io_state w))),
      (ex_requestNow ex, RequestExceeded (rq_ip (io_state w)) (cf_requestsPerMinute (sv_config (io_server w))))]"

lemma strike_event_after [simp]:
  "strike_event ex (began w) = strike_event ex w"
  "strike_event ex (after_block_check ex w) = strike_event ex w"
  "strike_event ex (after_rate_check ex w) = strike_event ex w"
  by (simp_all add: strike_event_def)

lemma dispatch_limiter:
  assumes act: "\<not> rq_activeTransfer (io_state w)"
  obtains n strike where
    "sv_limiter (io_server (snd (dispatch cn ex w))) = foldl rl_step (sv_limiter (io_server w))
       (take n (check_events ex w) @ (if strike then [strike_event ex w] else []))"
    "n \<le> 2" "n = 2 \<longleftrightarrow> good_method (io_state w) \<and> \<not> is_blocked ex w \<and> good_client w"
proof (cases rule: dispatch_cases [of w cn ex])
  case bad_method
  with act deny_limiter [of "began w" "''invalid method''" ex True] show ?thesis
    by (intro that [of 0 True]) (simp_all add: check_events_def)
next
  case block
  with act deny_limiter [of "after_block_check ex w" "''blocked''" ex False] show ?thesis
    by (intro that [of 1 False]) (simp_all add: check_events_def)
next
  case client
  with act deny_limiter [of "after_block_check ex w" "''non-steam client denied''" ex True] show ?thesis
    by (intro that [of 1 True]) (simp_all add: check_events_def)
next
  case rate
  with act deny_limiter [of "after_rate_check ex w" "''rate limit''" ex False] show ?thesis
    by (intro that [of 2 False]) (simp_all add: check_events_def after_rate_limiter)
next
  case target
  with act deny_limiter [of "after_rate_check ex w" "''invalid path''" ex True] show ?thesis
    by (intro that [of 2 True]) (simp_all add: check_events_def after_rate_limiter)
next
  case passed
  obtain strike where "sv_limiter (io_server (snd (dispatch_target cn ex (after_rate_check ex w)))) =
      foldl rl_step (sv_limiter (io_server (after_rate_check ex w)))
        (if strike then [strike_event ex (after_rate_check ex w)] else [])"
    using dispatch_target_limiter [of "after_rate_check ex w" cn ex] act by auto
  with passed show ?thesis
    by (intro that [of 2 strike]) (simp_all add: check_events_def after_rate_limiter)
qed

text \<open>An answer other than 403 is given only to requests that passed every check.\<close>

lemma respondText_status:
  "snd (respondText ex status t reason w) = w' \<Longrightarrow> rq_status (io_state w') = status"
  by (auto simp: respondText_def respond_buffer_def io_ops split: option.splits)

lemma deny_status: "rq_status (io_state (snd (deny ex reason strike w))) = 403"
  unfolding deny_def Let_def using respondText_status by blast

lemma dispatch_passed:
  assumes "rq_status (io_state (snd (dispatch cn ex w))) \<noteq> 403"
  shows "good_method (io_state w) \<and> \<not> is_blocked ex w \<and> good_client w \<and> \<not> is_over_limit ex w \<and>
    \<not> rq_invalidTarget (io_state w) \<and> dispatch cn ex w = dispatch_target cn ex (after_rate_check ex w)"
  by (cases rule: dispatch_cases [of w cn ex]) (use assms in \<open>simp_all add: deny_status\<close>)


text \<open>What a file answer sends: a range of the opened file, the whole file, or a cached
  representation of this version of the file.\<close>

definition sends :: "connection \<Rightarrow> exchange \<Rightarrow> FastdlConfig \<Rightarrow> CompressionCache \<Rightarrow> ResolvedFile \<Rightarrow> descriptor \<Rightarrow>
    OpenedFileInfo \<Rightarrow> nat \<Rightarrow> response \<Rightarrow> TransferContext \<Rightarrow> bool" where
  "sends cn ex cfg cache f fd opened status r ctx \<longleftrightarrow>
     (\<exists>z. rs_headers r = file_headers cfg f opened (makeEtag opened z) z (status = 206)
            (tc_sourceOffset ctx) (tc_length ctx) \<and>
        \<not> not_modified cn ex opened (makeEtag opened z) \<and>
        (if z then status = 200 \<and> tc_sourceOffset ctx = 0 \<and> cf_gzip cfg \<and>
           cached_as ex f opened cache (tc_fd ctx) (tc_length ctx)
         else tc_fd ctx = fd \<and>
           (status = 200 \<and> tc_sourceOffset ctx = 0 \<and> tc_length ctx = fi_size opened \<or>
            status = 206 \<and> 0 < unat (tc_length ctx) \<and>
            unat (tc_sourceOffset ctx) + unat (tc_length ctx) \<le> unat (fi_size opened))))"

lemma effective_range_inside:
  "br_status (effective_range cn ex opened) = RangeValid \<Longrightarrow>
   0 < unat (br_length (effective_range cn ex opened)) \<and>
   unat (br_start (effective_range cn ex opened)) + unat (br_length (effective_range cn ex opened))
     \<le> unat (fi_size opened)"
  by (auto simp: effective_range_def Let_def no_range_def split: if_splits dest: range_inside_file)

lemma no_callback:
  assumes "answered w (ok, w')" "io_queued w' = io_queued w @ [(status, r)]" "rs_body r = Callback ctx"
  shows "rq_status (io_state w') \<in> {200, 206}"
  using assms by (cases ok) (auto simp: answered_def matches_state_def)

lemma serve_opened_sends:
  assumes act: "\<not> rq_activeTransfer (io_state w)" and fd: "fd \<in># sv_files (io_server w)"
    and out: "serve_opened cn ex f fd opened w = (ok, w')"
    and q: "io_queued w' = io_queued w @ [(status, r)]" "rs_body r = Callback ctx"
  shows "sends cn ex (sv_config (io_server w)) (sv_compression (io_server w)) f fd opened status r ctx"
proof -
  let ?range = "effective_range cn ex opened"
  have st: "rq_status (io_state w') \<in> {200, 206}"
    using no_callback [OF _ q] serve_opened_ok [OF act fd out [symmetric]] by blast
  have valid: "\<not> (br_status ?range = RangeInvalid \<or> br_status ?range = RangeUnsatisfiable)"
  proof
    assume "br_status ?range = RangeInvalid \<or> br_status ?range = RangeUnsatisfiable"
    with out have "w' = on_files (\<lambda>F. F - {#fd#}) (snd (respondRangeError ex (fi_size opened) w))"
      by (auto simp: serve_opened_def Let_def prod_eq_iff)
    with st show False
      by (auto simp: respondRangeError_def respond_buffer_def io_ops split: option.splits if_splits)
  qed
  let ?partial = "br_status ?range = RangeValid"
  obtain fd' len z v where ch: "choose_representation cn ex f opened ?partial fd
      (if ?partial then br_length ?range else fi_size opened) w = (fd', len, z, v)"
    by (metis prod.exhaust)
  from ch fd obtain c F where v: "v = w\<lparr>io_server := (io_server w)\<lparr>sv_compression := c, sv_files := F\<rparr>\<rparr>"
    and pick: "if z then \<not> ?partial \<and> cf_gzip (sv_config (io_server w)) \<and>
        cached_as ex f opened (sv_compression (io_server w)) fd' len
      else fd' = fd \<and> len = (if ?partial then br_length ?range else fi_size opened)"
    by (rule choose_representation_cases) blast
  have fresh: "\<not> not_modified cn ex opened (makeEtag opened z)"
  proof
    assume "not_modified cn ex opened (makeEtag opened z)"
    with out valid have "w' = on_files (\<lambda>F. F - {#fd'#})
        (snd (respond_not_modified ex (makeEtag opened z) (httpDate (modifiedSeconds opened)) z v))"
      by (auto simp: serve_opened_def Let_def ch prod_eq_iff)
    with st q v show False
      by (auto simp: respond_not_modified_def io_ops Let_def split: option.splits if_splits dest!: add_headers_eq)
  qed
  with out valid have sent: "respond_file ex f opened (makeEtag opened z) z ?partial
      (if ?partial then br_start ?range else 0) len fd' v = (ok, w')"
    by (simp add: serve_opened_def Let_def ch)
  show ?thesis
  proof (cases rule: respond_file_cases [of v ex f opened "makeEtag opened z" z ?partial
        "if ?partial then br_start ?range else 0" len fd'])
    case refused
    with sent q v show ?thesis by (auto simp: io_ops)
  next
    case (queued lease bw r')
    with sent q v have eq: "status = (if ?partial then 206 else 200)" "r' = r"
      "ctx = \<lparr>tc_fd = fd', tc_sourceOffset = (if ?partial then br_start ?range else 0), tc_length = len, tc_lease = lease\<rparr>"
      by auto
    have "rs_headers r = file_headers (sv_config (io_server w)) f opened (makeEtag opened z) z (status = 206)
        (tc_sourceOffset ctx) (tc_length ctx)"
      using queued(3) eq v by (cases ?partial) simp_all
    with fresh pick eq effective_range_inside [of cn ex opened] show ?thesis
      unfolding sends_def by (intro exI [of _ z]) (auto split: if_splits)
  qed
qed

end
