(* ===== verification/Server_Transfers.thy ===== *)
theory Server_Transfers
  imports Server
begin

text \<open>
  Transfers: libmicrohttpd calls \<open>fileReader\<close> again and again, each time at the position it has
  reached, until the reader reports the end or an error. The interface between that loop and the
  reader is the locale \<open>byte_supply\<close>; it is interpreted on \<open>fileReader\<close>, whose laws rest on the
  bandwidth limiter granting no more than asked and on positional reads.
\<close>

section \<open>The loop and its interface\<close>

fun deliver :: "('c \<Rightarrow> nat \<Rightarrow> 's \<Rightarrow> reader_result \<times> 's) \<Rightarrow> 'c list \<Rightarrow> string \<Rightarrow> 's \<Rightarrow>
    string \<times> reader_result option \<times> 's" where
  "deliver provide [] got s = (got, None, s)"
| "deliver provide (c # cs) got s =
     (case provide c (length got) s of
        (Supplied bs, s') \<Rightarrow> deliver provide cs (got @ bs) s'
      | (e, s') \<Rightarrow> (got, Some e, s'))"

locale byte_supply =
  fixes provide :: "'c \<Rightarrow> nat \<Rightarrow> 's \<Rightarrow> reader_result \<times> 's"
    and valid :: "'c \<Rightarrow> bool"
    and prompt :: "'c \<Rightarrow> bool"
    and running :: "'s \<Rightarrow> bool"
    and data :: string
    and len :: nat
  assumes at_end: "valid c \<Longrightarrow> provide c len s = (END_OF_STREAM, s)"
    and before_end: "valid c \<Longrightarrow> p < len \<Longrightarrow> fst (provide c p s) \<noteq> END_OF_STREAM"
    and chunk: "valid c \<Longrightarrow> p < len \<Longrightarrow> provide c p s = (Supplied bs, s') \<Longrightarrow>
      bs \<noteq> [] \<and> p + length bs \<le> len \<and> bs = take (length bs) (drop p data)"
    and progress: "valid c \<Longrightarrow> prompt c \<Longrightarrow> running s \<Longrightarrow> p < len \<Longrightarrow>
      \<exists>bs s'. provide c p s = (Supplied bs, s') \<and> running s'"
begin

lemma next_prefix:
  assumes "prefix got data" "bs = take (length bs) (drop (length got) data)"
  shows "prefix (got @ bs) data"
proof -
  obtain rest where d: "data = got @ rest" using assms(1) by (auto simp: prefix_def)
  with assms(2) have "bs = take (length bs) rest" by simp
  then have "rest = bs @ drop (length bs) rest" by (metis append_take_drop_id)
  with d show ?thesis by (metis append.assoc prefixI)
qed

lemma deliver_prefix:
  assumes "list_all valid cs" "prefix got data" "length got \<le> len"
    and "deliver provide cs got s = (out, e, s')"
  shows "prefix out data \<and> length out \<le> len \<and> (e = Some END_OF_STREAM \<longrightarrow> length out = len)"
  using assms
proof (induction cs arbitrary: got s)
  case (Cons c cs)
  obtain r s1 where sup: "provide c (length got) s = (r, s1)" by fastforce
  show ?case
  proof (cases "length got = len")
    case True
    with at_end [of c s] Cons.prems show ?thesis by auto
  next
    case False
    then have lt: "length got < len" using Cons.prems(3) by simp
    show ?thesis
    proof (cases r)
      case (Supplied bs)
      with chunk [OF _ lt] sup Cons.prems(1) have bs: "length got + length bs \<le> len"
        "bs = take (length bs) (drop (length got) data)" by auto
      have "deliver provide cs (got @ bs) s1 = (out, e, s')" using Cons.prems(4) Supplied sup by simp
      with Cons.prems(1) next_prefix [OF Cons.prems(2) bs(2)] bs(1) show ?thesis
        by (intro Cons.IH [of "got @ bs" s1]) simp_all
    qed (use before_end [OF _ lt, of c s] sup Cons.prems in auto)
  qed
qed auto

text \<open>While the supplier runs and every call is answered promptly, each call moves on by at least
  one byte, so \<open>len + 1\<close> calls are enough.\<close>

lemma deliver_complete:
  assumes "list_all valid cs" "list_all prompt cs" "running s" "prefix got data"
    "length got \<le> len" "len - length got < length cs"
  shows "\<exists>out s'. deliver provide cs got s = (out, Some END_OF_STREAM, s') \<and> length out = len"
  using assms
proof (induction cs arbitrary: got s)
  case (Cons c cs)
  show ?case
  proof (cases "length got = len")
    case True
    with at_end [of c s] Cons.prems show ?thesis by auto
  next
    case False
    then have lt: "length got < len" using Cons.prems(5) by simp
    obtain bs s1 where sup: "provide c (length got) s = (Supplied bs, s1)" "running s1"
      using progress [OF _ _ _ lt, of c s] Cons.prems by auto
    with chunk [OF _ lt] Cons.prems(1) have bs: "bs \<noteq> []" "length got + length bs \<le> len"
      "bs = take (length bs) (drop (length got) data)" by auto
    from bs(1) have "len - length (got @ bs) < length cs" using Cons.prems(6) lt by (cases bs) auto
    with next_prefix [OF Cons.prems(4) bs(3)] bs(2) Cons.prems(1,2) sup(2)
    have "\<exists>out s'. deliver provide cs (got @ bs) s1 = (out, Some END_OF_STREAM, s') \<and> length out = len"
      by (intro Cons.IH) simp_all
    with sup(1) show ?thesis by simp
  qed
qed auto

end

section \<open>The reader\<close>

lemma acquire_le: "acquire lease n now w x s = (g, t, s') \<Longrightarrow> g \<le> n"
  by (auto simp: acquire_def Let_def split: if_splits option.splits prod.splits)

lemma acquire_grants_some:
  assumes "acquire lease n now False False s = (g, t, s')" "\<not> bl_stopping s" "bl_quantum s \<noteq> 0" "n \<noteq> 0"
  shows "g \<noteq> 0"
  using assms by (auto simp: acquire_def Let_def min_def split: if_splits option.splits prod.splits)

lemma unat_request:
  "p \<le> unat len \<Longrightarrow> unat (ucast (min (len - of_nat p) (ucast n)) :: size_t) = min (unat len - p) (unat n)"
  for len :: u64 and n :: size_t
proof -
  assume p: "p \<le> unat len"
  have "unat (of_nat p :: u64) = p" using p unat_u64_le [of len] by (simp add: unat_of_fits)
  with p have "unat (len - of_nat p) = unat len - p" by (simp add: unat_sub_small)
  moreover have "unat (ucast n :: u64) = unat n" by (rule unat_widen)
  ultimately have m: "unat (min (len - of_nat p) (ucast n)) = min (unat len - p) (unat n)" by (simp add: unat_min)
  with unat_size_t_less [of n] show ?thesis by (simp add: unsigned_ucast_eq m take_bit_nat_eq_self_iff)
qed

text \<open>A call that sees the unchanged file behind the context's descriptor, and one that is not
  disturbed by a shutdown or a short read.\<close>

definition sees :: "TransferContext \<Rightarrow> string \<Rightarrow> read_call \<times> size_t \<Rightarrow> bool" where
  "sees ctx bytes c \<longleftrightarrow>
     (\<exists>i. tc_fd ctx = Regular i \<and> st_bytes (fs_inode (rc_fs (fst c)) i) = bytes) \<and>
     unat (tc_sourceOffset ctx) + unat (tc_length ctx) \<le> length bytes \<and> length bytes < 2 ^ 63"

definition undisturbed_call :: "read_call \<times> size_t \<Rightarrow> bool" where
  "undisturbed_call c \<longleftrightarrow>
     \<not> rc_stopInWait (fst c) \<and> \<not> rc_stopAtExit (fst c) \<and> rc_short (fst c) = 0 \<and> 0 < unat (snd c)"

definition limiter_runs :: "RequestState \<times> FastdlServer \<Rightarrow> bool" where
  "limiter_runs s \<longleftrightarrow> \<not> bl_stopping (sv_bandwidth (snd s)) \<and> bl_quantum (sv_bandwidth (snd s)) \<noteq> 0"

definition read_step ::
  "TransferContext \<Rightarrow> read_call \<times> size_t \<Rightarrow> nat \<Rightarrow> RequestState \<times> FastdlServer \<Rightarrow>
     reader_result \<times> RequestState \<times> FastdlServer" where
  "read_step ctx c p s = fileReader ctx (fst c) (of_nat p) (snd c) (fst s) (snd s)"

lemma read_step_before_end:
  assumes sees: "sees ctx bytes c" and p: "p < unat (tc_length ctx)"
  obtains g t bw where
    "acquire (tc_lease ctx) (ucast (min (tc_length ctx - of_nat p) (ucast (snd c))) :: size_t) (rc_now (fst c))
       (rc_stopInWait (fst c)) (rc_stopAtExit (fst c)) (sv_bandwidth (snd s)) = (g, t, bw)"
    "unat g \<le> unat (tc_length ctx) - p"
    "read_step ctx c p s =
       (let sv = (snd s)\<lparr>sv_bandwidth := bw\<rparr>;
            bs = take (unat g - rc_short (fst c)) (drop (unat (tc_sourceOffset ctx) + p) bytes)
        in if g = 0 \<or> bs = [] then (END_WITH_ERROR, fst s, sv)
           else (Supplied bs, (fst s)\<lparr>rq_bytesSupplied := rq_bytesSupplied (fst s) + of_nat (length bs)\<rparr>,
             sv\<lparr>sv_metrics := bytesSupplied (of_nat (length bs)) (rc_second (fst c)) (sv_metrics sv)\<rparr>))"
proof -
  obtain g t bw where a: "acquire (tc_lease ctx) (ucast (min (tc_length ctx - of_nat p) (ucast (snd c))) :: size_t)
      (rc_now (fst c)) (rc_stopInWait (fst c)) (rc_stopAtExit (fst c)) (sv_bandwidth (snd s)) = (g, t, bw)"
    by (metis prod_cases3)
  from acquire_le [OF a] have "unat g \<le> min (unat (tc_length ctx) - p) (unat (snd c))"
    using p by (simp add: word_le_nat_alt unat_request)
  then have g: "unat g \<le> unat (tc_length ctx) - p" by simp
  have pn: "unat (of_nat p :: u64) = p" using p unat_u64_le [of "tc_length ctx"] by (simp add: unat_of_fits)
  obtain i where i: "tc_fd ctx = Regular i" "st_bytes (fs_inode (rc_fs (fst c)) i) = bytes"
    and fits: "unat (tc_sourceOffset ctx) + p < 9223372036854775808"
    using sees p by (auto simp: sees_def)
  have lt: "\<not> of_nat p \<ge> tc_length ctx" using p pn by (simp add: word_le_nat_alt)
  have nowrap: "\<not> tc_sourceOffset ctx > UINT64_MAX - of_nat p"
    using fits pn by (simp add: word_less_nat_alt unat_sub_small)
  have sum: "unat (tc_sourceOffset ctx + of_nat p) = unat (tc_sourceOffset ctx) + p"
    using fits pn by (simp add: unat_add_small)
  have "\<not> tc_sourceOffset ctx + of_nat p > 9223372036854775807"
    using fits by (simp add: word_less_nat_alt sum)
  moreover define bs where "bs = take (unat g - rc_short (fst c)) (drop (unat (tc_sourceOffset ctx) + p) bytes)"
  ultimately have rd: "readFileAt (rc_fs (fst c)) (tc_fd ctx) (tc_sourceOffset ctx + of_nat p) g (rc_short (fst c)) = Some bs"
    by (simp add: readFileAt_def i sum)
  from a g show thesis
    by (rule that, unfold bs_def [symmetric], cases bs)
      (use lt nowrap in \<open>simp_all add: read_step_def fileReader_def Let_def a rd\<close>)
qed

lemma acquire_keeps:
  "acquire lease n now w x s = (g, t, s') \<Longrightarrow> bl_stopping s' = bl_stopping s \<and> bl_quantum s' = bl_quantum s"
  using acquire_frame [of lease n now w x s] by auto

lemma take_own_length: "bs = take k xs \<Longrightarrow> bs = take (length bs) xs"
  by (auto simp: min_def)

lemma read_step_chunk:
  assumes "sees ctx bytes c" "p < unat (tc_length ctx)" "read_step ctx c p s = (Supplied bs, s')"
  shows "bs \<noteq> [] \<and> p + length bs \<le> unat (tc_length ctx) \<and>
    bs = take (length bs) (drop p (drop (unat (tc_sourceOffset ctx)) bytes)) \<and>
    fst s' = (fst s)\<lparr>rq_bytesSupplied := rq_bytesSupplied (fst s) + of_nat (length bs)\<rparr>"
proof (cases rule: read_step_before_end [OF assms(1,2), of s])
  case (1 g t bw)
  let ?bs = "take (unat g - rc_short (fst c)) (drop (unat (tc_sourceOffset ctx) + p) bytes)"
  have bs: "bs = ?bs" "bs \<noteq> []" "fst s' = (fst s)\<lparr>rq_bytesSupplied := rq_bytesSupplied (fst s) + of_nat (length bs)\<rparr>"
    using 1(3) assms(3) by (auto simp: Let_def split: if_splits)
  have "length bs \<le> unat (tc_length ctx) - p" using bs(1) 1(2) by simp
  moreover have "bs = take (length bs) (drop (unat (tc_sourceOffset ctx) + p) bytes)"
    using bs(1) by (rule take_own_length)
  ultimately show ?thesis using bs(2,3) assms(2) by (simp add: add.commute)
qed

lemma read_step_progress:
  assumes "sees ctx bytes c" "p < unat (tc_length ctx)" "undisturbed_call c" "limiter_runs s"
  shows "\<exists>bs s'. read_step ctx c p s = (Supplied bs, s') \<and> limiter_runs s'"
proof (cases rule: read_step_before_end [OF assms(1,2), of s])
  case (1 g t bw)
  have "unat (ucast (min (tc_length ctx - of_nat p) (ucast (snd c))) :: size_t) =
      min (unat (tc_length ctx) - p) (unat (snd c))" using assms(2) by (simp add: unat_request)
  then have "unat (ucast (min (tc_length ctx - of_nat p) (ucast (snd c))) :: size_t) \<noteq> 0"
    using assms(2,3) by (simp add: undisturbed_call_def)
  then have "(ucast (min (tc_length ctx - of_nat p) (ucast (snd c))) :: size_t) \<noteq> 0" by fastforce
  with acquire_grants_some [of "tc_lease ctx" _ "rc_now (fst c)" "sv_bandwidth (snd s)"] 1(1) assms(3,4)
  have g: "g \<noteq> 0" by (simp add: undisturbed_call_def limiter_runs_def)
  moreover have "unat (tc_sourceOffset ctx) + p < length bytes" using assms(1,2) by (auto simp: sees_def)
  ultimately show ?thesis
    using 1(3) acquire_keeps [OF 1(1)] assms(3,4)
    by (auto simp: Let_def undisturbed_call_def limiter_runs_def unat_eq_0)
qed

text \<open>The reader is a byte supply for the range of the file its context stands for.\<close>

interpretation reader: byte_supply "read_step ctx" "sees ctx bytes" undisturbed_call limiter_runs
  "take (unat (tc_length ctx)) (drop (unat (tc_sourceOffset ctx)) bytes)" "unat (tc_length ctx)"
  for ctx bytes
proof unfold_locales
  fix c s
  show "read_step ctx c (unat (tc_length ctx)) s = (END_OF_STREAM, s)"
    by (simp add: read_step_def fileReader_def)
next
  fix c p s assume a: "sees ctx bytes c" "p < unat (tc_length ctx)"
  show "fst (read_step ctx c p s) \<noteq> END_OF_STREAM"
    by (cases rule: read_step_before_end [OF a, of s]) (auto simp: Let_def)
  show "bs \<noteq> [] \<and> p + length bs \<le> unat (tc_length ctx) \<and>
      bs = take (length bs) (drop p (take (unat (tc_length ctx)) (drop (unat (tc_sourceOffset ctx)) bytes)))"
    if "read_step ctx c p s = (Supplied bs, s')" for bs s'
  proof -
    from read_step_chunk [OF a that] have "length bs \<le> unat (tc_length ctx) - p" by linarith
    with read_step_chunk [OF a that] show ?thesis by (simp add: drop_take min_absorb1)
  qed
next
  fix c p s assume "sees ctx bytes c" "undisturbed_call c" "limiter_runs s" "p < unat (tc_length ctx)"
  then show "\<exists>bs s'. read_step ctx c p s = (Supplied bs, s') \<and> limiter_runs s'"
    using read_step_progress by blast
qed

section \<open>Properties\<close>

lemma prefix_take_full: "prefix out (take n xs) \<Longrightarrow> length out = n \<Longrightarrow> out = take n xs"
proof -
  assume a: "prefix out (take n xs)" "length out = n"
  then obtain zs where z: "take n xs = out @ zs" by (auto simp: prefix_def)
  then have "length (take n xs) = n + length zs" using a(2) by (simp del: length_take)
  then have "length zs = 0" by (simp add: min_def split: if_splits)
  with z show ?thesis by simp
qed

lemma deliver_counts:
  assumes "list_all (sees ctx bytes) cs" "length got \<le> unat (tc_length ctx)"
    "rq_bytesSupplied (fst s) = of_nat (length got)"
    and "deliver (read_step ctx) cs got s = (out, e, s')"
  shows "rq_bytesSupplied (fst s') = of_nat (length out)"
  using assms
proof (induction cs arbitrary: got s)
  case (Cons c cs)
  obtain r s1 where step: "read_step ctx c (length got) s = (r, s1)" by (metis prod.exhaust)
  show ?case
  proof (cases "length got = unat (tc_length ctx)")
    case True
    then have "read_step ctx c (length got) s = (END_OF_STREAM, s)" by (simp add: read_step_def fileReader_def)
    with Cons.prems show ?thesis by simp
  next
    case False
    then have lt: "length got < unat (tc_length ctx)" using Cons.prems(2) by simp
    have ok: "sees ctx bytes c" using Cons.prems(1) by simp
    show ?thesis
    proof (cases r)
      case (Supplied bs)
      from read_step_chunk [OF ok lt step [unfolded Supplied]] Cons.prems(1,3,4) Supplied step show ?thesis
        by (intro Cons.IH [of "got @ bs" s1]) (simp_all add: add.commute)
    next
      case END_WITH_ERROR
      with step have "fst s1 = fst s"
        by (cases rule: read_step_before_end [OF ok lt, of s]) (auto simp: Let_def split: if_splits)
      with END_WITH_ERROR step Cons.prems show ?thesis by simp
    qed (use reader.before_end [OF ok lt, of s] step in simp)
  qed
qed auto

text \<open>C4. A transfer delivers the right bytes. Whatever the sizes of the buffers, the grants of the
  limiter, short reads and errors in between: as long as the file behind the descriptor is not
  rewritten, the bytes libmicrohttpd got so far are a prefix of the selected part of the file
  and the request's counter is their number; the end of the stream is reported only after the
  last byte of the part; and the outcome recorded on a regular end is \<open>Completed\<close> exactly when
  every byte of the part was supplied.\<close>

theorem transfer_exact:
  assumes "list_all (sees ctx bytes) cs" and "rq_bytesSupplied st = 0"
    and "rq_responseSize st' = tc_length ctx"
    and "deliver (read_step ctx) cs [] (st, sv) = (out, e, (st', sv'))"
  defines "part \<equiv> take (unat (tc_length ctx)) (drop (unat (tc_sourceOffset ctx)) bytes)"
  shows "prefix out part \<and> unat (rq_bytesSupplied st') = length out \<and>
    (e = Some END_OF_STREAM \<longrightarrow> out = part) \<and>
    (cs \<noteq> [] \<longrightarrow> (outcome_of st' COMPLETED_OK = Completed \<longleftrightarrow> out = part))"
proof -
  have p: "prefix out part" "length out \<le> unat (tc_length ctx)"
    "e = Some END_OF_STREAM \<longrightarrow> length out = unat (tc_length ctx)"
    using reader.deliver_prefix [OF assms(1) _ _ assms(4)] by (simp_all add: part_def)
  have "rq_bytesSupplied (fst (st', sv')) = of_nat (length out)"
    using deliver_counts [OF assms(1) _ _ assms(4)] assms(2) by simp
  then have n: "rq_bytesSupplied st' = of_nat (length out)" by simp
  have u: "unat (of_nat (length out) :: u64) = length out"
    using p(2) unat_u64_le [of "tc_length ctx"] by (simp add: unat_of_fits)
  have len: "length part = unat (tc_length ctx)" if "cs \<noteq> []"
    using assms(1) that by (cases cs) (auto simp: part_def sees_def)
  have whole: "length out = unat (tc_length ctx) \<Longrightarrow> out = part"
    using p(1) unfolding part_def by (rule prefix_take_full)
  have "outcome_of st' COMPLETED_OK = Completed \<longleftrightarrow> length out = unat (tc_length ctx)"
    using assms(3) n u by (auto simp: outcome_of_def word_unat_eq_iff)
  with p n u len whole show ?thesis by auto
qed

text \<open>C5. Transfers end. While the limiter runs, no call meets a shutdown or a short read, and every
  buffer has room, the transfer of a part of \<open>n\<close> bytes reaches the end of the stream within
  \<open>n + 1\<close> calls of the reader, with all of its bytes delivered.\<close>

theorem transfer_completes:
  assumes "list_all (sees ctx bytes) cs" and "list_all undisturbed_call cs" and "limiter_runs (st, sv)"
    and "unat (tc_length ctx) < length cs"
  shows "\<exists>s'. deliver (read_step ctx) cs [] (st, sv) =
    (take (unat (tc_length ctx)) (drop (unat (tc_sourceOffset ctx)) bytes), Some END_OF_STREAM, s')"
proof -
  obtain out s' where d: "deliver (read_step ctx) cs [] (st, sv) = (out, Some END_OF_STREAM, s')"
    "length out = unat (tc_length ctx)"
    using reader.deliver_complete [OF assms(1-3), of "[]"] assms(4) by auto
  from reader.deliver_prefix [OF assms(1) _ _ d(1)] prefix_take_full [OF _ d(2)] d(1) show ?thesis by auto
qed

section \<open>The log line\<close>

lemma printable_digits: "list_all printable (to_string n)"
  using to_string_digits [of n] by (auto simp: list_all_iff is_digit_def printable_def)

lemma printable_two_digits: "list_all printable (two_digits n)"
  by (simp add: two_digits_def printable_digits) (simp add: printable_def)

lemma printable_sanitize: "list_all printable (sanitize v n)"
  unfolding sanitize_def using sanitize_loop_ok [of "[]" n v] by simp

lemma printable_termination: "list_all printable (terminationName code)"
  by (cases code) (simp_all add: printable_def)

text \<open>Whatever method, target, user agent and address a request had, the line logged for it has no
  control byte if the reason has none.\<close>

lemma log_line_clean:
  assumes "list_all printable (rq_reason st)"
  shows "list_all printable (log_line now st code)"
  using assms
  by (simp add: log_line_def log_stamp_def kilobytes_def Let_def printable_digits printable_two_digits
      printable_sanitize printable_termination) (simp add: printable_def)

section \<open>Witnesses\<close>

definition calm_call :: "read_call \<times> size_t" where
  "calm_call = (\<lparr>rc_now = 0, rc_stopInWait = False, rc_stopAtExit = False, rc_fs = sample_fs, rc_short = 0,
     rc_second = 0\<rparr>, 2)"

definition part_context :: TransferContext where
  "part_context = \<lparr>tc_fd = Regular (1, 5), tc_sourceOffset = 1, tc_length = 3, tc_lease = None\<rparr>"

definition idle_server :: FastdlServer where
  "idle_server =
     \<lparr>sv_daemon = True, sv_logging = False, sv_logBase = [], sv_config = default_config, sv_resolver = sample_resolver,
      sv_limiter = rl_init, sv_bandwidth = bl_init\<lparr>bl_stopping := False\<rparr>, sv_metrics = metrics_reset 0,
      sv_compression = cc_init, sv_compressionError = [], sv_logger = lg_init, sv_files = {#}\<rparr>"

lemma calm_calls:
  "list_all (sees part_context ''12345'') (replicate n calm_call)" "list_all undisturbed_call (replicate n calm_call)"
  "limiter_runs (st, idle_server)"
  by (simp_all add: list_all_iff sees_def undisturbed_call_def limiter_runs_def part_context_def calm_call_def
      sample_fs_def idle_server_def bl_init_def)

theorem transfer_completes_witness:
  "\<exists>s'. deliver (read_step part_context) (replicate 4 calm_call) [] (new_request, idle_server) =
     (''234'', Some END_OF_STREAM, s')"
  using transfer_completes [OF calm_calls(1,2) calm_calls(3), of 4 new_request]
  by (simp add: part_context_def)

theorem transfer_exact_witness:
  "\<exists>st' sv'. deliver (read_step part_context) [calm_call] [] (new_request\<lparr>rq_responseSize := 3\<rparr>, idle_server) =
      (''23'', None, (st', sv')) \<and> prefix ''23'' ''234'' \<and> outcome_of st' COMPLETED_OK \<noteq> Completed"
proof -
  let ?st = "new_request\<lparr>rq_responseSize := 3\<rparr>"
  obtain st' sv' where d: "deliver (read_step part_context) [calm_call] [] (?st, idle_server) = (''23'', None, (st', sv'))"
    "rq_responseSize st' = 3"
    by (simp add: read_step_def fileReader_def part_context_def calm_call_def idle_server_def acquire_def bl_init_def
        empty_bucket_def readFileAt_def sample_fs_def new_request_def)
  have "rq_bytesSupplied ?st = 0" "rq_responseSize st' = tc_length part_context"
    "list_all (sees part_context ''12345'') [calm_call]"
    using d(2) calm_calls(1) [of 1] by (simp_all add: new_request_def part_context_def)
  from transfer_exact [OF this(3,1,2) d(1)] d show ?thesis
    by (auto simp: part_context_def)
qed

end
