(* ===== verification/Server_Requests.thy ===== *)
theory Server_Requests
  imports Server_Transfers
begin

text \<open>
  What the request path of the server guarantees for one request: which files it sends, what it
  answers and when it counts a strike, the bytes a transfer delivers, and the log line.
\<close>

section \<open>Which files are sent\<close>

lemma serveFile_sends:
  assumes act: "\<not> rq_activeTransfer (io_state w)"
    and out: "serveFile cn ex f w = (ok, w')"
    and q: "io_queued w' = io_queued w @ [(status, r)]" "rs_body r = Callback ctx"
  shows "\<exists>fd opened. openReadFile (ex_openFs ex) (rf_path f) = Some fd \<and>
    inspectReadFile (ex_inspectFs ex) fd (rf_path f) = Some opened \<and>
    fi_size opened \<le> cf_maxFileBytes (sv_config (io_server w)) \<and>
    sends cn ex (sv_config (io_server w)) (sv_compression (io_server w)) f fd opened status r ctx"
proof -
  have st: "rq_status (io_state w') \<in> {200, 206}"
    using no_callback [where ok = ok, OF _ q] serveFile_ok [OF act, of cn ex f] out by simp
  obtain fd where fd: "openReadFile (ex_openFs ex) (rf_path f) = Some fd"
    using out q by (cases "openReadFile (ex_openFs ex) (rf_path f)") (auto simp: serveFile_def)
  let ?w = "on_files (add_mset fd) w"
  have w: "\<not> rq_activeTransfer (io_state ?w)" "fd \<in># sv_files (io_server ?w)" "io_queued ?w = io_queued w"
    "sv_config (io_server ?w) = sv_config (io_server w)"
    "sv_compression (io_server ?w) = sv_compression (io_server w)"
    using act by (simp_all add: on_files_def)
  obtain opened where opened: "inspectReadFile (ex_inspectFs ex) fd (rf_path f) = Some opened"
    using out q fd w(3) by (cases "inspectReadFile (ex_inspectFs ex) fd (rf_path f)")
      (auto simp: serveFile_def on_files_def)
  have small: "\<not> fi_size opened > cf_maxFileBytes (sv_config (io_server w))"
  proof
    assume big: "fi_size opened > cf_maxFileBytes (sv_config (io_server w))"
    then have "w' = on_files (\<lambda>F. F - {#fd#}) (snd (respondText ex 403 forbidden_body ''file too large'' ?w))"
      using out fd opened w(4) by (auto simp: serveFile_def prod_eq_iff)
    then have "rq_status (io_state w') = 403"
      using respondText_status [OF refl] by (simp add: on_files_def)
    with st show False by simp
  qed
  with out fd opened w(4) have "serve_opened cn ex f fd opened ?w = (ok, w')" by (simp add: serveFile_def)
  from serve_opened_sends [OF w(1,2) this _ q(2), of status] q(1) w fd opened small show ?thesis
    by (simp add: not_less)
qed

lemma dispatch_target_sends:
  assumes act: "\<not> rq_activeTransfer (io_state w)"
    and out: "dispatch_target cn ex w = (ok, w')"
    and q: "io_queued w' = io_queued w @ [(status, r)]" "rs_body r = Callback ctx"
  shows "\<exists>f fd opened. f = resolve (sv_resolver (io_server w)) (ex_resolveFs ex) (ex_entryFs ex) (ex_sizeFs ex)
      (Some (rq_url (io_state w))) (cf_maxFileBytes (sv_config (io_server w))) \<and> rf_status f = Ok \<and>
    openReadFile (ex_openFs ex) (rf_path f) = Some fd \<and>
    inspectReadFile (ex_inspectFs ex) fd (rf_path f) = Some opened \<and>
    fi_size opened \<le> cf_maxFileBytes (sv_config (io_server w)) \<and>
    sends cn ex (sv_config (io_server w)) (sv_compression (io_server w)) f fd opened status r ctx"
proof -
  let ?f = "resolve (sv_resolver (io_server w)) (ex_resolveFs ex) (ex_entryFs ex) (ex_sizeFs ex)
    (Some (rq_url (io_state w))) (cf_maxFileBytes (sv_config (io_server w)))"
  have st: "rq_status (io_state w') \<in> {200, 206}"
    using no_callback [where ok = ok, OF _ q] dispatch_target_well [OF act, of cn ex] out by (simp add: handled_well_def)
  have not_text [simp]: "respondText ex s t reason v \<noteq> (ok, w')" if "s \<in> {403, 404, 500}" for s t reason v
    using st that respondText_status [of ex s t reason v w'] by auto
  have not_deny [simp]: "deny ex reason strike v \<noteq> (ok, w')" for reason strike v
    using st deny_status [of ex reason strike v] by auto
  have ok: "rf_status ?f = Ok"
    using out by (cases "rf_status ?f") (simp_all add: dispatch_target_def Let_def)
  obtain b v where s: "serveFile cn ex ?f w = (b, v)" by fastforce
  with out ok have "b" "v = w'" by (simp_all add: dispatch_target_def Let_def split: if_splits)
  with serveFile_sends [OF act s _ q(2), of status] q(1) ok show ?thesis by blast
qed

text \<open>C2. Only files the policy allows are ever sent. When dispatching a request queued an answer
  whose body is read from a descriptor, then the method was GET or HEAD, the client was not
  blocked, was an accepted client and within its request limit; the resolver answered \<open>Ok\<close>, with
  a path below the configured root in an allowed place and with an allowed extension; the
  descriptor was opened on that path and inspected to be the regular file that the path then led
  to, of at most the configured size; and what is sent is the whole file (200), a non-empty
  range inside it (206), or a cached representation found for this version of it (200, only
  with gzip on), under the entity tag of that version.\<close>

theorem sends_only_policy_files:
  assumes "dispatch cn ex w = (ok, w')" and "\<not> rq_activeTransfer (io_state w)"
    and "io_queued w' = io_queued w @ [(status, r)]" and "rs_body r = Callback ctx"
  shows "good_method (io_state w) \<and> \<not> is_blocked ex w \<and> good_client w \<and> \<not> is_over_limit ex w \<and>
    (\<exists>f names relative i n.
      rf_status f = Ok \<and> validate (Some (rq_url (io_state w))) = Some relative \<and>
      rf_path f = pr_root (sv_resolver (io_server w)) @ names \<and> names \<noteq> [] \<and>
      allowedExtension (sv_resolver (io_server w)) (rf_extension f) \<and>
      served_place (sv_resolver (io_server w)) names relative (rf_extension f) \<and>
      openReadFile (ex_openFs ex) (rf_path f) = Some (Regular i) \<and>
      stat (ex_inspectFs ex) (rf_path f) = Inr n \<and> node_id n = Some i \<and>
      fi_size (info_of (ex_inspectFs ex) i) \<le> cf_maxFileBytes (sv_config (io_server w)) \<and>
      sends cn ex (sv_config (io_server w)) (sv_compression (io_server w)) f (Regular i)
        (info_of (ex_inspectFs ex) i) status r ctx)"
proof -
  let ?w = "after_rate_check ex w"
  have st: "rq_status (io_state w') \<in> {200, 206}"
    using no_callback [where ok = ok, OF _ assms(3,4)] dispatch_well [OF assms(2), of cn ex] assms(1)
    by (simp add: handled_well_def)
  then have "rq_status (io_state (snd (dispatch cn ex w))) \<noteq> 403" using assms(1) by auto
  note passed = dispatch_passed [OF this]
  with assms(1) have out: "dispatch_target cn ex ?w = (ok, w')" by simp
  have same: "sv_resolver (io_server ?w) = sv_resolver (io_server w)"
    "sv_compression (io_server ?w) = sv_compression (io_server w)" "\<not> rq_activeTransfer (io_state ?w)"
    using assms(2) by (simp_all add: after_rate_check_def after_block_check_def began_def io_ops)
  from dispatch_target_sends [OF same(3) out _ assms(4), of status] assms(3)
  obtain f fd opened where f: "f = resolve (sv_resolver (io_server w)) (ex_resolveFs ex) (ex_entryFs ex)
        (ex_sizeFs ex) (Some (rq_url (io_state w))) (cf_maxFileBytes (sv_config (io_server w)))" "rf_status f = Ok"
    "openReadFile (ex_openFs ex) (rf_path f) = Some fd"
    "inspectReadFile (ex_inspectFs ex) fd (rf_path f) = Some opened"
    "fi_size opened \<le> cf_maxFileBytes (sv_config (io_server w))"
    "sends cn ex (sv_config (io_server w)) (sv_compression (io_server w)) f fd opened status r ctx"
    by (auto simp: same)
  from iffD1 [OF resolve_Ok_iff f(2) [unfolded f(1)]] obtain relative names where
    p: "validate (Some (rq_url (io_state w))) = Some relative"
    "rf_path f = pr_root (sv_resolver (io_server w)) @ names"
    "served_place (sv_resolver (io_server w)) names relative (rf_extension f)"
    "allowedExtension (sv_resolver (io_server w)) (rf_extension f)"
    unfolding f(1) by fastforce
  from p(3) have "names \<noteq> []" by (auto simp: served_place_def split: if_splits)
  moreover from inspect_accepts_same_file [OF f(4)] obtain i n where "fd = Regular i"
    "stat (ex_inspectFs ex) (rf_path f) = Inr n" "node_id n = Some i" "opened = info_of (ex_inspectFs ex) i" by blast
  ultimately show ?thesis using passed f(2-6) p by blast
qed

section \<open>Answers\<close>

text \<open>A libmicrohttpd that accepts every call of the request.\<close>

definition obliging :: "exchange \<Rightarrow> bool" where
  "obliging ex \<longleftrightarrow> (\<forall>b. ex_create ex b) \<and> (\<forall>r name value. ex_addHeader ex r name value) \<and> (\<forall>n r. ex_queue ex n r)"

lemma add_headers_obliging:
  "obliging ex \<Longrightarrow> add_headers ex hs r = Some (r\<lparr>rs_headers := rs_headers r @ hs\<rparr>)"
  by (induction ex hs r rule: add_headers.induct) (simp_all add: obliging_def)

lemma respondText_obliging: "obliging ex \<Longrightarrow> fst (respondText ex status t reason w)"
  by (simp add: respondText_def respond_buffer_def add_headers_obliging) (simp add: obliging_def)

lemma deny_obliging: "obliging ex \<Longrightarrow> fst (deny ex reason strike w)"
  by (simp add: deny_def Let_def respondText_obliging)

lemma dispatch_target_obliging: "obliging ex \<Longrightarrow> fst (dispatch_target cn ex w)"
  by (auto simp: dispatch_target_def Let_def respondText_obliging deny_obliging
      split: ResolveStatus.split prod.split)

lemma dispatch_obliging: "obliging ex \<Longrightarrow> fst (dispatch cn ex w)"
  by (cases rule: dispatch_cases [of w cn ex]) (simp_all add: deny_obliging dispatch_target_obliging)

section \<open>A sample request\<close>

text \<open>A request for the map of the sample tree, and a libmicrohttpd that accepts
  every call.\<close>

definition sample_connection :: connection where
  "sample_connection = \<lparr>cn_address = Some (IPv4 0x7F000001), cn_header = map_of
     [(''User-Agent'', ''Valve/Steam HTTP Client 1.0'')]\<rparr>"

definition sample_exchange :: exchange where
  "sample_exchange =
     \<lparr>ex_blockedNow = 1, ex_requestNow = 2, ex_denialNow = 3, ex_attachNow = 4,
      ex_resolveFs = sample_fs, ex_entryFs = sample_fs, ex_sizeFs = sample_fs, ex_openFs = sample_fs,
      ex_inspectFs = sample_fs, ex_metaFs = sample_fs, ex_gzFs = sample_fs, ex_skipFs = sample_fs,
      ex_cacheOpenFs = sample_fs, ex_cacheInspectFs = sample_fs,
      ex_create = (\<lambda>_. True), ex_addHeader = (\<lambda>_ _ _. True), ex_queue = (\<lambda>_ _. True)\<rparr>"

definition sample_request :: "string \<Rightarrow> request_io" where
  "sample_request url = \<lparr>io_server = idle_server,
     io_state = (fresh_request sample_connection (Some url) (Some ''GET''))\<lparr>rq_handled := True\<rparr>, io_queued = []\<rparr>"


lemma obliging_sample: "obliging sample_exchange"
  by (simp add: obliging_def sample_exchange_def)

lemma sample_header: "name \<noteq> ''User-Agent'' \<Longrightarrow> header sample_connection name n = []"
  by (simp add: header_def sample_connection_def boundedCopy_def)

definition sample_file :: ResolvedFile where
  "sample_file = \<lparr>rf_status = Ok, rf_path = [''/'', ''srv'', ''maps'', ''a.bsp''], rf_size = 5, rf_extension = ''.bsp''\<rparr>"

lemma sample_resolve:
  "resolve sample_resolver sample_fs sample_fs sample_fs (Some ''/maps/a.bsp'') (cf_maxFileBytes default_config) = sample_file"
  "openReadFile sample_fs (rf_path sample_file) = Some (Regular (1, 5))"
  "inspectReadFile sample_fs (Regular (1, 5)) (rf_path sample_file) = Some (info_of sample_fs (1, 5))"
  "fi_size (info_of sample_fs (1, 5)) = 5"
  by code_simp+

lemma sample_request_state:
  "io_state (sample_request ''/maps/a.bsp'') = new_request\<lparr>rq_handled := True, rq_ip := ''127.0.0.1'',
     rq_method := ''GET'', rq_url := ''/maps/a.bsp'', rq_userAgent := ''Valve/Steam HTTP Client 1.0''\<rparr>"
  by code_simp

abbreviation map_request :: request_io where "map_request \<equiv> sample_request ''/maps/a.bsp''"

abbreviation map_context :: TransferContext where
  "map_context \<equiv> \<lparr>tc_fd = Regular (1, 5), tc_sourceOffset = 0, tc_length = 5, tc_lease = None\<rparr>"

lemma sample_checks:
  "good_method (io_state map_request)" "\<not> is_blocked sample_exchange map_request" "good_client map_request"
  "\<not> is_over_limit sample_exchange map_request" "\<not> rq_invalidTarget (io_state map_request)"
proof -
  have c: "sv_config (io_server map_request) = default_config" "sv_limiter (io_server map_request) = rl_init"
    by (simp_all add: sample_request_def idle_server_def)
  note s = sample_request_state
  show "good_method (io_state map_request)" by (simp add: good_method_def s)
  show "\<not> is_blocked sample_exchange map_request" by (simp add: is_blocked_def c rl_init_def blocked_def cleanup_def Let_def)
  have "steamClient ''Valve/Steam HTTP Client 1.0''" by code_simp
  then show "good_client map_request" by (simp add: good_client_def s)
  show "\<not> is_over_limit sample_exchange map_request"
    by (simp add: is_over_limit_def c s default_config_def sample_exchange_def blocked_def eval_limiter)
  show "\<not> rq_invalidTarget (io_state map_request)" by (simp add: s new_request_def)
qed

lemma sample_not_modified: "\<not> not_modified sample_connection sample_exchange opened etag"
  by (simp add: not_modified_def sample_header parseHttpDate_def)

lemma sample_range: "effective_range sample_connection sample_exchange opened = no_range"
  by (simp add: effective_range_def sample_header parseRange_def trimAscii_def trim_of_def Let_def)

lemma sample_dispatch:
  "\<exists>w' r. dispatch sample_connection sample_exchange map_request = (True, w') \<and>
     io_queued w' = io_queued map_request @ [(200, r)] \<and> rs_body r = Callback map_context"
proof -
  let ?w = "after_rate_check sample_exchange map_request"
  have d: "dispatch sample_connection sample_exchange map_request = dispatch_target sample_connection sample_exchange ?w"
    using sample_checks by (cases rule: dispatch_cases [of map_request sample_connection sample_exchange]) simp_all
  have w: "sv_resolver (io_server ?w) = sample_resolver" "sv_config (io_server ?w) = default_config"
    "rq_url (io_state ?w) = ''/maps/a.bsp''" "sv_bandwidth (io_server ?w) = bl_init\<lparr>bl_stopping := False\<rparr>"
    by (simp_all add: sample_request_state new_request_def)
      (simp_all add: after_rate_check_def after_block_check_def began_def io_ops sample_request_def idle_server_def)
  have c: "sv_config (io_server map_request) = default_config" by (simp add: sample_request_def idle_server_def)
  have u: "rq_url (io_state map_request) = ''/maps/a.bsp''" by (simp add: sample_request_state new_request_def)
  have ex: "ex_resolveFs sample_exchange = sample_fs" "ex_entryFs sample_exchange = sample_fs"
    "ex_sizeFs sample_exchange = sample_fs" "ex_openFs sample_exchange = sample_fs" "ex_inspectFs sample_exchange = sample_fs"
    by (simp_all add: sample_exchange_def)
  let ?v = "on_files (add_mset (Regular (1, 5))) ?w"
  have v: "sv_config (io_server ?v) = default_config" "sv_bandwidth (io_server ?v) = bl_init\<lparr>bl_stopping := False\<rparr>"
    "io_queued ?v = io_queued map_request"
    using w by (simp_all add: on_files_def)
  have "\<not> fi_size (info_of sample_fs (1, 5)) > cf_maxFileBytes default_config"
    by (simp add: sample_resolve default_config_def)
  then have "serveFile sample_connection sample_exchange sample_file ?w =
      serve_opened sample_connection sample_exchange sample_file (Regular (1, 5)) (info_of sample_fs (1, 5)) ?v"
    using v by (simp add: serveFile_def ex sample_resolve)
  moreover have "choose_representation sample_connection sample_exchange sample_file (info_of sample_fs (1, 5)) False
      (Regular (1, 5)) 5 ?v = (Regular (1, 5), 5, False, ?v)"
    by (simp add: choose_representation_def v) (simp add: default_config_def)
  ultimately have serve: "serveFile sample_connection sample_exchange sample_file ?w =
      respond_file sample_exchange sample_file (info_of sample_fs (1, 5)) (makeEtag (info_of sample_fs (1, 5)) False)
        False False 0 5 (Regular (1, 5)) ?v"
    by (simp add: serve_opened_def Let_def sample_range sample_not_modified no_range_def sample_resolve)
  have lease: "attach ip now (bl_init\<lparr>bl_stopping := False\<rparr>) = (None, bl_init\<lparr>bl_stopping := False\<rparr>)" for ip now
    by (simp add: attach_def bl_init_def)
  define r where "r = \<lparr>rs_body = Callback map_context, rs_headers = file_headers default_config sample_file
    (info_of sample_fs (1, 5)) (makeEtag (info_of sample_fs (1, 5)) False) False False 0 5\<rparr>"
  have "\<exists>w'. serveFile sample_connection sample_exchange sample_file ?w = (True, w') \<and>
      io_queued w' = io_queued map_request @ [(200, r)]"
    unfolding serve respond_file_def Let_def
    using obliging_sample
    by (simp add: v lease add_headers_obliging r_def split_def io_ops) (simp add: obliging_def w lease c)
  moreover have "rs_body r = Callback map_context" by (simp add: r_def)
  ultimately show ?thesis
    by (auto simp: d dispatch_target_def Let_def w ex c u sample_resolve) (auto simp: sample_file_def)
qed

section \<open>What is answered\<close>

text \<open>C6. Every request gets exactly one answer, and the request state describes it. Dispatching
  returns MHD_YES exactly when it queued a response, one; its status is the recorded one and
  among 200, 206, 304, 403, 404, 416 and 500, its length the recorded response size; a transfer
  is marked active exactly for a GET that is answered from a descriptor. Nothing is queued when
  it returns MHD_NO, which cannot happen as long as libmicrohttpd accepts its calls.\<close>

theorem request_answered:
  assumes "dispatch cn ex w = (ok, w')" and "\<not> rq_activeTransfer (io_state w)"
  shows "(if ok
      then \<exists>status r. io_queued w' = io_queued w @ [(status, r)] \<and> rq_status (io_state w') = status \<and>
        status \<in> {200, 206, 304, 403, 404, 416, 500} \<and>
        rq_responseSize (io_state w') = body_length (rs_body r) \<and>
        (rq_activeTransfer (io_state w') \<longleftrightarrow> rq_method (io_state w) = ''GET'' \<and> status \<in> {200, 206}) \<and>
        (status \<in> {200, 206} \<longleftrightarrow> (\<exists>ctx. rs_body r = Callback ctx))
      else io_queued w' = io_queued w \<and> \<not> rq_activeTransfer (io_state w') \<and> \<not> obliging ex)"
proof -
  have well: "answered w (ok, w')" "accounted w w'"
    using dispatch_well [OF assms(2), of cn ex] assms(1) by (simp_all add: handled_well_def)
  show ?thesis
  proof (cases ok)
    case True
    with well(1) obtain status r where a: "io_queued w' = io_queued w @ [(status, r)]"
      "matches_state (io_state w') (status, r)" by (auto simp: answered_def)
    have "rq_method (io_state w') = rq_method (io_state w)" using well(2) by (simp add: accounted_def)
    with True a show ?thesis
      by (cases "rs_body r") (auto simp: matches_state_def)
  next
    case False
    with well(1) dispatch_obliging [of ex cn w] assms(1) show ?thesis by (auto simp: answered_def)
  qed
qed

lemma respondText_reason:
  "snd (respondText ex status t reason w) = w' \<Longrightarrow> rq_reason (io_state w') = reason"
  by (auto simp: respondText_def respond_buffer_def io_ops split: option.splits)

lemma deny_reason: "rq_reason (io_state (snd (deny ex reason strike w))) = reason"
  unfolding deny_def Let_def using respondText_reason by blast

lemma serve_opened_status:
  assumes act: "\<not> rq_activeTransfer (io_state w)" and fd: "fd \<in># sv_files (io_server w)"
    and out: "serve_opened cn ex f fd opened w = (True, w')"
  shows "rq_status (io_state w') \<noteq> 403"
proof -
  have a: "\<exists>a. io_queued w' = io_queued w @ [a] \<and> matches_state (io_state w') a"
    using serve_opened_ok [OF act fd out [symmetric]] by (simp add: answered_def)
  let ?range = "effective_range cn ex opened"
  show ?thesis
  proof (cases "br_status ?range = RangeInvalid \<or> br_status ?range = RangeUnsatisfiable")
    case True
    with out have "w' = on_files (\<lambda>F. F - {#fd#}) (snd (respondRangeError ex (fi_size opened) w))"
      by (auto simp: serve_opened_def Let_def prod_eq_iff)
    then show ?thesis
      by (auto simp: respondRangeError_def respond_buffer_def io_ops split: option.splits if_splits)
  next
    case valid: False
    let ?partial = "br_status ?range = RangeValid"
    obtain fd' len z v where ch: "choose_representation cn ex f opened ?partial fd
        (if ?partial then br_length ?range else fi_size opened) w = (fd', len, z, v)"
      by (metis prod.exhaust)
    show ?thesis
    proof (cases "not_modified cn ex opened (makeEtag opened z)")
      case True
      with out valid have "apsnd (on_files (\<lambda>F. F - {#fd'#}))
          (respond_not_modified ex (makeEtag opened z) (httpDate (modifiedSeconds opened)) z v) = (True, w')"
        by (simp add: serve_opened_def Let_def ch)
      then show ?thesis
        by (auto simp: respond_not_modified_def io_ops Let_def apsnd_def split: option.splits if_splits)
    next
      case False
      with out valid have sent: "respond_file ex f opened (makeEtag opened z) z ?partial
          (if ?partial then br_start ?range else 0) len fd' v = (True, w')"
        by (simp add: serve_opened_def Let_def ch)
      show ?thesis
        by (cases rule: respond_file_cases [of v ex f opened "makeEtag opened z" z ?partial
              "if ?partial then br_start ?range else 0" len fd']) (use sent in auto)
    qed
  qed
qed

lemma serveFile_403:
  assumes act: "\<not> rq_activeTransfer (io_state w)" and out: "serveFile cn ex f w = (True, w')"
    and st: "rq_status (io_state w') = 403"
  shows "rq_reason (io_state w') = ''file too large''"
proof -
  obtain fd where fd: "openReadFile (ex_openFs ex) (rf_path f) = Some fd"
    using out by (cases "openReadFile (ex_openFs ex) (rf_path f)") (auto simp: serveFile_def)
  let ?w = "on_files (add_mset fd) w"
  obtain opened where opened: "inspectReadFile (ex_inspectFs ex) fd (rf_path f) = Some opened"
    using out fd by (cases "inspectReadFile (ex_inspectFs ex) fd (rf_path f)") (auto simp: serveFile_def)
  have w: "\<not> rq_activeTransfer (io_state ?w)" "fd \<in># sv_files (io_server ?w)"
    using act by (simp_all add: on_files_def)
  have "fi_size opened > cf_maxFileBytes (sv_config (io_server ?w))"
    using out fd opened st serve_opened_status [OF w, of cn ex f opened w'] by (auto simp: serveFile_def Let_def split: if_splits)
  with out fd opened have "apsnd (on_files (\<lambda>F. F - {#fd#})) (respondText ex 403 forbidden_body ''file too large'' ?w) = (True, w')"
    by (simp add: serveFile_def)
  then have "io_state w' = io_state (snd (respondText ex 403 forbidden_body ''file too large'' ?w))"
    by (auto simp: on_files_def prod_eq_iff)
  with respondText_reason [OF refl] show ?thesis by simp
qed

definition struck :: "RequestState \<Rightarrow> bool" where
  "struck st \<longleftrightarrow> rq_status st = 403 \<and> rq_reason st \<notin> {''blocked'', ''rate limit'', ''file too large''}"

lemma deny_struck:
  "struck (io_state (snd (deny ex reason strike w))) \<longleftrightarrow> reason \<notin> {''blocked'', ''rate limit'', ''file too large''}"
  by (simp add: struck_def deny_status deny_reason)

lemma respondText_struck:
  "struck (io_state (snd (respondText ex status t reason w))) \<longleftrightarrow>
     status = 403 \<and> reason \<notin> {''blocked'', ''rate limit'', ''file too large''}"
  by (simp add: struck_def respondText_status [OF refl] respondText_reason [OF refl])

lemma dispatch_target_strikes:
  assumes act: "\<not> rq_activeTransfer (io_state w)"
  shows "sv_limiter (io_server (snd (dispatch_target cn ex w))) =
    foldl rl_step (sv_limiter (io_server w))
      (if struck (io_state (snd (dispatch_target cn ex w))) then [strike_event ex w] else [])"
proof -
  let ?f = "resolve (sv_resolver (io_server w)) (ex_resolveFs ex) (ex_entryFs ex) (ex_sizeFs ex)
    (Some (rq_url (io_state w))) (cf_maxFileBytes (sv_config (io_server w)))"
  show ?thesis
  proof (cases "rf_status ?f")
    case Ok
    obtain ok w' where s: "serveFile cn ex ?f w = (ok, w')" by fastforce
    from serveFile_ok [OF act, of cn ex ?f] have sf: "answered w (ok, w')"
      "sv_limiter (io_server w') = sv_limiter (io_server w)" by (simp_all add: s)
    show ?thesis
    proof (cases ok)
      case True
      with serveFile_403 [OF act, of cn ex ?f w'] s have "\<not> struck (io_state w')" by (auto simp: struck_def)
      with Ok s True sf show ?thesis by (simp add: dispatch_target_def Let_def)
    next
      case False
      with sf(1) have "\<not> rq_activeTransfer (io_state w')" by (simp add: answered_def)
      with Ok s False sf(2) show ?thesis
        by (simp add: dispatch_target_def Let_def respondText_struck respondText_ok(3))
    qed
  qed (use act in \<open>simp_all add: dispatch_target_def Let_def respondText_struck respondText_ok(3) deny_struck deny_limiter\<close>)
qed

text \<open>C7. Strikes are counted for policy violations only. Dispatching makes the limiter operations
  of the checks it reached, in order, and records one denial exactly when the answer is a 403
  whose reason is not an existing block, the request limit or the size of the file; so
  missing files, server errors, refused ranges and files that are served never bring a client
  closer to a block. The denial is charged to the address of the request with the configured
  limits.\<close>

theorem strikes_exact:
  assumes "dispatch cn ex w = (ok, w')" and "\<not> rq_activeTransfer (io_state w)"
  shows "\<exists>n \<le> 2. sv_limiter (io_server w') = foldl rl_step (sv_limiter (io_server w))
      (take n [(ex_blockedNow ex, Blocked (rq_ip (io_state w))),
         (ex_requestNow ex, RequestExceeded (rq_ip (io_state w)) (cf_requestsPerMinute (sv_config (io_server w))))] @
       (if rq_status (io_state w') = 403 \<and>
           rq_reason (io_state w') \<notin> {''blocked'', ''rate limit'', ''file too large''}
        then [(ex_denialNow ex, RecordDenial (rq_ip (io_state w)) (cf_denialsPerMinute (sv_config (io_server w)))
                 (cf_blockSeconds (sv_config (io_server w))))] else []))"
proof -
  have w': "w' = snd (dispatch cn ex w)" by (simp add: assms(1))
  note denied = deny_struck deny_limiter assms(2) check_events_def after_rate_limiter
  have "\<exists>n \<le> 2. sv_limiter (io_server w') = foldl rl_step (sv_limiter (io_server w))
      (take n (check_events ex w) @ (if struck (io_state w') then [strike_event ex w] else []))"
  proof (cases rule: dispatch_cases [of w cn ex])
    case bad_method
    with w' have "w' = snd (deny ex ''invalid method'' True (began w))" by simp
    then show ?thesis by (intro exI [of _ 0]) (simp add: denied)
  next
    case block
    with w' have "w' = snd (deny ex ''blocked'' False (after_block_check ex w))" by simp
    then show ?thesis by (intro exI [of _ 1]) (simp add: denied)
  next
    case client
    with w' have "w' = snd (deny ex ''non-steam client denied'' True (after_block_check ex w))" by simp
    then show ?thesis by (intro exI [of _ 1]) (simp add: denied)
  next
    case rate
    with w' have "w' = snd (deny ex ''rate limit'' False (after_rate_check ex w))" by simp
    then show ?thesis by (intro exI [of _ 2]) (simp add: denied)
  next
    case target
    with w' have "w' = snd (deny ex ''invalid path'' True (after_rate_check ex w))" by simp
    then show ?thesis by (intro exI [of _ 2]) (simp add: denied)
  next
    case passed
    with w' have "w' = snd (dispatch_target cn ex (after_rate_check ex w))" by simp
    then show ?thesis
      using dispatch_target_strikes [of "after_rate_check ex w" cn ex]
      by (intro exI [of _ 2]) (simp add: denied)
  qed
  then show ?thesis by (simp only: check_events_def struck_def strike_event_def)
qed

section \<open>Witnesses\<close>

lemma map_request_idle: "\<not> rq_activeTransfer (io_state map_request)"
  by (simp add: sample_request_state new_request_def)

theorem sends_only_policy_files_witness:
  "\<exists>(f :: ResolvedFile) i. good_method (io_state map_request) \<and> rf_status f = Ok \<and>
     openReadFile (ex_openFs sample_exchange) (rf_path f) = Some (Regular i)"
proof -
  obtain w' r where "dispatch sample_connection sample_exchange map_request = (True, w')"
    "io_queued w' = io_queued map_request @ [(200, r)]" "rs_body r = Callback map_context"
    using sample_dispatch by blast
  from sends_only_policy_files [OF this(1) map_request_idle this(2,3)] show ?thesis by blast
qed

theorem request_answered_witness:
  "\<exists>w' status r. dispatch sample_connection sample_exchange map_request = (True, w') \<and>
     io_queued w' = io_queued map_request @ [(status, r)] \<and> rq_status (io_state w') = status \<and>
     rq_responseSize (io_state w') = body_length (rs_body r)"
proof -
  obtain w' where d: "dispatch sample_connection sample_exchange map_request = (True, w')"
    using sample_dispatch by blast
  from request_answered [OF d map_request_idle] d show ?thesis by auto
qed

theorem strikes_exact_witness:
  "\<exists>w' n. dispatch sample_connection sample_exchange map_request = (True, w') \<and> n \<le> 2 \<and>
     sv_limiter (io_server w') = foldl rl_step (sv_limiter (io_server map_request))
       (take n [(1, Blocked ''127.0.0.1''), (2, RequestExceeded ''127.0.0.1'' 500)])"
proof -
  obtain w' r where d: "dispatch sample_connection sample_exchange map_request = (True, w')"
    "io_queued w' = io_queued map_request @ [(200, r)]" "rs_body r = Callback map_context"
    using sample_dispatch by blast
  have "rq_status (io_state w') \<noteq> 403"
    using no_callback [OF _ d(2,3), of True] dispatch_well [OF map_request_idle, of sample_connection sample_exchange] d(1)
    by (auto simp: handled_well_def)
  moreover have "rq_ip (io_state map_request) = ''127.0.0.1''" "ex_blockedNow sample_exchange = 1"
    "ex_requestNow sample_exchange = 2" "cf_requestsPerMinute (sv_config (io_server map_request)) = 500"
    by (simp_all add: sample_request_state new_request_def)
      (simp_all add: sample_exchange_def sample_request_def idle_server_def default_config_def)
  ultimately show ?thesis
    using strikes_exact [OF d(1) map_request_idle] d(1) by auto
qed

end
