(* ===== verification/Server_System.thy ===== *)
theory Server_System
  imports Server_Requests
begin

text \<open>
  The running server as one transition system: the requests libmicrohttpd has open, with their
  state, the answers queued for them and the position of their transfer, beside the server. A
  step is one call of a handler, a reader or a completion callback, one step of a worker thread,
  or an administrator's unblock, in any order. libmicrohttpd opens no more requests than its
  connection limit, reads a body only for GET, and drops a request's responses when it ends.
\<close>

section \<open>The system\<close>

record live =
  lv_state :: RequestState
  lv_queued :: "(nat \<times> response) list"
  lv_position :: nat

record system =
  sy_server :: FastdlServer
  sy_live :: "(nat \<times> live) list"

datatype sy_event =
    Access nat connection exchange "string option" "string option" nat
  | Read nat read_call size_t
  | Finish nat tm TerminationCode
  | Unblocked int string
  | CacheWork cc_event
  | LogWork lg_event

definition sy_access ::
  "nat \<Rightarrow> connection \<Rightarrow> exchange \<Rightarrow> string option \<Rightarrow> string option \<Rightarrow> nat \<Rightarrow> system \<Rightarrow> system" where
  "sy_access n cn ex url meth upload s =
     (case map_of (sy_live s) n of
        None \<Rightarrow>
          if length (sy_live s) \<ge> unat (cf_maxConnections (sv_config (sy_server s))) then s
          else (case handleRequest True cn ex url meth upload None (sy_server s) of
              (ok, Some st, _, sv, q) \<Rightarrow>
                \<lparr>sy_server = sv,
                 sy_live = AList.update n \<lparr>lv_state = st, lv_queued = q, lv_position = 0\<rparr> (sy_live s)\<rparr>
            | _ \<Rightarrow> s)
      | Some l \<Rightarrow>
          (case handleRequest True cn ex url meth upload (Some (lv_state l)) (sy_server s) of
             (ok, Some st, _, sv, q) \<Rightarrow>
               \<lparr>sy_server = sv,
                sy_live = AList.update n (l\<lparr>lv_state := st, lv_queued := lv_queued l @ q\<rparr>) (sy_live s)\<rparr>
           | _ \<Rightarrow> s))"

definition sy_read :: "nat \<Rightarrow> read_call \<Rightarrow> size_t \<Rightarrow> system \<Rightarrow> system" where
  "sy_read n rc room s =
     (case map_of (sy_live s) n of
        None \<Rightarrow> s
      | Some l \<Rightarrow>
          (case contexts (lv_queued l) of
             ctx # _ \<Rightarrow>
               if rq_method (lv_state l) \<noteq> ''GET'' then s
               else (case fileReader ctx rc (of_nat (lv_position l)) room (lv_state l) (sy_server s) of
                   (r, st, sv) \<Rightarrow>
                     \<lparr>sy_server = sv,
                      sy_live = AList.update n (l\<lparr>lv_state := st, lv_position := lv_position l +
                        (case r of Supplied bs \<Rightarrow> length bs | _ \<Rightarrow> 0)\<rparr>) (sy_live s)\<rparr>)
           | [] \<Rightarrow> s))"

definition sy_finish :: "nat \<Rightarrow> tm \<Rightarrow> TerminationCode \<Rightarrow> system \<Rightarrow> system" where
  "sy_finish n now code s =
     (case map_of (sy_live s) n of
        None \<Rightarrow> s
      | Some l \<Rightarrow>
          \<lparr>sy_server = foldr fileReaderFree (contexts (lv_queued l))
             (snd (requestCompleted now code (Some (lv_state l)) (sy_server s))),
           sy_live = AList.delete n (sy_live s)\<rparr>)"

fun sy_step :: "system \<Rightarrow> sy_event \<Rightarrow> system" where
  "sy_step s (Access n cn ex url meth upload) = sy_access n cn ex url meth upload s"
| "sy_step s (Read n rc room) = sy_read n rc room s"
| "sy_step s (Finish n now code) = sy_finish n now code s"
| "sy_step s (Unblocked now ip) =
     s\<lparr>sy_server := (sy_server s)\<lparr>sv_limiter := snd (unblock ip (sv_limiter (sy_server s)))\<rparr>\<rparr>"
| "sy_step s (CacheWork e) =
     s\<lparr>sy_server := (sy_server s)\<lparr>sv_compression := cc_step (sv_compression (sy_server s)) e\<rparr>\<rparr>"
| "sy_step s (LogWork e) =
     (case e of LWrite line \<Rightarrow> s
      | _ \<Rightarrow> s\<lparr>sy_server := (sy_server s)\<lparr>sv_logger := lg_step (sv_logger (sy_server s)) e\<rparr>\<rparr>)"

definition fresh_server :: "FastdlConfig \<Rightarrow> PathResolver \<Rightarrow> FastdlServer" where
  "fresh_server cfg r =
     \<lparr>sv_daemon = True, sv_logging = False, sv_logBase = [], sv_config = cfg, sv_resolver = r,
      sv_limiter = rl_init, sv_bandwidth = bl_init\<lparr>bl_stopping := False\<rparr>, sv_metrics = metrics_reset 0,
      sv_compression = cc_init, sv_compressionError = [], sv_logger = lg_init, sv_files = {#}\<rparr>"

definition sy_start :: "FastdlConfig \<Rightarrow> PathResolver \<Rightarrow> system" where
  "sy_start cfg r = \<lparr>sy_server = fresh_server cfg r, sy_live = []\<rparr>"

section \<open>The invariant\<close>

text \<open>A request that is open: before it is handled nothing is queued for it; afterwards at most one
  answer, the one its state describes.\<close>

definition live_ok :: "live \<Rightarrow> bool" where
  "live_ok l \<longleftrightarrow> list_all printable (rq_reason (lv_state l)) \<and>
     (lv_queued l = [] \<and> \<not> rq_activeTransfer (lv_state l) \<or>
      rq_handled (lv_state l) \<and> (\<exists>a. lv_queued l = [a] \<and> matches_state (lv_state l) a))"

definition files_held :: "descriptor \<Rightarrow> live \<Rightarrow> nat" where
  "files_held d l = count (mset (map tc_fd (contexts (lv_queued l)))) d"

definition leases_held :: "client_ref \<Rightarrow> live \<Rightarrow> nat" where
  "leases_held r l = count (mset (lease_list (contexts (lv_queued l)))) r"

definition is_active :: "live \<Rightarrow> nat" where
  "is_active l = (if rq_activeTransfer (lv_state l) then 1 else 0)"

definition sys_inv :: "system \<Rightarrow> bool" where
  "sys_inv s \<longleftrightarrow>
     distinct (map fst (sy_live s)) \<and>
     length (sy_live s) \<le> unat (cf_maxConnections (sv_config (sy_server s))) \<and>
     rl_inv (sv_limiter (sy_server s)) \<and>
     (\<forall>l \<in> snd ` set (sy_live s). live_ok l) \<and>
     (\<forall>d. count (sv_files (sy_server s)) d = weigh (files_held d) (sy_live s)) \<and>
     (\<forall>r. count (mset (bl_leases (sv_bandwidth (sy_server s)))) r = weigh (leases_held r) (sy_live s)) \<and>
     unat (tm_active (sv_metrics (sy_server s))) = weigh is_active (sy_live s) \<and>
     list_all (list_all printable) (lg_offered (sv_logger (sy_server s)))"

lemma weigh_active_le: "weigh is_active xs \<le> length xs"
  by (induction xs) (auto simp: is_active_def)

lemma live_at: "sys_inv s \<Longrightarrow> map_of (sy_live s) n = Some l \<Longrightarrow> live_ok l"
  by (force simp: sys_inv_def dest: map_of_SomeD)

lemma set_update_live: "snd ` set (AList.update n l xs) \<subseteq> insert l (snd ` set xs)"
  by (rule snd_set_update)

text \<open>Replacing one open request keeps the invariant if the server changed by the difference.\<close>

lemma sys_inv_update:
  assumes inv: "sys_inv s" and l: "map_of (sy_live s) n = Some l" and ok: "live_ok l'"
    and cfg: "sv_config sv = sv_config (sy_server s)" and rl: "rl_inv (sv_limiter sv)"
    and files: "\<And>d. count (sv_files sv) d + files_held d l = count (sv_files (sy_server s)) d + files_held d l'"
    and leases: "\<And>r. count (mset (bl_leases (sv_bandwidth sv))) r + leases_held r l =
      count (mset (bl_leases (sv_bandwidth (sy_server s)))) r + leases_held r l'"
    and act: "unat (tm_active (sv_metrics sv)) + is_active l = unat (tm_active (sv_metrics (sy_server s))) + is_active l'"
    and log: "lg_offered (sv_logger sv) = lg_offered (sv_logger (sy_server s))"
  shows "sys_inv \<lparr>sy_server = sv, sy_live = AList.update n l' (sy_live s)\<rparr>"
proof -
  note w = weigh_update_Some [OF l, of _ l']
  have "count (sv_files sv) d = weigh (files_held d) (AList.update n l' (sy_live s))" for d
    using files [of d] w [of "files_held d"] inv by (simp add: sys_inv_def)
  moreover have "count (mset (bl_leases (sv_bandwidth sv))) r = weigh (leases_held r) (AList.update n l' (sy_live s))" for r
    using leases [of r] w [of "leases_held r"] inv by (simp add: sys_inv_def)
  moreover have "unat (tm_active (sv_metrics sv)) = weigh is_active (AList.update n l' (sy_live s))"
    using act w [of is_active] inv by (simp add: sys_inv_def)
  moreover have "\<forall>x \<in> snd ` set (AList.update n l' (sy_live s)). live_ok x"
    using set_update_live [of n l' "sy_live s"] ok inv unfolding sys_inv_def by blast
  ultimately show ?thesis
    using inv cfg rl log by (simp add: sys_inv_def distinct_update length_update_Some [OF l])
qed


lemma handleRequest_cases:
  assumes "rq_handled st \<or> upload \<noteq> 0"
  shows "handleRequest True cn ex url meth upload (Some st) sv =
    (True, Some st, (if upload \<noteq> 0 then 0 else upload), sv, [])"
  using assms by (auto simp: handleRequest_def)

lemma fresh_request_idle:
  "rq_activeTransfer (fresh_request cn url meth) = False" "rq_handled (fresh_request cn url meth) = False"
  "rq_reason (fresh_request cn url meth) = []" "rq_bytesSupplied (fresh_request cn url meth) = 0"
  by (cases "boundedCopy meth 16"; cases "boundedCopy url 2048"; simp add: fresh_request_def new_request_def)+

lemma sys_inv_insert:
  assumes inv: "sys_inv s" and new: "map_of (sy_live s) n = None" and ok: "live_ok l"
    and none: "lv_queued l = []" "is_active l = 0"
    and room: "length (sy_live s) < unat (cf_maxConnections (sv_config (sy_server s)))"
  shows "sys_inv \<lparr>sy_server = sy_server s, sy_live = AList.update n l (sy_live s)\<rparr>"
proof -
  have "weigh g (AList.update n l (sy_live s)) = weigh g (sy_live s)" if "g l = 0" for g
    using weigh_update_None [OF new, of g l] that by simp
  moreover have "files_held d l = 0" "leases_held r l = 0" for d r
    using none by (simp_all add: files_held_def leases_held_def)
  moreover have "\<forall>x \<in> snd ` set (AList.update n l (sy_live s)). live_ok x"
    using set_update_live [of n l "sy_live s"] ok inv unfolding sys_inv_def by blast
  ultimately show ?thesis
    using inv room none(2) by (simp add: sys_inv_def distinct_update length_update_None [OF new])
qed

lemma sys_inv_access_new:
  assumes inv: "sys_inv s" and new: "map_of (sy_live s) n = None"
    and room: "length (sy_live s) < unat (cf_maxConnections (sv_config (sy_server s)))"
  shows "sys_inv (sy_access n cn ex url meth upload s)"
proof -
  let ?l = "\<lparr>lv_state = fresh_request cn url meth, lv_queued = [], lv_position = 0\<rparr>"
  have "sy_access n cn ex url meth upload s =
      \<lparr>sy_server = sy_server s, sy_live = AList.update n ?l (sy_live s)\<rparr>"
    using new room by (simp add: sy_access_def handleRequest_def)
  moreover have "live_ok ?l" "is_active ?l = 0"
    by (simp_all add: live_ok_def is_active_def fresh_request_idle)
  ultimately show ?thesis using sys_inv_insert [OF inv new, of ?l] room by simp
qed

lemma dispatch_rl_inv:
  assumes "\<not> rq_activeTransfer (io_state w)" "rl_inv (sv_limiter (io_server w))"
  shows "rl_inv (sv_limiter (io_server (snd (dispatch cn ex w))))"
  using dispatch_limiter [OF assms(1), of cn ex] rl.inv_run [OF assms(2)] by metis

lemma sys_inv_dispatch:
  assumes inv: "sys_inv s" and l: "map_of (sy_live s) n = Some l" and todo: "\<not> rq_handled (lv_state l)"
  shows "sys_inv (sy_access n cn ex url meth 0 s)"
proof -
  let ?w = "\<lparr>io_server = sy_server s, io_state = (lv_state l)\<lparr>rq_handled := True\<rparr>, io_queued = []\<rparr>"
  obtain ok w where d: "dispatch cn ex ?w = (ok, w)" by fastforce
  let ?l = "l\<lparr>lv_state := io_state w, lv_queued := io_queued w\<rparr>"
  from live_at [OF inv l] todo have old: "lv_queued l = []" "\<not> rq_activeTransfer (lv_state l)"
    "list_all printable (rq_reason (lv_state l))" by (auto simp: live_ok_def)
  then have act: "\<not> rq_activeTransfer (io_state ?w)" by simp
  from dispatch_well [OF act, of cn ex] have ans: "answered ?w (ok, w)" and acc: "accounted ?w w"
    by (simp_all add: d handled_well_def)
  have run: "sy_access n cn ex url meth 0 s =
      \<lparr>sy_server = io_server w, sy_live = AList.update n ?l (sy_live s)\<rparr>"
    using l todo old(1) d by (simp add: sy_access_def handleRequest_def)
  have files: "sv_files (io_server w) = sv_files (sy_server s) + mset (map tc_fd (contexts (io_queued w)))"
    and leases: "mset (bl_leases (sv_bandwidth (io_server w))) =
      mset (bl_leases (sv_bandwidth (sy_server s))) + mset (lease_list (contexts (io_queued w)))"
    using acc by (simp_all add: accounted_def)
  have small: "unat (tm_active (sv_metrics (sy_server s))) < 4294967296"
  proof -
    have "unat (tm_active (sv_metrics (sy_server s))) \<le> length (sy_live s)"
      using inv weigh_active_le [of "sy_live s"] by (simp add: sys_inv_def)
    also have "\<dots> \<le> unat (cf_maxConnections (sv_config (sy_server s)))" using inv by (simp add: sys_inv_def)
    also have "\<dots> < 4294967296" by (rule unat_size_t_less)
    finally show ?thesis .
  qed
  show ?thesis
    unfolding run
  proof (rule sys_inv_update [OF inv l])
    show "live_ok ?l"
      using ans acc old by (cases ok) (auto simp: live_ok_def answered_def accounted_def)
    show "rl_inv (sv_limiter (io_server w))"
      using dispatch_rl_inv [OF act, of cn ex] inv by (simp add: d sys_inv_def)
    show "unat (tm_active (sv_metrics (io_server w))) + is_active l =
        unat (tm_active (sv_metrics (sy_server s))) + is_active ?l"
      using acc old small by (auto simp: accounted_def active_change_def is_active_def saturatingAdd_def unat_saturate)
  qed (use acc old(1) in \<open>auto simp: accounted_def files_held_def leases_held_def files leases\<close>)
qed

lemma sys_inv_access: "sys_inv s \<Longrightarrow> sys_inv (sy_access n cn ex url meth upload s)"
proof (cases "map_of (sy_live s) n")
  case None
  assume inv: "sys_inv s"
  show ?thesis
  proof (cases "length (sy_live s) \<ge> unat (cf_maxConnections (sv_config (sy_server s)))")
    case True
    with None inv show ?thesis by (simp add: sy_access_def)
  next
    case False
    with sys_inv_access_new [OF inv None] show ?thesis by simp
  qed
next
  case (Some l)
  assume inv: "sys_inv s"
  show ?thesis
  proof (cases "rq_handled (lv_state l) \<or> upload \<noteq> 0")
    case True
    then have "sy_access n cn ex url meth upload s = \<lparr>sy_server = sy_server s, sy_live = AList.update n l (sy_live s)\<rparr>"
      using Some by (simp add: sy_access_def handleRequest_cases)
    with sys_inv_update [OF inv Some live_at [OF inv Some], of "sy_server s"] inv show ?thesis
      by (simp add: sys_inv_def)
  next
    case False
    with sys_inv_dispatch [OF inv Some] show ?thesis by simp
  qed
qed

lemma fileReader_frame:
  assumes "fileReader ctx rc pos n st sv = (r, st', sv')"
  obtains k bw m where "st' = st\<lparr>rq_bytesSupplied := k\<rparr>" "sv' = sv\<lparr>sv_bandwidth := bw, sv_metrics := m\<rparr>"
    "bl_leases bw = bl_leases (sv_bandwidth sv)" "tm_active m = tm_active (sv_metrics sv)"
proof -
  define req where "req = (ucast (min (tc_length ctx - pos) (ucast n)) :: size_t)"
  obtain g t bw where a: "acquire (tc_lease ctx) req (rc_now rc) (rc_stopInWait rc) (rc_stopAtExit rc)
      (sv_bandwidth sv) = (g, t, bw)" by (metis prod_cases3)
  have bw: "bl_leases bw = bl_leases (sv_bandwidth sv)"
    using acquire_frame [of "tc_lease ctx" req "rc_now rc" "rc_stopInWait rc" "rc_stopAtExit rc" "sv_bandwidth sv"] a
    by auto
  show thesis
  proof (cases "pos \<ge> tc_length ctx")
    case True
    with assms show ?thesis
      by (intro that [where k = "rq_bytesSupplied st" and bw = "sv_bandwidth sv" and m = "sv_metrics sv"]) (auto simp: fileReader_def)
  next
    case False
    let ?rd = "readFileAt (rc_fs rc) (tc_fd ctx) (tc_sourceOffset ctx + pos) g (rc_short rc)"
    show ?thesis
    proof (cases "g = 0 \<or> tc_sourceOffset ctx > UINT64_MAX - pos \<or> ?rd = None \<or> ?rd = Some []")
      case True
      with False assms show ?thesis
        by (intro that [where k = "rq_bytesSupplied st" and bw = bw and m = "sv_metrics sv"])
          (auto simp: fileReader_def Let_def req_def [symmetric] a bw split: if_splits)
    next
      case not: False
      then obtain bs where bs: "?rd = Some bs" "bs \<noteq> []" by auto
      let ?m = "bytesSupplied (of_nat (length bs)) (rc_second rc) (sv_metrics sv)"
      have "tm_active ?m = tm_active (sv_metrics sv)" by (simp add: bytesSupplied_def Let_def)
      with not False assms bs show ?thesis
        by (intro that [where k = "rq_bytesSupplied st + of_nat (length bs)" and bw = bw and m = ?m])
          (auto simp: fileReader_def Let_def req_def [symmetric] a bw split: list.splits)
    qed
  qed
qed

lemma sys_inv_read:
  assumes inv: "sys_inv s"
  shows "sys_inv (sy_read n rc room s)"
proof (cases "\<exists>l ctx cs. map_of (sy_live s) n = Some l \<and> contexts (lv_queued l) = ctx # cs \<and>
    rq_method (lv_state l) = ''GET''")
  case False
  then have "sy_read n rc room s = s"
    by (auto simp: sy_read_def split: option.splits list.splits)
  with inv show ?thesis by simp
next
  case True
  then obtain l ctx cs where l: "map_of (sy_live s) n = Some l" "contexts (lv_queued l) = ctx # cs"
    "rq_method (lv_state l) = ''GET''" by blast
  obtain r st sv where rd: "fileReader ctx rc (of_nat (lv_position l)) room (lv_state l) (sy_server s) = (r, st, sv)"
    by (metis prod_cases3)
  then obtain k bw m where fr: "st = (lv_state l)\<lparr>rq_bytesSupplied := k\<rparr>"
    "sv = (sy_server s)\<lparr>sv_bandwidth := bw, sv_metrics := m\<rparr>"
    "bl_leases bw = bl_leases (sv_bandwidth (sy_server s))" "tm_active m = tm_active (sv_metrics (sy_server s))"
    by (rule fileReader_frame)
  let ?l = "l\<lparr>lv_state := st, lv_position := lv_position l + (case r of Supplied bs \<Rightarrow> length bs | _ \<Rightarrow> 0)\<rparr>"
  have run: "sy_read n rc room s = \<lparr>sy_server = sv, sy_live = AList.update n ?l (sy_live s)\<rparr>"
    using l rd by (simp add: sy_read_def)
  have ok: "live_ok ?l"
    using live_at [OF inv l(1)] fr(1) by (auto simp: live_ok_def matches_state_def split: body.splits)
  have same: "files_held d ?l = files_held d l" "leases_held c ?l = leases_held c l" "is_active ?l = is_active l" for d c
    using fr(1) by (simp_all add: files_held_def leases_held_def is_active_def)
  show ?thesis
    unfolding run by (rule sys_inv_update [OF inv l(1) ok]) (use fr same inv in \<open>simp_all add: sys_inv_def\<close>)
qed

lemma free_files:
  "sv_files (foldr fileReaderFree cs sv) = sv_files sv - mset (map tc_fd cs)"
  "mset (bl_leases (sv_bandwidth (foldr fileReaderFree cs sv))) =
     mset (bl_leases (sv_bandwidth sv)) - mset (lease_list cs)"
  "sv_config (foldr fileReaderFree cs sv) = sv_config sv" "sv_limiter (foldr fileReaderFree cs sv) = sv_limiter sv"
  "sv_metrics (foldr fileReaderFree cs sv) = sv_metrics sv" "sv_logger (foldr fileReaderFree cs sv) = sv_logger sv"
  "sv_daemon (foldr fileReaderFree cs sv) = sv_daemon sv"
  by (induction cs) (simp_all add: fileReaderFree_def release_leases diff_diff_add union_commute)

lemma lg_write_offered:
  "list_all (list_all printable) (lg_offered s) \<Longrightarrow> list_all printable line \<Longrightarrow>
   list_all (list_all printable) (lg_offered (lg_write line s))"
  by (simp add: lg_write_def Let_def)

lemma lg_step_offered:
  "(\<And>line. e \<noteq> LWrite line) \<Longrightarrow> list_all (list_all printable) (lg_offered s) \<Longrightarrow>
   list_all (list_all printable) (lg_offered (lg_step s e))"
  by (cases e) (auto simp: lg_take_def lg_emit_def lg_request_stop_def lg_joined_def lg_start_def Let_def
      split: option.splits worker_pc.splits)

lemma requestCompleted_frame:
  assumes "snd (requestCompleted now code (Some st) sv) = sv'" "list_all printable (rq_reason st)"
    "list_all (list_all printable) (lg_offered (sv_logger sv))"
  shows "sv_files sv' = sv_files sv" "sv_bandwidth sv' = sv_bandwidth sv" "sv_config sv' = sv_config sv"
    "sv_limiter sv' = sv_limiter sv" "list_all (list_all printable) (lg_offered (sv_logger sv'))"
    "tm_active (sv_metrics sv') = (if rq_activeTransfer st then tm_active (sv_metrics sv) - 1 else tm_active (sv_metrics sv))"
  using assms
  by (auto simp: requestCompleted_def logCompleted_def Let_def transferFinished_def failure_def log_line_clean
      intro!: lg_write_offered split: TransferOutcome.split)

lemma delete_weigh:
  "distinct (map fst xs) \<Longrightarrow> map_of xs k = Some v \<Longrightarrow> weigh f (AList.delete k xs) = weigh f xs - f v"
  using weigh_delete [of xs k v f] by simp

lemma sys_inv_finish:
  assumes inv: "sys_inv s"
  shows "sys_inv (sy_finish n now code s)"
proof (cases "map_of (sy_live s) n")
  case None
  with inv show ?thesis by (simp add: sy_finish_def)
next
  case (Some l)
  define sv where "sv = snd (requestCompleted now code (Some (lv_state l)) (sy_server s))"
  have dist: "distinct (map fst (sy_live s))" using inv by (simp add: sys_inv_def)
  note fr = requestCompleted_frame [OF sv_def [symmetric]]
  have good: "list_all printable (rq_reason (lv_state l))" "list_all (list_all printable) (lg_offered (sv_logger (sy_server s)))"
    using live_at [OF inv Some] inv by (simp_all add: live_ok_def sys_inv_def)
  have active: "is_active l \<le> unat (tm_active (sv_metrics (sy_server s)))"
    using inv weigh_ge [OF Some, of is_active] by (simp add: sys_inv_def)
  have "unat (tm_active (sv_metrics sv)) = unat (tm_active (sv_metrics (sy_server s))) - is_active l"
    using active fr(6) [OF good] by (auto simp: is_active_def unat_dec)
  moreover have "snd ` set (AList.delete n (sy_live s)) \<subseteq> snd ` set (sy_live s)"
    by (auto simp: AList.delete_eq)
  then have "\<forall>x \<in> snd ` set (AList.delete n (sy_live s)). live_ok x" using inv unfolding sys_inv_def by blast
  moreover have "distinct (map fst (AList.delete n (sy_live s)))" using dist by (rule distinct_delete)
  moreover have "length (AList.delete n (sy_live s)) \<le> unat (cf_maxConnections (sv_config (sy_server s)))"
    using length_delete_le [of n "sy_live s"] inv by (simp add: sys_inv_def)
  ultimately show ?thesis
    using inv Some fr(1-5) [OF good]
    by (simp add: sy_finish_def sv_def [symmetric] sys_inv_def free_files delete_weigh [OF dist Some]
        files_held_def leases_held_def)
qed

lemma sys_inv_step: "sys_inv s \<Longrightarrow> sys_inv (sy_step s e)"
proof (induction s e rule: sy_step.induct)
  case (4 s now ip)
  then show ?case using rl_inv_unblock by (simp add: sys_inv_def)
next
  case (5 s e)
  then show ?case by (simp add: sys_inv_def)
next
  case (6 s e)
  then show ?case using lg_step_offered [of e "sv_logger (sy_server s)"] by (cases e) (simp_all add: sys_inv_def)
qed (simp_all add: sys_inv_access sys_inv_read sys_inv_finish)

interpretation sy: transition_system "sy_start cfg r" sy_step sys_inv for cfg r
proof unfold_locales
  show "sys_inv (sy_start cfg r)"
    by (simp add: sys_inv_def sy_start_def fresh_server_def metrics_reset_def bl_init_def lg_init_def rl.inv_start)
qed (rule sys_inv_step)

section \<open>Resources\<close>

definition open_contexts :: "system \<Rightarrow> TransferContext list" where
  "open_contexts s = concat (map (\<lambda>(n, l). contexts (lv_queued l)) (sy_live s))"

lemma count_concat_weigh:
  "count (mset (map tc_fd (concat (map (\<lambda>(n, l). contexts (lv_queued l)) xs)))) d = weigh (files_held d) xs"
  "count (mset (lease_list (concat (map (\<lambda>(n, l). contexts (lv_queued l)) xs)))) r = weigh (leases_held r) xs"
  by (induction xs) (auto simp: files_held_def leases_held_def)

lemma weigh_is_active: "weigh is_active xs = length (filter (\<lambda>(n, l). rq_activeTransfer (lv_state l)) xs)"
  by (induction xs) (auto simp: is_active_def)

text \<open>The invariant in terms of the transfer contexts of the open requests.\<close>

lemma sys_inv_accounting:
  assumes inv: "sys_inv s"
  shows "sv_files (sy_server s) = mset (map tc_fd (open_contexts s)) \<and>
    mset (bl_leases (sv_bandwidth (sy_server s))) = mset (lease_list (open_contexts s)) \<and>
    unat (tm_active (sv_metrics (sy_server s))) =
      length (filter (\<lambda>(n, l). rq_activeTransfer (lv_state l)) (sy_live s)) \<and>
    list_all (\<lambda>(n, l). length (lv_queued l) \<le> 1 \<and> list_all (matches_state (lv_state l)) (lv_queued l)) (sy_live s) \<and>
    list_all (list_all printable) (lg_offered (sv_logger (sy_server s)))"
proof -
  have "sv_files (sy_server s) = mset (map tc_fd (open_contexts s))"
    "mset (bl_leases (sv_bandwidth (sy_server s))) = mset (lease_list (open_contexts s))"
    using inv by (intro multiset_eqI; simp add: sys_inv_def open_contexts_def count_concat_weigh [simplified])+
  moreover have "list_all (\<lambda>(n, l). length (lv_queued l) \<le> 1 \<and> list_all (matches_state (lv_state l)) (lv_queued l)) (sy_live s)"
    using inv by (fastforce simp: sys_inv_def list_all_iff live_ok_def)
  ultimately show ?thesis using inv by (simp add: sys_inv_def weigh_is_active)
qed

section \<open>The limiter inside the server\<close>

text \<open>The limiter operations that a step of the system makes.\<close>

definition dispatch_trace :: "connection \<Rightarrow> exchange \<Rightarrow> request_io \<Rightarrow> (int \<times> rl_event) list" where
  "dispatch_trace cn ex w =
     take (if \<not> good_method (io_state w) then 0 else if is_blocked ex w \<or> \<not> good_client w then 1 else 2)
       (check_events ex w) @
     (if struck (io_state (snd (dispatch cn ex w))) then [strike_event ex w] else [])"

lemma dispatch_trace_eq:
  assumes act: "\<not> rq_activeTransfer (io_state w)"
  shows "sv_limiter (io_server (snd (dispatch cn ex w))) =
    foldl rl_step (sv_limiter (io_server w)) (dispatch_trace cn ex w)"
proof -
  note denied = dispatch_trace_def deny_struck deny_limiter assms check_events_def after_rate_limiter
  show ?thesis
  proof (cases rule: dispatch_cases [of w cn ex])
    case passed
    then show ?thesis
      using dispatch_target_strikes [of "after_rate_check ex w" cn ex] by (simp add: denied)
  qed (simp_all add: denied)
qed

definition begin_dispatch :: "system \<Rightarrow> live \<Rightarrow> request_io" where
  "begin_dispatch s l =
     \<lparr>io_server = sy_server s, io_state = (lv_state l)\<lparr>rq_handled := True\<rparr>, io_queued = []\<rparr>"

text \<open>The request a step dispatches, if it does.\<close>

fun dispatched :: "system \<Rightarrow> sy_event \<Rightarrow> (connection \<times> exchange \<times> request_io) option" where
  "dispatched s (Access n cn ex url meth upload) =
     (case map_of (sy_live s) n of
        None \<Rightarrow> None
      | Some l \<Rightarrow> if upload = 0 \<and> \<not> rq_handled (lv_state l) then Some (cn, ex, begin_dispatch s l) else None)"
| "dispatched s _ = None"

fun sy_trace :: "system \<Rightarrow> sy_event \<Rightarrow> (int \<times> rl_event) list" where
  "sy_trace s (Unblocked now ip) = [(now, Unblock ip)]"
| "sy_trace s e = (case dispatched s e of None \<Rightarrow> [] | Some (cn, ex, w) \<Rightarrow> dispatch_trace cn ex w)"

lemma dispatched_server:
  assumes "dispatched s e = Some (cn, ex, w)"
  shows "sy_server (sy_step s e) = io_server (snd (dispatch cn ex w))"
  using assms by (cases e) (auto simp: sy_access_def handleRequest_def begin_dispatch_def split: option.splits if_splits prod.splits)

lemma dispatched_idle:
  assumes "sys_inv s" "dispatched s e = Some (cn, ex, w)"
  shows "\<not> rq_activeTransfer (io_state w) \<and> io_server w = sy_server s \<and> io_queued w = []"
  using assms by (cases e) (auto simp: begin_dispatch_def live_ok_def dest!: live_at split: option.splits if_splits)

lemma sy_step_not_dispatched:
  assumes "sys_inv s" "dispatched s e = None"
  shows "sv_limiter (sy_server (sy_step s e)) = foldl rl_step (sv_limiter (sy_server s)) (sy_trace s e)"
proof (cases e)
  case (Access n cn ex url meth upload)
  with assms(2) show ?thesis
    by (auto simp: sy_access_def handleRequest_def split: option.splits if_splits)
next
  case (Read n rc room)
  then show ?thesis
    by (auto simp: sy_read_def elim!: fileReader_frame split: option.splits list.splits prod.splits)
next
  case (Finish n now code)
  have "sv_limiter (snd (requestCompleted now code ctxt sv)) = sv_limiter sv" for ctxt sv
    by (simp add: requestCompleted_def logCompleted_def Let_def split: option.split)
  with Finish show ?thesis by (simp add: sy_finish_def free_files split: option.split)
next
  case (LogWork ev)
  then show ?thesis by (cases ev) simp_all
qed simp_all

lemma sy_limiter_step:
  assumes "sys_inv s"
  shows "sv_limiter (sy_server (sy_step s e)) = foldl rl_step (sv_limiter (sy_server s)) (sy_trace s e)"
proof (cases "dispatched s e")
  case None
  with assms show ?thesis by (rule sy_step_not_dispatched)
next
  case (Some x)
  obtain cn ex w where x: "x = (cn, ex, w)" by (metis prod_cases3)
  with Some have d: "dispatched s e = Some (cn, ex, w)" by simp
  then have "sy_trace s e = dispatch_trace cn ex w" by (cases e) auto
  with dispatched_server [OF d] dispatched_idle [OF assms d] dispatch_trace_eq [of w cn ex] show ?thesis by simp
qed

fun sy_traces :: "system \<Rightarrow> sy_event list \<Rightarrow> (int \<times> rl_event) list" where
  "sy_traces s [] = []"
| "sy_traces s (e # es) = sy_trace s e @ sy_traces (sy_step s e) es"

lemma sy_limiter_run:
  "sys_inv s \<Longrightarrow> sv_limiter (sy_server (foldl sy_step s es)) = foldl rl_step (sv_limiter (sy_server s)) (sy_traces s es)"
  by (induction es arbitrary: s) (simp_all add: sy_limiter_step sys_inv_step)

lemma sy_step_config_daemon:
  assumes "sys_inv s"
  shows "sv_config (sy_server (sy_step s e)) = sv_config (sy_server s) \<and>
    sv_daemon (sy_server (sy_step s e)) = sv_daemon (sy_server s)"
proof (cases "dispatched s e")
  case (Some x)
  obtain cn ex w where x: "x = (cn, ex, w)" by (metis prod_cases3)
  with Some have d: "dispatched s e = Some (cn, ex, w)" by simp
  with dispatched_idle [OF assms d] dispatch_well [of w cn ex] show ?thesis
    by (simp add: dispatched_server [OF d] handled_well_def accounted_def)
next
  case None
  show ?thesis
  proof (cases e)
    case (Access n cn ex url meth upload)
    with None show ?thesis by (auto simp: sy_access_def handleRequest_def split: option.splits if_splits)
  next
    case (Read n rc room)
    then show ?thesis
      by (auto simp: sy_read_def elim!: fileReader_frame split: option.splits list.splits prod.splits)
  next
    case (Finish n now code)
    have "sv_config (snd (requestCompleted now code ctxt sv)) = sv_config sv \<and>
      sv_daemon (snd (requestCompleted now code ctxt sv)) = sv_daemon sv" for ctxt sv
      by (simp add: requestCompleted_def logCompleted_def Let_def split: option.split)
    with Finish show ?thesis by (simp add: sy_finish_def free_files split: option.split)
  next
    case (LogWork ev)
    then show ?thesis by (cases ev) simp_all
  qed simp_all
qed

lemmas sy_step_config = sy_step_config_daemon [THEN conjunct1]
lemmas sy_step_daemon = sy_step_config_daemon [THEN conjunct2]

text \<open>The times at which an address got an answer other than 403.\<close>

fun answered_at :: "string \<Rightarrow> system \<Rightarrow> sy_event list \<Rightarrow> int list" where
  "answered_at ip s [] = []"
| "answered_at ip s (e # es) =
     (case dispatched s e of
        None \<Rightarrow> []
      | Some (cn, ex, w) \<Rightarrow>
          if rq_ip (io_state w) = ip \<and> rq_status (io_state (snd (dispatch cn ex w))) \<noteq> 403
          then [ex_requestNow ex] else []) @ answered_at ip (sy_step s e) es"

lemma accepted_dispatch:
  assumes "rq_status (io_state (snd (dispatch cn ex w))) \<noteq> 403"
  shows "accepted_of (rq_ip (io_state w)) (sv_limiter (io_server w)) (dispatch_trace cn ex w) = [ex_requestNow ex]"
proof -
  note p = dispatch_passed [OF assms]
  have "\<not> struck (io_state (snd (dispatch cn ex w)))" using assms by (simp add: struck_def)
  with p have "dispatch_trace cn ex w = check_events ex w" by (simp add: dispatch_trace_def check_events_def)
  with p show ?thesis by (simp add: check_events_def is_over_limit_def)
qed

lemma answered_at_accepted:
  "sys_inv s \<Longrightarrow> length (filter P (answered_at ip s es)) \<le>
     length (filter P (accepted_of ip (sv_limiter (sy_server s)) (sy_traces s es)))"
proof (induction es arbitrary: s)
  case (Cons e es)
  note ih = Cons.IH [OF sys_inv_step [OF Cons.prems, of e]]
  have app: "accepted_of ip (sv_limiter (sy_server s)) (sy_traces s (e # es)) =
      accepted_of ip (sv_limiter (sy_server s)) (sy_trace s e) @
      accepted_of ip (sv_limiter (sy_server (sy_step s e))) (sy_traces (sy_step s e) es)"
    using Cons.prems by (simp add: accepted_of_append sy_limiter_step)
  show ?case
  proof (cases "dispatched s e")
    case None
    with ih app show ?thesis by simp
  next
    case (Some x)
    obtain cn ex w where x: "x = (cn, ex, w)" by (metis prod_cases3)
    with Some have d: "dispatched s e = Some (cn, ex, w)" by simp
    then have "sy_trace s e = dispatch_trace cn ex w" by (cases e) auto
    with ih app d accepted_dispatch [of cn ex w] dispatched_idle [OF Cons.prems d] show ?thesis by auto
  qed
qed simp

lemma sy_traces_undisturbed:
  assumes "sys_inv s" "sv_config (sy_server s) = cfg" "list_all (\<lambda>e. \<forall>now. e \<noteq> Unblocked now ip) es"
  shows "\<forall>(u, e) \<in> set (sy_traces s es). undisturbed ip (unat (cf_requestsPerMinute cfg)) e"
  using assms
proof (induction es arbitrary: s)
  case (Cons e es)
  have "\<forall>(u, ev) \<in> set (sy_trace s e). undisturbed ip (unat (cf_requestsPerMinute cfg)) ev"
  proof (cases "dispatched s e")
    case None
    with Cons.prems(3) show ?thesis by (cases e) auto
  next
    case (Some x)
    obtain cn ex w where x: "x = (cn, ex, w)" by (metis prod_cases3)
    with Some have d: "dispatched s e = Some (cn, ex, w)" by simp
    then have "sy_trace s e = dispatch_trace cn ex w" by (cases e) auto
    with dispatched_idle [OF Cons.prems(1) d] Cons.prems(2) show ?thesis
      by (auto simp: dispatch_trace_def check_events_def strike_event_def dest!: in_set_takeD split: if_splits)
  qed
  moreover have "\<forall>(u, ev) \<in> set (sy_traces (sy_step s e) es). undisturbed ip (unat (cf_requestsPerMinute cfg)) ev"
    using Cons.prems by (intro Cons.IH) (simp_all add: sys_inv_step sy_step_config)
  ultimately show ?case by auto
qed simp

section \<open>Limits in force\<close>

text \<open>C8. The request limit holds for the server as a whole. On a clock that does not go back and
  without an administrative unblock of the address, an address gets at most the configured
  number of answers other than 403 in any minute, however its requests, those of other
  addresses, transfers and worker steps interleave.\<close>

theorem request_rate_enforced:
  assumes "sorted (map fst (sy_traces (sy_start cfg r) es))"
    and "list_all (\<lambda>e. \<forall>now. e \<noteq> Unblocked now ip) es"
  shows "length (filter (in_window t) (answered_at ip (sy_start cfg r) es)) \<le> unat (cf_requestsPerMinute cfg)"
proof -
  have start: "sv_limiter (sy_server (sy_start cfg r)) = rl_init" "sv_config (sy_server (sy_start cfg r)) = cfg"
    by (simp_all add: sy_start_def fresh_server_def)
  have "length (filter (in_window t) (answered_at ip (sy_start cfg r) es)) \<le>
      length (filter (in_window t) (accepted_of ip rl_init (sy_traces (sy_start cfg r) es)))"
    using answered_at_accepted [OF sy.inv_start, of "in_window t" ip cfg r es] start(1) by simp
  also have "\<dots> \<le> unat (cf_requestsPerMinute cfg)"
    using window_bound [OF assms(1) sy_traces_undisturbed [OF sy.inv_start start(2) assms(2)]] .
  finally show ?thesis .
qed

text \<open>C9. A blocked address stays out. If the limiter blocks an address beyond time \<open>t\<close>, then after
  any further activity of the server up to \<open>t\<close> (no unblock of the address), a GET or HEAD of
  that address dispatched at \<open>t\<close> is refused with 403 and the reason \<open>blocked\<close>; its target is
  not looked at, no descriptor is opened and no strike is added.\<close>

theorem block_enforced:
  assumes "blocked_past ip t (sv_limiter (sy_server (foldl sy_step (sy_start cfg r) es)))"
    and "list_all (keeps_block ip t) (sy_traces (foldl sy_step (sy_start cfg r) es) es')"
    and "dispatched (foldl sy_step (sy_start cfg r) (es @ es')) e = Some (cn, ex, w)"
    and "rq_ip (io_state w) = ip" and "good_method (io_state w)" and "ex_blockedNow ex = t"
  shows "dispatch cn ex w = deny ex ''blocked'' False (after_block_check ex w) \<and>
    rq_status (io_state (snd (dispatch cn ex w))) = 403 \<and>
    rq_reason (io_state (snd (dispatch cn ex w))) = ''blocked'' \<and>
    sv_files (io_server (snd (dispatch cn ex w))) = sv_files (io_server w)"
proof -
  let ?s = "foldl sy_step (sy_start cfg r) es"
  let ?s' = "foldl sy_step ?s es'"
  have inv: "sys_inv ?s" "sys_inv ?s'" by (rule sy.inv_reachable, rule sy.inv_run, rule sy.inv_reachable)
  then have rl: "rl_inv (sv_limiter (sy_server ?s))" "rl_inv (sv_limiter (sy_server ?s'))" by (simp_all add: sys_inv_def)
  from assms(3) have d: "dispatched ?s' e = Some (cn, ex, w)" by simp
  have "blocked_past ip t (sv_limiter (sy_server ?s'))"
    unfolding sy_limiter_run [OF inv(1)]
    by (rule blocked_past_run [OF rl(1) assms(1)]) (use assms(2) in \<open>simp add: list_all_iff\<close>)
  then have "is_blocked ex w"
    using dispatched_idle [OF inv(2) d] assms(4,6) blocked_iff_past [OF rl(2)] by (simp add: is_blocked_def)
  with assms(5) have eq: "dispatch cn ex w = deny ex ''blocked'' False (after_block_check ex w)"
    by (cases rule: dispatch_cases [of w cn ex]) simp_all
  have "io_server (snd (deny ex ''blocked'' False (after_block_check ex w))) = io_server (after_block_check ex w)"
    using dispatched_idle [OF inv(2) d] by (simp add: deny_def Let_def respondText_ok(3))
  then have "sv_files (io_server (snd (dispatch cn ex w))) = sv_files (io_server w)"
    unfolding eq by (simp add: after_block_check_def began_def io_ops)
  with eq show ?thesis by (simp add: deny_status deny_reason)
qed

section \<open>Witnesses\<close>

definition first_call :: "nat \<Rightarrow> string \<Rightarrow> sy_event" where
  "first_call n meth = Access n sample_connection sample_exchange (Some ''/maps/a.bsp'') (Some meth) 0"

definition opened_live :: "string \<Rightarrow> live" where
  "opened_live meth = \<lparr>lv_state = fresh_request sample_connection (Some ''/maps/a.bsp'') (Some meth), lv_queued = [],
     lv_position = 0\<rparr>"

lemma first_call_step:
  assumes "map_of (sy_live s) n = None"
    "length (sy_live s) < unat (cf_maxConnections (sv_config (sy_server s)))"
  shows "sy_step s (first_call n meth) = s\<lparr>sy_live := AList.update n (opened_live meth) (sy_live s)\<rparr>"
  using assms by (simp add: first_call_def opened_live_def sy_access_def handleRequest_def)

lemma second_call:
  assumes "map_of (sy_live s) n = Some (opened_live meth)"
  shows "dispatched s (first_call n meth) =
    Some (sample_connection, sample_exchange, begin_dispatch s (opened_live meth))"
  using assms by (simp add: first_call_def opened_live_def fresh_request_idle)

lemma not_dispatched: "map_of (sy_live s) n = None \<Longrightarrow> dispatched s (first_call n meth) = None"
  by (simp add: first_call_def)

lemma trace_call:
  "sy_trace s (first_call n meth) =
     (case dispatched s (first_call n meth) of None \<Rightarrow> [] | Some (cn, ex, w) \<Rightarrow> dispatch_trace cn ex w)"
  by (simp only: first_call_def sy_trace.simps)

lemma map_request_trace:
  "dispatch_trace sample_connection sample_exchange map_request =
     [(1, Blocked ''127.0.0.1''), (2, RequestExceeded ''127.0.0.1'' 500)]"
  "rq_status (io_state (snd (dispatch sample_connection sample_exchange map_request))) \<noteq> 403"
proof -
  obtain w' r where d: "dispatch sample_connection sample_exchange map_request = (True, w')"
    "io_queued w' = io_queued map_request @ [(200, r)]" "rs_body r = Callback map_context"
    using sample_dispatch by blast
  show status: "rq_status (io_state (snd (dispatch sample_connection sample_exchange map_request))) \<noteq> 403"
    using no_callback [OF _ d(2,3), of True] dispatch_well [OF map_request_idle, of sample_connection sample_exchange] d(1)
    by (auto simp: handled_well_def)
  have "rq_ip (io_state map_request) = ''127.0.0.1''" "ex_blockedNow sample_exchange = 1"
    "ex_requestNow sample_exchange = 2" "cf_requestsPerMinute (sv_config (io_server map_request)) = 500"
    by (simp_all add: sample_request_state new_request_def)
      (simp_all add: sample_exchange_def sample_request_def idle_server_def default_config_def)
  with status sample_checks show "dispatch_trace sample_connection sample_exchange map_request =
     [(1, Blocked ''127.0.0.1''), (2, RequestExceeded ''127.0.0.1'' 500)]"
    by (simp add: dispatch_trace_def check_events_def struck_def)
qed

theorem request_rate_enforced_witness:
  defines "s \<equiv> sy_start default_config sample_resolver" and "es \<equiv> [first_call 7 ''GET'', first_call 7 ''GET'']"
  shows "answered_at ''127.0.0.1'' s es = [2] \<and>
    length (filter (in_window 3) (answered_at ''127.0.0.1'' s es)) \<le> unat (cf_requestsPerMinute default_config)"
proof -
  let ?s1 = "s\<lparr>sy_live := [(7, opened_live ''GET'')]\<rparr>"
  have s: "sy_live s = []" "sy_server s = idle_server"
    by (simp_all add: s_def sy_start_def fresh_server_def idle_server_def)
  have step: "sy_step s (first_call 7 ''GET'') = ?s1"
    using first_call_step [of s 7] s by (simp add: idle_server_def default_config_def)
  have w: "begin_dispatch ?s1 (opened_live ''GET'') = map_request"
    using s(2) by (simp add: begin_dispatch_def sample_request_def opened_live_def)
  have d: "dispatched s (first_call 7 ''GET'') = None"
    "dispatched ?s1 (first_call 7 ''GET'') = Some (sample_connection, sample_exchange, map_request)"
    using not_dispatched [of s 7] second_call [of ?s1 7] s w by simp_all
  have ip: "rq_ip (io_state map_request) = ''127.0.0.1''" "ex_requestNow sample_exchange = 2"
    by (simp_all add: sample_request_state new_request_def) (simp add: sample_exchange_def)
  have "sy_traces s es = [(1, Blocked ''127.0.0.1''), (2, RequestExceeded ''127.0.0.1'' 500)]"
    using d by (simp add: es_def step trace_call map_request_trace)
  then have "sorted (map fst (sy_traces s es))" by simp
  moreover have "list_all (\<lambda>e. \<forall>now. e \<noteq> Unblocked now ''127.0.0.1'') es" by (simp add: es_def first_call_def)
  ultimately have "length (filter (in_window 3) (answered_at ''127.0.0.1'' s es)) \<le> unat (cf_requestsPerMinute default_config)"
    unfolding s_def by (rule request_rate_enforced)
  moreover have "answered_at ''127.0.0.1'' s es = [2]"
    using d ip map_request_trace(2) by (simp add: es_def step)
  ultimately show ?thesis by simp
qed

text \<open>One strike blocks under this configuration: the method of the first request is refused, and the
  GET that follows meets the block.\<close>

definition strict_config :: FastdlConfig where
  "strict_config = default_config\<lparr>cf_denialsPerMinute := 1\<rparr>"

lemma bad_method_trace:
  assumes "\<not> good_method (io_state w)"
  shows "dispatch_trace cn ex w = [strike_event ex w]"
proof -
  have "dispatch cn ex w = deny ex ''invalid method'' True (began w)"
    using assms by (cases rule: dispatch_cases [of w cn ex]) simp_all
  with assms show ?thesis by (simp add: dispatch_trace_def deny_struck)
qed

lemma opened_post:
  "\<not> good_method (lv_state (opened_live ''POST''))" "good_method (lv_state (opened_live ''GET''))"
  "rq_ip (lv_state (opened_live meth)) = ''127.0.0.1''"
proof -
  have "rq_ip (lv_state (opened_live meth)) = clientIp sample_connection" for meth
    by (cases "boundedCopy (Some meth) 16"; cases "boundedCopy (Some ''/maps/a.bsp'') 2048";
        simp add: opened_live_def fresh_request_def)
  moreover have "clientIp sample_connection = ''127.0.0.1''" by code_simp
  ultimately show "rq_ip (lv_state (opened_live meth)) = ''127.0.0.1''" by simp
  have "rq_method (lv_state (opened_live ''POST'')) = ''POST''" "rq_method (lv_state (opened_live ''GET'')) = ''GET''"
    by code_simp+
  then show "\<not> good_method (lv_state (opened_live ''POST''))" "good_method (lv_state (opened_live ''GET''))"
    by (simp_all add: good_method_def)
qed

lemma single_live: "sy_live s = [(n, x)] \<Longrightarrow> \<exists>l. sy_live (sy_step s (first_call n meth)) = [(n, l)]"
  by (auto simp: first_call_def sy_access_def split: prod.split option.split)

theorem block_enforced_witness:
  defines "s \<equiv> foldl sy_step (sy_start strict_config sample_resolver)
    [first_call 7 ''POST'', first_call 7 ''POST'', first_call 8 ''GET'']"
  shows "\<exists>w. dispatched s (first_call 8 ''GET'') = Some (sample_connection, sample_exchange, w) \<and>
    rq_status (io_state (snd (dispatch sample_connection sample_exchange w))) = 403 \<and>
    rq_reason (io_state (snd (dispatch sample_connection sample_exchange w))) = ''blocked''"
proof -
  let ?s0 = "sy_start strict_config sample_resolver"
  let ?s1 = "?s0\<lparr>sy_live := [(7, opened_live ''POST'')]\<rparr>"
  let ?s2 = "sy_step ?s1 (first_call 7 ''POST'')"
  let ?w = "begin_dispatch ?s1 (opened_live ''POST'')"
  have s0: "sy_live ?s0 = []" "sv_config (sy_server ?s0) = strict_config" "sv_limiter (sy_server ?s0) = rl_init"
    by (simp_all add: sy_start_def fresh_server_def)
  have max: "unat (cf_maxConnections strict_config) = 64" by (simp add: strict_config_def default_config_def)
  have step1: "sy_step ?s0 (first_call 7 ''POST'') = ?s1"
    using first_call_step [of ?s0 7] s0 max by simp
  have inv: "sys_inv ?s0" "sys_inv ?s1" "sys_inv ?s2"
    using sy.inv_start [of strict_config sample_resolver] sys_inv_step step1 by metis+
  have d1: "dispatched ?s1 (first_call 7 ''POST'') = Some (sample_connection, sample_exchange, ?w)"
    using second_call [of ?s1 7 "''POST''"] by simp
  have bad: "\<not> good_method (io_state ?w)" using opened_post(1) by (simp add: begin_dispatch_def good_method_def)
  have strike: "strike_event sample_exchange ?w = (3, RecordDenial ''127.0.0.1'' 1 180)"
    using opened_post(3) [of "''POST''"] s0(2)
    by (simp add: strike_event_def begin_dispatch_def) (simp add: sample_exchange_def strict_config_def default_config_def)
  have "sv_limiter (sy_server ?s2) = recordDenial ''127.0.0.1'' 1 180 3 rl_init"
    using sy_limiter_step [OF inv(2), of "first_call 7 ''POST''"] d1 s0(3)
    by (simp add: trace_call bad_method_trace [OF bad] strike)
  moreover have "blocked_past ''127.0.0.1'' 1 (recordDenial ''127.0.0.1'' 1 180 3 rl_init)"
    by (simp add: blocked_past_def eval_limiter)
  ultimately have blk: "blocked_past ''127.0.0.1'' 1 (sv_limiter (sy_server ?s2))" by simp
  obtain l where l: "sy_live ?s2 = [(7, l)]" using single_live [of ?s1 7] by auto
  have cfg: "sv_config (sy_server ?s2) = strict_config" using sy_step_config [OF inv(2)] s0(2) by simp
  have tr: "sy_traces ?s2 [first_call 8 ''GET''] = []"
    using not_dispatched [of ?s2 8 "''GET''"] l by (simp add: trace_call)
  have step3: "sy_step ?s2 (first_call 8 ''GET'') = ?s2\<lparr>sy_live := [(7, l), (8, opened_live ''GET'')]\<rparr>"
    using first_call_step [of ?s2 8] l cfg max by simp
  have runs: "foldl sy_step ?s0 [first_call 7 ''POST'', first_call 7 ''POST''] = ?s2"
    "s = foldl sy_step ?s0 ([first_call 7 ''POST'', first_call 7 ''POST''] @ [first_call 8 ''GET''])"
    by (simp_all add: s_def step1)
  have d: "dispatched (foldl sy_step ?s0 ([first_call 7 ''POST'', first_call 7 ''POST''] @ [first_call 8 ''GET'']))
      (first_call 8 ''GET'') =
      Some (sample_connection, sample_exchange, begin_dispatch (sy_step ?s2 (first_call 8 ''GET'')) (opened_live ''GET''))"
    using second_call [of "sy_step ?s2 (first_call 8 ''GET'')" 8 "''GET''"] by (simp add: step1 step3)
  have "list_all (keeps_block ''127.0.0.1'' 1) (sy_traces (foldl sy_step ?s0 [first_call 7 ''POST'', first_call 7 ''POST''])
      [first_call 8 ''GET''])" by (simp only: runs tr list.pred_inject(1))
  moreover have "rq_ip (io_state (begin_dispatch x (opened_live ''GET''))) = ''127.0.0.1''"
    "good_method (io_state (begin_dispatch x (opened_live ''GET'')))" "ex_blockedNow sample_exchange = 1" for x
    using opened_post(2,3) by (simp_all add: begin_dispatch_def good_method_def sample_exchange_def)
  ultimately show ?thesis
    unfolding runs(2) d using block_enforced [OF blk [folded runs(1)] _ d] by blast
qed

end
