(* ===== verification/Lexical_Paths.thy ===== *)
theory Lexical_Paths
  imports Secure_File
begin

text \<open>
  The lexical operations of \<open>std::filesystem::path\<close> the sources use, on paths as the lists of
  their components (as iteration gives them: a root \<^verbatim>\<open>/\<close> first, an empty last component for a
  trailing slash), \<open>weakly_canonical\<close>, and \<open>resolveAgainstBase\<close> of \<^verbatim>\<open>fastdl_server.cpp\<close>.
\<close>

section \<open>Operations\<close>

text \<open>\<open>std::filesystem::u8path\<close>.\<close>

definition path_of :: "string \<Rightarrow> path" where
  "path_of s =
     (let names = filter (\<lambda>n. n \<noteq> []) (segments CHR ''/'' s)
      in (if s \<noteq> [] \<and> hd s = CHR ''/'' then [''/''] else []) @ names @
         (if names \<noteq> [] \<and> last s = CHR ''/'' then [[]] else []))"

definition is_absolute :: "path \<Rightarrow> bool" where
  "is_absolute p \<longleftrightarrow> p \<noteq> [] \<and> hd p = ''/''"

text \<open>\<open>base / path\<close>.\<close>

definition path_join :: "path \<Rightarrow> path \<Rightarrow> path" where
  "path_join base p =
     (if is_absolute p \<or> base = [] then p
      else if p = [] then (if last base = [] \<or> base = [''/''] then base else base @ [[]])
      else (if last base = [] then butlast base else base) @ p)"

definition normal_step :: "bool \<Rightarrow> string list \<Rightarrow> string \<Rightarrow> string list" where
  "normal_step rooted acc c =
     (if c = [] \<or> c = ''.'' then acc
      else if c = ''..'' then
        (if acc \<noteq> [] \<and> last acc \<noteq> ''..'' then butlast acc else if rooted then acc else acc @ [c])
      else acc @ [c])"

definition lexically_normal :: "path \<Rightarrow> path" where
  "lexically_normal p =
     (if p = [] then []
      else
        (let rooted = (hd p = ''/'');
             names = (if rooted then tl p else p);
             core = foldl (normal_step rooted) [] names;
             core = core @ (if core \<noteq> [] \<and> last core \<noteq> ''..'' \<and> dot_name (last names) then [[]] else [])
         in if rooted then ''/'' # core else if core = [] then [''.''] else core))"

definition resolveAgainstBase :: "path \<Rightarrow> path \<Rightarrow> path" where
  "resolveAgainstBase base p =
     (let joined = (if is_absolute p \<or> base = [] then p else path_join base p)
      in lexically_normal joined)"

text \<open>\<open>std::path::u8string\<close> and \<open>generic_u8string\<close>, with single separators.\<close>

fun join_names :: "path \<Rightarrow> string" where
  "join_names [] = []"
| "join_names [n] = n"
| "join_names (n # m # ns) = n @ ''/'' @ join_names (m # ns)"

definition u8string :: "path \<Rightarrow> string" where
  "u8string p = (if is_absolute p then ''/'' @ join_names (tl p) else join_names p)"

text \<open>\<open>path::lexically_relative\<close>, for paths with a root or without.\<close>

fun strip_common :: "path \<Rightarrow> path \<Rightarrow> path \<times> path" where
  "strip_common (a # as) (b # bs) = (if a = b then strip_common as bs else (a # as, b # bs))"
| "strip_common as bs = (as, bs)"

definition climb :: "path \<Rightarrow> int" where
  "climb bs = foldl (\<lambda>n b. if b = ''..'' then n - 1 else if b = [] \<or> b = ''.'' then n else n + 1) 0 bs"

definition lexically_relative :: "path \<Rightarrow> path \<Rightarrow> path" where
  "lexically_relative p base =
     (if is_absolute p \<noteq> is_absolute base then []
      else (case strip_common p base of (as, bs) \<Rightarrow>
          if as = [] \<and> bs = [] then [''.'']
          else if climb bs < 0 then []
          else if climb bs = 0 \<and> (as = [] \<or> hd as = []) then [''.'']
          else replicate (nat (climb bs)) ''..'' @ as))"

text \<open>\<open>std::filesystem::weakly_canonical\<close> of an absolute path: the longest prefix that exists is made
  canonical, the rest appended and the result normalised. A status that cannot be determined
  is an error.\<close>

fun status_known :: "errno + node \<Rightarrow> bool" where
  "status_known (Inr n) = True"
| "status_known (Inl e) = (e = ENOENT \<or> e = ENOTDIR)"

fun existing_prefix :: "file_system \<Rightarrow> path \<Rightarrow> path \<Rightarrow> (path \<times> path) option" where
  "existing_prefix fs done [] = Some (done, [])"
| "existing_prefix fs done (c # cs) =
     (let st = stat fs (done @ [c])
      in case st of
           Inr n \<Rightarrow> existing_prefix fs (done @ [c]) cs
         | Inl e \<Rightarrow> if status_known st then Some (done, c # cs) else None)"

definition weakly_canonical :: "file_system \<Rightarrow> path \<Rightarrow> path option" where
  "weakly_canonical fs p =
     (case stat fs p of
        Inr n \<Rightarrow> (case canonical fs p of Inl e \<Rightarrow> None | Inr q \<Rightarrow> Some q)
      | Inl e \<Rightarrow>
          if \<not> status_known (Inl e) then None
          else (case existing_prefix fs [] p of
              None \<Rightarrow> None
            | Some (pre, rest) \<Rightarrow>
                if pre = [] then Some (lexically_normal rest)
                else (case canonical fs pre of Inl e \<Rightarrow> None | Inr q \<Rightarrow> Some (lexically_normal (q @ rest)))))"

section \<open>Normal forms\<close>

lemma normal_fold_names:
  "rooted \<Longrightarrow> list_all (\<lambda>c. \<not> dot_name c) acc \<Longrightarrow> list_all (\<lambda>c. \<not> dot_name c) (foldl (normal_step rooted) acc names)"
proof (induction names arbitrary: acc)
  case (Cons c names)
  have "list_all (\<lambda>c. \<not> dot_name c) (normal_step rooted acc c)"
    using Cons.prems by (auto simp: normal_step_def dot_name_def list_all_iff dest: in_set_butlastD)
  with Cons show ?case by simp
qed simp

lemma normal_fold_id:
  "list_all (\<lambda>c. \<not> dot_name c) names \<Longrightarrow> foldl (normal_step rooted) acc names = acc @ names"
  by (induction names arbitrary: acc) (auto simp: normal_step_def dot_name_def)

lemma lexically_normal_names:
  "list_all (\<lambda>c. \<not> dot_name c) names \<Longrightarrow> lexically_normal (''/'' # names) = ''/'' # names"
  by (cases names rule: rev_cases)
    (auto simp: lexically_normal_def normal_fold_id Let_def normal_step_def dot_name_def)

text \<open>A rooted path stays rooted and loses every dot name but a trailing slash.\<close>

lemma lexically_normal_rooted:
  assumes "is_absolute p"
  obtains names slash where "lexically_normal p = ''/'' # names @ slash"
    "list_all (\<lambda>c. \<not> dot_name c) names" "slash = [] \<or> names \<noteq> [] \<and> slash = [[]]"
proof -
  obtain rest where p: "p = ''/'' # rest" using assms by (cases p) (auto simp: is_absolute_def)
  let ?core = "foldl (normal_step True) [] rest"
  let ?slash = "if ?core \<noteq> [] \<and> last ?core \<noteq> ''..'' \<and> dot_name (last rest) then [[]] else []"
  show thesis
    by (rule that [of ?core ?slash]) (simp_all add: p lexically_normal_def Let_def normal_fold_names)
qed

text \<open>Roots, cache and log paths do not depend on the working directory: against an absolute base
  directory every configured path becomes an absolute path without dot names.\<close>

lemma resolveAgainstBase_absolute:
  assumes "is_absolute base"
  shows "is_absolute (resolveAgainstBase base p) \<and>
    (\<exists>names slash. resolveAgainstBase base p = ''/'' # names @ slash \<and>
       list_all (\<lambda>c. \<not> dot_name c) names \<and> (slash = [] \<or> slash = [[]]))"
proof -
  have "is_absolute (if is_absolute p \<or> base = [] then p else path_join base p)"
  proof (cases "is_absolute p")
    case False
    obtain b bs where b: "base = ''/'' # bs" using assms by (cases base) (auto simp: is_absolute_def)
    with False show ?thesis by (cases bs rule: rev_cases) (auto simp: is_absolute_def path_join_def)
  qed simp
  then show ?thesis
    unfolding resolveAgainstBase_def Let_def
    by (rule lexically_normal_rooted) (auto simp: is_absolute_def)
qed

end
