(* ===== verification/Cache_Start.thy ===== *)
theory Cache_Start
  imports Compression_Cache Lexical_Paths
begin

text \<open>
  Starting and stopping the compression cache (\<^verbatim>\<open>compression_cache.cpp\<close>): the checks that keep the
  cache directory and the served tree apart, and the state after the worker was joined.
\<close>

section \<open>Operations\<close>

text \<open>\<open>lowerPathPart\<close> changes nothing on POSIX.\<close>

definition lowerPathPart :: "string \<Rightarrow> string" where
  "lowerPathPart value = value"

fun cacheContainedBy :: "path \<Rightarrow> path \<Rightarrow> bool" where
  "cacheContainedBy [] candidate = True"
| "cacheContainedBy (r # rs) [] = False"
| "cacheContainedBy (r # rs) (c # cs) =
     (if lowerPathPart r \<noteq> lowerPathPart c then False else cacheContainedBy rs cs)"

text \<open>\<open>stop\<close>: the worker sees the flag, leaves its loop and is joined.\<close>

definition cc_stop :: "CompressionCache \<Rightarrow> CompressionCache" where
  "cc_stop c = cc_joined ((cc_request_stop c)\<lparr>cc_worker := Gone\<rparr>)"

definition outside_error :: string where
  "outside_error = ''gzip cache must be outside the FastDL content root''"

text \<open>\<open>start\<close>: \<open>fs\<close> is the tree the first checks meet, \<open>made\<close> the result of \<open>create_directories\<close> and
  \<open>fsMade\<close> the tree after it.\<close>

definition cc_start ::
  "file_system \<Rightarrow> errno option \<Rightarrow> file_system \<Rightarrow> path \<Rightarrow> path \<Rightarrow> path \<Rightarrow> u64 \<Rightarrow> PathResolver option \<Rightarrow> u64 \<Rightarrow>
     string \<Rightarrow> CompressionCache \<Rightarrow> bool \<times> string \<times> CompressionCache" where
  "cc_start fs made fsMade cwd cachePath contentRoot maxBytes resolver maxFileBytes error c =
     (let c = cc_stop c
      in case canonical fs contentRoot of
           Inl e \<Rightarrow> (False, ''FastDL content root is not accessible for gzip cache validation'', c)
         | Inr canonicalContent \<Rightarrow>
             (case absolute cwd cachePath of
                Inl e \<Rightarrow> (False, ''could not make gzip cache path absolute: '' @ errno_message e, c)
              | Inr absoluteCache \<Rightarrow>
                  (case weakly_canonical fs absoluteCache of
                     None \<Rightarrow> (False, outside_error, c)
                   | Some prospectiveCache \<Rightarrow>
                       if cacheContainedBy canonicalContent prospectiveCache \<or>
                          cacheContainedBy prospectiveCache canonicalContent
                       then (False, outside_error, c)
                       else (case made of
                           Some e \<Rightarrow> (False, ''could not create gzip cache: '' @ errno_message e, c)
                         | None \<Rightarrow>
                             (case canonical fsMade absoluteCache of
                                Inl e \<Rightarrow> (False, ''gzip cache is not an accessible directory'', c)
                              | Inr canonicalCache \<Rightarrow>
                                  if \<not> is_directory fsMade canonicalCache
                                  then (False, ''gzip cache is not an accessible directory'', c)
                                  else if cacheContainedBy canonicalContent canonicalCache \<or>
                                          cacheContainedBy canonicalCache canonicalContent
                                  then (False, outside_error, c)
                                  else (True, error,
                                        cc_started canonicalCache resolver maxFileBytes maxBytes c))))))"

section \<open>Lemmas\<close>

lemma cacheContainedBy_iff: "cacheContainedBy r c \<longleftrightarrow> (\<exists>names. c = r @ names)"
  by (induction r c rule: cacheContainedBy.induct) (auto simp: lowerPathPart_def)

lemma cc_stop_simps [simp]:
  "cc_running (cc_stop c) = False" "cc_stopping (cc_stop c) = True" "cc_worker (cc_stop c) = Gone"
  "cc_jobs (cc_stop c) = []" "cc_pending (cc_stop c) = []" "cc_buildRequested (cc_stop c) = False"
  "cc_resolver (cc_stop c) = None"
  by (simp_all add: cc_stop_def cc_joined_def cc_request_stop_def)

lemma cc_start_True:
  assumes "cc_start fs made fsMade cwd cachePath contentRoot maxBytes resolver maxFileBytes error c = (True, e, c')"
  obtains content cache where "canonical fs contentRoot = Inr content" "is_directory fsMade cache"
    "\<not> cacheContainedBy content cache" "\<not> cacheContainedBy cache content" "made = None" "e = error"
    "c' = cc_started cache resolver maxFileBytes maxBytes (cc_stop c)"
  using assms by (auto simp: cc_start_def Let_def split: sum.splits option.splits if_splits)

lemma cc_start_False:
  "cc_start fs made fsMade cwd cachePath contentRoot maxBytes resolver maxFileBytes error c = (False, e, c') \<Longrightarrow>
   c' = cc_stop c \<and> e \<noteq> []"
  by (auto simp: cc_start_def Let_def outside_error_def split: sum.splits option.splits if_splits)

section \<open>Properties\<close>

text \<open>C32. The cache is never served as content. After a successful start the cache directory is a
  directory that neither lies in the content root nor contains it, so no path lies under both;
  in particular, while the root is where it was, no path the resolver answers is a file of the
  cache directory. A start that fails leaves the cache stopped, empty and with a message.\<close>

theorem cache_apart_from_content:
  assumes "cc_start fs made fsMade cwd cachePath (pr_root r) maxBytes resolver maxFileBytes error c = (ok, e, c')"
    and "canonical fs (pr_root r) = Inr (pr_root r)"
  shows "if ok
    then cc_running c' \<and> is_directory fsMade (cc_cachePath c') \<and>
      (\<forall>fs1 fs2 fs3 url n f. resolve r fs1 fs2 fs3 url n = f \<and> rf_status f = Ok \<longrightarrow>
         \<not> cacheContainedBy (cc_cachePath c') (rf_path f))
    else \<not> cc_running c' \<and> cc_jobs c' = [] \<and> e \<noteq> []"
proof (cases ok)
  case True
  with assms(1) obtain content cache where s: "canonical fs (pr_root r) = Inr content" "is_directory fsMade cache"
    "\<not> cacheContainedBy content cache" "\<not> cacheContainedBy cache content"
    "c' = cc_started cache resolver maxFileBytes maxBytes (cc_stop c)" by (auto elim: cc_start_True)
  have c': "cc_running c'" "cc_cachePath c' = cache" using s(5) by (simp_all add: cc_started_def)
  have "\<not> cacheContainedBy cache (rf_path (resolve r fs1 fs2 fs3 url n))"
    if "rf_status (resolve r fs1 fs2 fs3 url n) = Ok" for fs1 fs2 fs3 url n
  proof
    assume "cacheContainedBy cache (rf_path (resolve r fs1 fs2 fs3 url n))"
    then obtain ns where "rf_path (resolve r fs1 fs2 fs3 url n) = cache @ ns" by (auto simp: cacheContainedBy_iff)
    moreover from iffD1 [OF resolve_Ok_iff that] obtain names where
      "rf_path (resolve r fs1 fs2 fs3 url n) = pr_root r @ names" by (metis ResolvedFile.select_convs(2))
    ultimately have "cache @ ns = pr_root r @ names" by simp
    moreover have "content = pr_root r" using s(1) assms(2) by simp
    ultimately show False using s(3,4) unfolding cacheContainedBy_iff append_eq_append_conv2 by metis
  qed
  with True c' s(2) show ?thesis by auto
next
  case False
  with assms(1) cc_start_False show ?thesis by fastforce
qed

text \<open>A cache beside the sample tree.\<close>

definition cache_tree :: file_system where
  "cache_tree = \<lparr>
     fs_tree = map_of [
       ([], Directory (1, 2) [''srv'', ''c''] True),
       ([''srv''], Directory (1, 3) [] True),
       ([''c''], Directory (1, 4) [] True)],
     fs_inode = (\<lambda>i. \<lparr>st_bytes = [], st_mtim_sec = 0, st_mtim_nsec = 0, st_readable = True\<rparr>)\<rparr>"

theorem cache_apart_from_content_witness:
  "\<exists>e c'. cc_start cache_tree None cache_tree [''/''] [''c''] (pr_root sample_resolver) 1 None 1 [] cc_init = (True, e, c') \<and>
     cc_running c' \<and> is_directory cache_tree (cc_cachePath c')"
proof -
  let ?r = "cc_start cache_tree None cache_tree [''/''] [''c''] (pr_root sample_resolver) 1 None 1 [] cc_init"
  have "fst ?r" by code_simp
  then obtain e c' where r: "?r = (True, e, c')" by (metis (full_types) prod.collapse)
  have "canonical cache_tree (pr_root sample_resolver) = Inr (pr_root sample_resolver)" by code_simp
  from cache_apart_from_content [OF r this] r show ?thesis by simp
qed

end
