(* ===== verification/Server_Lifecycle.thy ===== *)
theory Server_Lifecycle
  imports Server_System Cache_Start
begin

text \<open>
  Starting and stopping the server (\<^verbatim>\<open>FastdlServer::start\<close> and \<^verbatim>\<open>FastdlServer::stop\<close>), as operations
  of the whole system: stopping the daemon ends every open request with the code for a shutdown,
  as the documentation of \<open>MHD_stop_daemon\<close> says, and stopping the logger and the cache waits for
  their workers.
\<close>

section \<open>Stopping\<close>

text \<open>What the operations meet: the file system and working directory of the configuration, the
  results of creating the directories and of opening the log, the clocks, and whether
  libmicrohttpd starts.\<close>

record lifecycle_env =
  le_fs :: file_system
  le_cwd :: path
  le_cacheFs :: file_system
  le_cacheMade :: "errno option"
  le_cacheMadeFs :: file_system
  le_logDirOk :: bool
  le_logProbeOk :: bool
  le_now :: int
  le_second :: int
  le_daemonOk :: bool
  le_day :: local_tm
  le_canOpen :: bool
  le_writeFails :: "nat option"
  le_localTime :: tm

text \<open>\<open>AsyncLogger::stop\<close>: the worker finishes the batch it holds, takes what is queued, writes it,
  and leaves on finding the queue empty.\<close>

definition lg_stop :: "local_tm \<Rightarrow> bool \<Rightarrow> nat option \<Rightarrow> AsyncLogger \<Rightarrow> AsyncLogger" where
  "lg_stop today canOpen fails s =
     lg_joined (lg_take (lg_emit today canOpen fails
       (lg_take (lg_emit today canOpen fails (lg_request_stop s)))))"

definition quit_requests :: "tm \<Rightarrow> system \<Rightarrow> system" where
  "quit_requests now s = foldl (\<lambda>s n. sy_finish n now DAEMON_SHUTDOWN s) s (map fst (sy_live s))"

definition sy_stop :: "lifecycle_env \<Rightarrow> system \<Rightarrow> system" where
  "sy_stop env s =
     (let s = s\<lparr>sy_server := (sy_server s)\<lparr>sv_bandwidth := bl_stop (sv_bandwidth (sy_server s))\<rparr>\<rparr>;
          s = (if sv_daemon (sy_server s)
               then (let s = quit_requests (le_localTime env) s
                     in s\<lparr>sy_server := (sy_server s)\<lparr>sv_daemon := False\<rparr>\<rparr>)
               else s);
          sv = sy_server s
      in s\<lparr>sy_server := sv\<lparr>sv_compression := cc_stop (sv_compression sv),
             sv_logger := lg_stop (le_day env) (le_canOpen env) (le_writeFails env) (sv_logger sv),
             sv_logging := False, sv_limiter := clear (sv_limiter sv)\<rparr>\<rparr>)"

section \<open>Starting\<close>

text \<open>\<open>inet_pton(AF_INET, ...)\<close>: four decimal numbers up to 255 without leading zeros.\<close>

definition octet :: "string \<Rightarrow> u32 option" where
  "octet s =
     (if s = [] \<or> \<not> list_all is_digit s \<or> length s > 1 \<and> hd s = CHR ''0'' then None
      else (let n = dec_value 0 s in if n > 255 then None else Some (of_nat n)))"

definition inet_pton :: "string \<Rightarrow> u32 option" where
  "inet_pton s =
     (case map octet (segments CHR ''.'' s) of
        [Some a, Some b, Some c, Some d] \<Rightarrow> Some (push_bit 24 a OR push_bit 16 b OR push_bit 8 c OR d)
      | _ \<Rightarrow> None)"

definition bind_address :: "string \<Rightarrow> u32 option" where
  "bind_address bind =
     (if bind = [] \<or> bind = ''0.0.0.0'' \<or> bind = ''*'' then Some 0 else inet_pton bind)"

text \<open>The part of \<open>start\<close> that undoes what was started when it fails.\<close>

definition abandon :: "lifecycle_env \<Rightarrow> FastdlServer \<Rightarrow> FastdlServer" where
  "abandon env sv =
     sv\<lparr>sv_logger := lg_stop (le_day env) (le_canOpen env) (le_writeFails env) (sv_logger sv),
        sv_bandwidth := bl_stop (sv_bandwidth sv),
        sv_compression := cc_stop (sv_compression sv), sv_logging := False\<rparr>"

definition start_cache :: "lifecycle_env \<Rightarrow> FastdlServer \<Rightarrow> FastdlServer" where
  "start_cache env sv =
     (let cfg = sv_config sv; sv = sv\<lparr>sv_compressionError := []\<rparr>
      in if cf_gzip cfg \<and> cf_gzipCache cfg then
           (case cc_start (le_cacheFs env) (le_cacheMade env) (le_cacheMadeFs env) (le_cwd env)
                   (resolveAgainstBase (cf_baseDir cfg) (cf_gzipCachePath cfg)) (pr_root (sv_resolver sv))
                   (cf_gzipCacheMaxBytes cfg) (Some (sv_resolver sv)) (cf_maxFileBytes cfg) []
                   (sv_compression sv) of
              (ok, e, c) \<Rightarrow> sv\<lparr>sv_compression := c, sv_compressionError := (if ok then [] else e)\<rparr>)
         else sv)"

definition start_services :: "lifecycle_env \<Rightarrow> FastdlServer \<Rightarrow> FastdlServer" where
  "start_services env sv =
     (let cfg = sv_config sv;
          logBase = resolveAgainstBase (cf_baseDir cfg) (cf_logPath cfg);
          (logging, lg) = lg_start logBase (unat (cf_logAgeDays cfg)) (le_logDirOk env) (le_logProbeOk env)
            (lg_stop (le_day env) (le_canOpen env) (le_writeFails env) (sv_logger sv))
      in sv\<lparr>sv_logBase := logBase, sv_logger := lg, sv_logging := logging,
            sv_bandwidth := bl_configure (cf_bandwidthMaxMbps cfg) (cf_bandwidthIpMbps cfg) (le_now env)
              (sv_bandwidth sv),
            sv_metrics := metrics_reset (le_second env)\<rparr>)"

definition sv_start ::
  "lifecycle_env \<Rightarrow> FastdlConfig \<Rightarrow> string \<Rightarrow> system \<Rightarrow> bool \<times> string \<times> system" where
  "sv_start env cfg error s =
     (let s = sy_stop env s; sv = (sy_server s)\<lparr>sv_config := cfg\<rparr>
      in if \<not> cf_enabled cfg then (True, error, s\<lparr>sy_server := sv\<rparr>)
         else (case configure (le_fs env) (le_cwd env) (resolveAgainstBase (cf_baseDir cfg) (cf_root cfg))
                 (cf_serveDirs cfg) (cf_serveTypes cfg) (cf_serveRootTypes cfg) error (sv_resolver sv) of
             (ok, e, resolver) \<Rightarrow>
               if \<not> ok then (False, e, s\<lparr>sy_server := sv\<lparr>sv_resolver := resolver\<rparr>\<rparr>)
               else
                 (let sv = start_services env (start_cache env (sv\<lparr>sv_resolver := resolver\<rparr>))
                  in if bind_address (cf_bindAddress cfg) = None
                     then (False, ''invalid IPv4 bind address'', s\<lparr>sy_server := abandon env sv\<rparr>)
                     else if \<not> le_daemonOk env
                     then (False, ''libmicrohttpd could not bind or start'', s\<lparr>sy_server := abandon env sv\<rparr>)
                     else (True, e, s\<lparr>sy_server := sv\<lparr>sv_daemon := True\<rparr>\<rparr>))))"

section \<open>Lemmas\<close>

text \<open>The worker at the top of its loop: ended, or waiting.\<close>

definition lg_settled :: "AsyncLogger \<Rightarrow> bool" where
  "lg_settled s \<longleftrightarrow> (\<forall>w. lg_worker s = Some w \<longrightarrow> w_pc w = Waiting)"

lemma lg_emit_frame [simp]:
  "lg_queue (lg_emit today c k s) = lg_queue s" "lg_stopping (lg_emit today c k s) = lg_stopping s"
  "lg_worker (lg_emit today c k s) = None \<longleftrightarrow> lg_worker s = None"
  by (auto simp: lg_emit_def Let_def split: option.splits worker_pc.splits)

lemma lg_emit_settled: "lg_settled (lg_emit today c k s)"
proof (cases "lg_worker s")
  case (Some w)
  then show ?thesis by (cases "w_pc w") (simp_all add: lg_settled_def lg_emit_def Let_def)
qed (simp add: lg_settled_def lg_emit_def)

lemma lg_take_stopping:
  assumes "lg_settled s" "lg_stopping s"
  shows "lg_stopping (lg_take s)" "lg_worker s \<noteq> None \<Longrightarrow> lg_queue (lg_take s) = []"
    "lg_worker s = None \<Longrightarrow> lg_take s = s"
    "lg_queue s = [] \<Longrightarrow> lg_worker (lg_take s) = None"
  using assms by (auto simp: lg_settled_def lg_take_def Let_def split: option.split)

lemma lg_joined_done: "lg_worker s = None \<Longrightarrow> lg_stopping s \<Longrightarrow>
    lg_worker (lg_joined s) = None \<and> lg_queue (lg_joined s) = [] \<and> lg_stopping (lg_joined s)"
  by (simp add: lg_joined_def)

lemma lg_stop_ends:
  "lg_worker (lg_stop today c k s) = None \<and> lg_queue (lg_stop today c k s) = [] \<and> lg_stopping (lg_stop today c k s)"
proof -
  let ?a = "lg_emit today c k (lg_request_stop s)"
  let ?b = "lg_emit today c k (lg_take ?a)"
  have a: "lg_settled ?a" "lg_stopping ?a" by (simp_all add: lg_emit_settled lg_request_stop_def)
  have b: "lg_settled ?b" "lg_stopping ?b" using lg_take_stopping(1) [OF a] by (simp_all add: lg_emit_settled)
  have "lg_worker (lg_take ?b) = None"
  proof (cases "lg_worker ?a")
    case None
    then show ?thesis using lg_take_stopping(3) [OF a] lg_take_stopping(3) [OF b] by simp
  next
    case (Some w)
    then show ?thesis using lg_take_stopping(2) [OF a] lg_take_stopping(4) [OF b] by simp
  qed
  then show ?thesis
    unfolding lg_stop_def by (rule lg_joined_done) (rule lg_take_stopping(1) [OF b])
qed

lemmas lg_stop_simps [simp] =
  lg_stop_ends [THEN conjunct1] lg_stop_ends [THEN conjunct2, THEN conjunct1]
  lg_stop_ends [THEN conjunct2, THEN conjunct2]

text \<open>Every open request is ended by the shutdown.\<close>

lemma sy_finish_live: "sy_live (sy_finish n now code s) = AList.delete n (sy_live s)"
  by (force simp: sy_finish_def AList.delete_eq map_of_eq_None_iff intro!: filter_True [symmetric] split: option.split)

lemma quit_all:
  assumes "sys_inv s" "fst ` set (sy_live s) \<subseteq> set ns"
  shows "sys_inv (foldl (\<lambda>s n. sy_finish n now code s) s ns) \<and> sy_live (foldl (\<lambda>s n. sy_finish n now code s) s ns) = []"
  using assms
proof (induction ns arbitrary: s)
  case (Cons n ns)
  have "fst ` set (AList.delete n (sy_live s)) \<subseteq> set ns"
    using Cons.prems(2) by (auto simp: AList.delete_eq)
  then show ?case using Cons.IH [OF sys_inv_finish [OF Cons.prems(1)]] by (simp add: sy_finish_live)
qed simp

lemma quit_requests_all: "sys_inv s \<Longrightarrow> sys_inv (quit_requests now s) \<and> sy_live (quit_requests now s) = []"
  unfolding quit_requests_def by (rule quit_all) auto

lemma sy_finish_stopping:
  "bl_stopping (sv_bandwidth (sy_server (sy_finish n now code s))) = bl_stopping (sv_bandwidth (sy_server s))"
proof -
  have "bl_stopping (sv_bandwidth (foldr fileReaderFree cs sv)) = bl_stopping (sv_bandwidth sv)" for cs sv
    by (induction cs) (simp_all add: fileReaderFree_def release_lease_def split: option.split)
  moreover have "sv_bandwidth (snd (requestCompleted now code c sv)) = sv_bandwidth sv" for c sv
    by (simp add: requestCompleted_def logCompleted_def Let_def split: option.split)
  ultimately show ?thesis by (simp add: sy_finish_def split: option.split)
qed

lemma quit_requests_stopping:
  "bl_stopping (sv_bandwidth (sy_server (quit_requests now s))) = bl_stopping (sv_bandwidth (sy_server s))"
proof -
  have "bl_stopping (sv_bandwidth (sy_server (foldl (\<lambda>s n. sy_finish n now code s) s ns))) =
      bl_stopping (sv_bandwidth (sy_server s))" for code ns
    by (induction ns arbitrary: s) (simp_all add: sy_finish_stopping)
  then show ?thesis by (simp add: quit_requests_def)
qed

text \<open>Without open requests nothing is held.\<close>

lemma sys_inv_idle:
  assumes "sys_inv s" "sy_live s = []"
  shows "sv_files (sy_server s) = {#}" "bl_leases (sv_bandwidth (sy_server s)) = []"
    "tm_active (sv_metrics (sy_server s)) = 0"
proof -
  have "mset (bl_leases (sv_bandwidth (sy_server s))) = {#}"
    by (rule multiset_eqI) (use assms in \<open>simp add: sys_inv_def\<close>)
  then show "bl_leases (sv_bandwidth (sy_server s)) = []" by simp
  show "sv_files (sy_server s) = {#}" by (rule multiset_eqI) (use assms in \<open>simp add: sys_inv_def\<close>)
  show "tm_active (sv_metrics (sy_server s)) = 0" using assms by (simp add: sys_inv_def unat_eq_0)
qed

text \<open>With no open request the invariant speaks about few fields.\<close>

lemma sys_inv_stopped:
  assumes "sy_live s = []" "rl_inv (sv_limiter (sy_server s))" "sv_files (sy_server s) = {#}"
    "bl_leases (sv_bandwidth (sy_server s)) = []" "tm_active (sv_metrics (sy_server s)) = 0"
    "list_all (list_all printable) (lg_offered (sv_logger (sy_server s)))"
  shows "sys_inv s"
  using assms by (simp add: sys_inv_def)

lemma lg_stop_offered [simp]: "lg_offered (lg_stop today c k s) = lg_offered s"
proof -
  have e: "lg_offered (lg_emit today c k s) = lg_offered s" for s
    by (simp add: lg_emit_def Let_def split: option.split worker_pc.split)
  have t: "lg_offered (lg_take s) = lg_offered s" for s
    by (simp add: lg_take_def Let_def split: option.split)
  show ?thesis by (simp add: lg_stop_def lg_joined_def e t) (simp add: lg_request_stop_def)
qed

lemma lg_start_offered: "lg_offered (snd (lg_start b k d p s)) = lg_offered s \<or> lg_offered (snd (lg_start b k d p s)) = []"
  by (simp add: lg_start_def Let_def)

lemma bl_stop_leases [simp]: "bl_leases (bl_stop s) = bl_leases s" "bl_stopping (bl_stop s)"
  by (simp_all add: bl_stop_def)

text \<open>What is left after a stop.\<close>

definition quiet :: "FastdlServer \<Rightarrow> bool" where
  "quiet sv \<longleftrightarrow> \<not> sv_daemon sv \<and> bl_stopping (sv_bandwidth sv) \<and> \<not> cc_running (sv_compression sv) \<and>
     cc_jobs (sv_compression sv) = [] \<and> lg_worker (sv_logger sv) = None \<and> lg_queue (sv_logger sv) = [] \<and>
     \<not> sv_logging sv"

definition ls_inv :: "system \<Rightarrow> bool" where
  "ls_inv s \<longleftrightarrow> sys_inv s \<and> (\<not> sv_daemon (sy_server s) \<longrightarrow> sy_live s = [] \<and> quiet (sy_server s))"

lemma rl_inv_clear: "rl_inv (clear s)"
  by (simp add: rl_inv_def clear_def)

lemma sy_stop_quiet:
  assumes "ls_inv s"
  shows "sys_inv (sy_stop env s) \<and> sy_live (sy_stop env s) = [] \<and> quiet (sy_server (sy_stop env s))"
proof -
  define s1 where "s1 = s\<lparr>sy_server := (sy_server s)\<lparr>sv_bandwidth := bl_stop (sv_bandwidth (sy_server s))\<rparr>\<rparr>"
  define s2 where "s2 = (if sv_daemon (sy_server s1) then quit_requests (le_localTime env) s1 else s1)"
  have "sys_inv s1" using assms by (simp add: s1_def ls_inv_def sys_inv_def)
  moreover have "\<not> sv_daemon (sy_server s1) \<Longrightarrow> sy_live s1 = []" using assms by (simp add: s1_def ls_inv_def)
  ultimately have s2: "sys_inv s2" "sy_live s2 = []" using quit_requests_all [of s1] by (auto simp: s2_def)
  have st: "sy_stop env s = s2\<lparr>sy_server := (sy_server s2)\<lparr>sv_daemon := False,
      sv_compression := cc_stop (sv_compression (sy_server s2)),
      sv_logger := lg_stop (le_day env) (le_canOpen env) (le_writeFails env) (sv_logger (sy_server s2)),
      sv_logging := False, sv_limiter := clear (sv_limiter (sy_server s2))\<rparr>\<rparr>"
    by (simp add: sy_stop_def s1_def s2_def Let_def)
  have "bl_stopping (sv_bandwidth (sy_server s2))"
    by (simp add: s2_def s1_def quit_requests_stopping)
  with st s2 sys_inv_idle [OF s2] show ?thesis
    by (simp add: quiet_def sys_inv_def rl_inv_clear)
qed

text \<open>Starting the parts keeps what the invariant speaks about.\<close>

lemma start_cache_frame:
  obtains c e where "start_cache env sv = sv\<lparr>sv_compressionError := e, sv_compression := c\<rparr>"
proof -
  obtain k e c where r: "cc_start (le_cacheFs env) (le_cacheMade env) (le_cacheMadeFs env) (le_cwd env)
      (resolveAgainstBase (cf_baseDir (sv_config sv)) (cf_gzipCachePath (sv_config sv))) (pr_root (sv_resolver sv))
      (cf_gzipCacheMaxBytes (sv_config sv)) (Some (sv_resolver sv)) (cf_maxFileBytes (sv_config sv)) []
      (sv_compression sv) = (k, e, c)" by (metis prod_cases3)
  show ?thesis
  proof (cases "cf_gzip (sv_config sv) \<and> cf_gzipCache (sv_config sv)")
    case True
    with r show ?thesis
      by (intro that [where c = c and e = "if k then [] else e"]) (simp add: start_cache_def Let_def)
  qed (rule that [where c = "sv_compression sv" and e = "[]"], auto simp: start_cache_def Let_def)
qed

lemma start_services_frame:
  obtains b lg k where "start_services env sv = sv\<lparr>sv_logBase := b, sv_logger := lg, sv_logging := k,
      sv_bandwidth := bl_configure (cf_bandwidthMaxMbps (sv_config sv)) (cf_bandwidthIpMbps (sv_config sv)) (le_now env)
        (sv_bandwidth sv), sv_metrics := metrics_reset (le_second env)\<rparr>"
    "lg_offered lg = lg_offered (sv_logger sv) \<or> lg_offered lg = []"
proof -
  obtain k lg where l: "lg_start (resolveAgainstBase (cf_baseDir (sv_config sv)) (cf_logPath (sv_config sv)))
      (unat (cf_logAgeDays (sv_config sv))) (le_logDirOk env) (le_logProbeOk env)
      (lg_stop (le_day env) (le_canOpen env) (le_writeFails env) (sv_logger sv)) = (k, lg)" by fastforce
  with lg_start_offered [of "resolveAgainstBase (cf_baseDir (sv_config sv)) (cf_logPath (sv_config sv))"
      "unat (cf_logAgeDays (sv_config sv))" "le_logDirOk env" "le_logProbeOk env"
      "lg_stop (le_day env) (le_canOpen env) (le_writeFails env) (sv_logger sv)"]
  have "lg_offered lg = lg_offered (sv_logger sv) \<or> lg_offered lg = []" by simp
  with l show ?thesis by (intro that [where lg = lg and k = k]) (simp_all add: start_services_def Let_def)
qed

lemma bl_configure_frame: "bl_leases (bl_configure g p now b) = bl_leases b" "bl_stopping (bl_configure g p now b) = False"
  by (simp_all add: bl_configure_def bl_stop_def Let_def)

lemma abandon_frame:
  "\<not> sv_daemon sv \<Longrightarrow> quiet (abandon env sv)" "sv_files (abandon env sv) = sv_files sv"
  "bl_leases (sv_bandwidth (abandon env sv)) = bl_leases (sv_bandwidth sv)"
  "sv_metrics (abandon env sv) = sv_metrics sv" "sv_limiter (abandon env sv) = sv_limiter sv"
  "lg_offered (sv_logger (abandon env sv)) = lg_offered (sv_logger sv)"
  by (simp_all add: abandon_def quiet_def)

text \<open>The server between the cache's and the daemon's start.\<close>

definition ready :: "lifecycle_env \<Rightarrow> FastdlConfig \<Rightarrow> FastdlServer \<Rightarrow> PathResolver \<Rightarrow> FastdlServer" where
  "ready env cfg sv resolver =
     start_services env (start_cache env (sv\<lparr>sv_config := cfg, sv_resolver := resolver\<rparr>))"

lemma ready_frame:
  fixes env cfg sv resolver
  assumes "quiet sv" "sys_inv \<lparr>sy_server = sv, sy_live = []\<rparr>"
  defines "r \<equiv> ready env cfg sv resolver"
  shows "\<not> sv_daemon r" "sv_config r = cfg" "sv_resolver r = resolver" "sv_limiter r = sv_limiter sv"
    "sv_files r = {#}" "bl_leases (sv_bandwidth r) = []" "\<not> bl_stopping (sv_bandwidth r)"
    "sv_metrics r = metrics_reset (le_second env)" "list_all (list_all printable) (lg_offered (sv_logger r))"
proof -
  obtain c e where c: "start_cache env (sv\<lparr>sv_config := cfg, sv_resolver := resolver\<rparr>) =
      sv\<lparr>sv_config := cfg, sv_resolver := resolver, sv_compressionError := e, sv_compression := c\<rparr>"
    by (rule start_cache_frame [of env "sv\<lparr>sv_config := cfg, sv_resolver := resolver\<rparr>"]) simp
  obtain b lg k where "r = sv\<lparr>sv_config := cfg, sv_resolver := resolver, sv_compressionError := e, sv_compression := c,
      sv_logBase := b, sv_logger := lg, sv_logging := k,
      sv_bandwidth := bl_configure (cf_bandwidthMaxMbps cfg) (cf_bandwidthIpMbps cfg) (le_now env) (sv_bandwidth sv),
      sv_metrics := metrics_reset (le_second env)\<rparr>"
    "lg_offered lg = lg_offered (sv_logger sv) \<or> lg_offered lg = []"
    unfolding r_def ready_def c
    by (rule start_services_frame [of env "sv\<lparr>sv_config := cfg, sv_resolver := resolver, sv_compressionError := e, sv_compression := c\<rparr>"]) simp
  with assms(1,2) sys_inv_idle [OF assms(2)]
  show "\<not> sv_daemon r" "sv_config r = cfg" "sv_resolver r = resolver" "sv_limiter r = sv_limiter sv"
    "sv_files r = {#}" "bl_leases (sv_bandwidth r) = []" "\<not> bl_stopping (sv_bandwidth r)"
    "sv_metrics r = metrics_reset (le_second env)" "list_all (list_all printable) (lg_offered (sv_logger r))"
    by (auto simp: quiet_def bl_configure_frame sys_inv_def)
qed

text \<open>The ways in which \<open>start\<close> ends.\<close>

lemma sv_start_cases:
  assumes "sv_start env cfg error s = (ok, e, s')"
  defines "sv \<equiv> sy_server (sy_stop env s)"
  obtains (disabled) "\<not> cf_enabled cfg" "ok" "e = error" "s' = (sy_stop env s)\<lparr>sy_server := sv\<lparr>sv_config := cfg\<rparr>\<rparr>"
  | (no_root) r where "cf_enabled cfg" "\<not> ok" "e \<noteq> []" "s' = (sy_stop env s)\<lparr>sy_server := sv\<lparr>sv_config := cfg, sv_resolver := r\<rparr>\<rparr>"
  | (given_up) r where "cf_enabled cfg" "\<not> ok" "e \<noteq> []" "s' = (sy_stop env s)\<lparr>sy_server := abandon env (ready env cfg sv r)\<rparr>"
  | (started) r where "cf_enabled cfg" "ok" "e = error" "bind_address (cf_bindAddress cfg) \<noteq> None"
      "is_directory (le_fs env) (pr_root r)"
      "s' = (sy_stop env s)\<lparr>sy_server := (ready env cfg sv r)\<lparr>sv_daemon := True\<rparr>\<rparr>"
proof (cases "cf_enabled cfg")
  case False
  with assms show thesis by (intro disabled) (simp_all add: sv_start_def Let_def)
next
  case True
  obtain k e1 r where c: "configure (le_fs env) (le_cwd env) (resolveAgainstBase (cf_baseDir cfg) (cf_root cfg))
      (cf_serveDirs cfg) (cf_serveTypes cfg) (cf_serveRootTypes cfg) error (sv_resolver sv) = (k, e1, r)"
    by (metis prod_cases3)
  have k: "if k then e1 = error \<and> is_directory (le_fs env) (pr_root r) else e1 \<noteq> []"
    using c by (auto simp: configure_def Let_def split: sum.splits if_splits prod.splits)
  show thesis
  proof (cases k)
    case False
    with True c k assms show thesis by (intro no_root [of r]) (auto simp: sv_start_def Let_def)
  next
    case k': True
    show thesis
    proof (cases "bind_address (cf_bindAddress cfg) = None \<or> \<not> le_daemonOk env")
      case True
      with \<open>cf_enabled cfg\<close> c k' assms(1) show thesis
        unfolding sv_def by (intro given_up [of r]) (auto simp: sv_start_def Let_def ready_def sv_def split: if_splits)
    next
      case False
      with \<open>cf_enabled cfg\<close> c k k' assms(1) show thesis
        unfolding sv_def by (intro started [of r]) (auto simp: sv_start_def Let_def ready_def sv_def)
    qed
  qed
qed

section \<open>The server over its whole life\<close>

datatype ls_event = Started lifecycle_env FastdlConfig | Stopped lifecycle_env | Ran sy_event

text \<open>Requests and workers exist only while the daemon runs; the administrator's unblock is always
  possible.\<close>

fun ls_step :: "system \<Rightarrow> ls_event \<Rightarrow> system" where
  "ls_step s (Started env cfg) = snd (snd (sv_start env cfg [] s))"
| "ls_step s (Stopped env) = sy_stop env s"
| "ls_step s (Ran e) =
     (if sv_daemon (sy_server s) then sy_step s e
      else (case e of Unblocked now ip \<Rightarrow> sy_step s e | _ \<Rightarrow> s))"

text \<open>The server as constructed.\<close>

definition ls_init :: "FastdlConfig \<Rightarrow> system" where
  "ls_init cfg =
     \<lparr>sy_server = (fresh_server cfg pr_init)\<lparr>sv_daemon := False, sv_bandwidth := bl_init\<rparr>, sy_live = []\<rparr>"

lemma sv_start_inv:
  assumes inv: "ls_inv s" and start: "sv_start env cfg error s = (ok, e, s')"
  shows "ls_inv s' \<and> sy_live s' = [] \<and> sv_daemon (sy_server s') = (ok \<and> cf_enabled cfg)"
proof -
  obtain sv where st: "sy_stop env s = \<lparr>sy_server = sv, sy_live = []\<rparr>" and i: "sys_inv \<lparr>sy_server = sv, sy_live = []\<rparr>"
    and q: "quiet sv" using sy_stop_quiet [OF inv, of env] by (metis system.surjective old.unit.exhaust)
  note idle = sys_inv_idle [OF i]
  have rl: "rl_inv (sv_limiter sv)" using i by (simp add: sys_inv_def)
  note r = ready_frame [OF q i]
  have m: "tm_active (metrics_reset n) = 0" for n by (simp add: metrics_reset_def)
  from start show ?thesis
  proof (cases rule: sv_start_cases)
    case disabled
    with i q show ?thesis by (simp add: st ls_inv_def sys_inv_def quiet_def)
  next
    case (no_root res)
    with i q show ?thesis by (simp add: st ls_inv_def sys_inv_def quiet_def)
  next
    case (given_up res)
    have "sys_inv \<lparr>sy_server = abandon env (ready env cfg sv res), sy_live = []\<rparr>"
      by (rule sys_inv_stopped) (simp_all add: abandon_frame r m rl idle)
    with given_up abandon_frame(1) [OF r(1)] show ?thesis by (simp add: st ls_inv_def quiet_def)
  next
    case (started res)
    have "sys_inv \<lparr>sy_server = (ready env cfg sv res)\<lparr>sv_daemon := True\<rparr>, sy_live = []\<rparr>"
      by (rule sys_inv_stopped) (simp_all add: r m rl)
    with started show ?thesis by (simp add: st ls_inv_def)
  qed
qed

lemma sv_start_config:
  assumes inv: "ls_inv s" and start: "sv_start env cfg error s = (ok, e, s')" and run: "sv_daemon (sy_server s')"
  shows "sv_config (sy_server s') = cfg"
proof -
  obtain sv where st: "sy_stop env s = \<lparr>sy_server = sv, sy_live = []\<rparr>" and i: "sys_inv \<lparr>sy_server = sv, sy_live = []\<rparr>"
    and q: "quiet sv" using sy_stop_quiet [OF inv, of env] by (metis system.surjective old.unit.exhaust)
  from start show ?thesis
  proof (cases rule: sv_start_cases)
    case (started res)
    with ready_frame(2) [OF q i] show ?thesis by (simp add: st)
  next
    case (given_up res)
    with abandon_frame(1) [OF ready_frame(1) [OF q i]] run show ?thesis by (simp add: st quiet_def)
  qed (use q in \<open>simp_all add: st\<close>)
qed

lemma sy_stop_clears: "rl_clients (sv_limiter (sy_server (sy_stop env s))) = []"
  by (simp add: sy_stop_def Let_def clear_def)

lemma quiet_unblock: "quiet (sv\<lparr>sv_limiter := l\<rparr>) = quiet sv"
  by (simp add: quiet_def)

lemma ls_inv_step: "ls_inv s \<Longrightarrow> ls_inv (ls_step s e)"
proof (cases e)
  case (Started env cfg)
  assume "ls_inv s"
  with Started show ?thesis using sv_start_inv [of s env cfg "[]"] by (metis ls_step.simps(1) prod.collapse)
next
  case (Stopped env)
  assume "ls_inv s"
  with Stopped sy_stop_quiet [of s env] show ?thesis by (simp add: ls_inv_def)
next
  case (Ran ev)
  assume inv: "ls_inv s"
  show ?thesis
  proof (cases "sv_daemon (sy_server s)")
    case True
    with inv Ran sys_inv_step [of s ev] sy_step_daemon [of s ev] show ?thesis by (simp add: ls_inv_def)
  next
    case False
    with inv Ran show ?thesis
      using sys_inv_step [of s ev] by (cases ev) (simp_all add: ls_inv_def quiet_unblock)
  qed
qed

interpretation ls: transition_system "ls_init cfg" ls_step ls_inv for cfg
proof unfold_locales
  show "ls_inv (ls_init cfg)"
    unfolding ls_inv_def
    by (intro conjI impI sys_inv_stopped)
      (simp_all add: ls_init_def fresh_server_def rl.inv_start bl_init_def lg_init_def metrics_reset_def quiet_def cc_init_def)
qed (rule ls_inv_step)

section \<open>Properties\<close>

text \<open>C3. The server loses nothing, over any sequence of starts, stops, reconfigurations, handler calls,
  reads, completions, worker steps and unblocks, on any number of requests at once, with any
  answers of libmicrohttpd and of the file system. The open descriptors and the bandwidth leases
  are exactly those of the transfer contexts of the open requests, the metrics' count of active
  transfers is the number of open requests with an active transfer, every open request has at
  most one answer queued, which its state describes, and every line offered to the log is a
  single line of printable bytes. While no daemon runs no request is open, so nothing is held,
  and the limiter refuses bandwidth, the cache has no jobs and neither worker runs.\<close>

theorem server_accounting:
  fixes cfg es
  defines "s \<equiv> foldl ls_step (ls_init cfg) es"
  shows "sv_files (sy_server s) = mset (map tc_fd (open_contexts s)) \<and>
    mset (bl_leases (sv_bandwidth (sy_server s))) = mset (lease_list (open_contexts s)) \<and>
    unat (tm_active (sv_metrics (sy_server s))) =
      length (filter (\<lambda>(n, l). rq_activeTransfer (lv_state l)) (sy_live s)) \<and>
    list_all (\<lambda>(n, l). length (lv_queued l) \<le> 1 \<and> list_all (matches_state (lv_state l)) (lv_queued l)) (sy_live s) \<and>
    list_all (list_all printable) (lg_offered (sv_logger (sy_server s))) \<and>
    (sv_daemon (sy_server s) \<or>
       sy_live s = [] \<and> bl_stopping (sv_bandwidth (sy_server s)) \<and> \<not> cc_running (sv_compression (sy_server s)) \<and>
       cc_jobs (sv_compression (sy_server s)) = [] \<and> lg_worker (sv_logger (sy_server s)) = None)"
proof -
  have "ls_inv s" unfolding s_def by (rule ls.inv_reachable)
  then show ?thesis using sys_inv_accounting [of s] by (auto simp: ls_inv_def quiet_def)
qed

text \<open>C31. How a start ends, whatever the server did before. It succeeds with an enabled configuration
  exactly when a daemon runs afterwards; then no request is open, the configuration is the given
  one, the root is a directory, the bind address is an address, no client is known to the rate
  limiter, the bandwidth limiter serves and the metrics start at zero. Otherwise everything is
  stopped and nothing is held: the daemon, both workers, the bandwidth limiter and the cache,
  whichever step failed; and a failure has a message.\<close>

theorem start_outcome:
  "case sv_start env cfg error (foldl ls_step (ls_init c0) es) of (ok, e, s) \<Rightarrow>
     if ok \<and> cf_enabled cfg
     then sv_daemon (sy_server s) \<and> sy_live s = [] \<and> sv_config (sy_server s) = cfg \<and>
       is_directory (le_fs env) (pr_root (sv_resolver (sy_server s))) \<and>
       bind_address (cf_bindAddress cfg) \<noteq> None \<and> rl_clients (sv_limiter (sy_server s)) = [] \<and>
       \<not> bl_stopping (sv_bandwidth (sy_server s)) \<and> sv_metrics (sy_server s) = metrics_reset (le_second env)
     else quiet (sy_server s) \<and> sy_live s = [] \<and> sv_files (sy_server s) = {#} \<and>
       bl_leases (sv_bandwidth (sy_server s)) = [] \<and> ok \<noteq> cf_enabled cfg \<and> (if ok then e = error else e \<noteq> [])"
proof -
  let ?s0 = "foldl ls_step (ls_init c0) es"
  have inv: "ls_inv ?s0" by (rule ls.inv_reachable)
  obtain sv where st: "sy_stop env ?s0 = \<lparr>sy_server = sv, sy_live = []\<rparr>" and i: "sys_inv \<lparr>sy_server = sv, sy_live = []\<rparr>"
    and q: "quiet sv" using sy_stop_quiet [OF inv, of env] by (metis system.surjective old.unit.exhaust)
  have rl: "rl_clients (sv_limiter sv) = []" using sy_stop_clears [of env ?s0] st by simp
  obtain ok e s where r: "sv_start env cfg error ?s0 = (ok, e, s)" by (metis prod_cases3)
  from sv_start_inv [OF inv r] have s: "ls_inv s" "sy_live s = []" "sv_daemon (sy_server s) = (ok \<and> cf_enabled cfg)"
    by auto
  then have "sys_inv s" by (simp add: ls_inv_def)
  note idle = sys_inv_idle [OF this s(2)]
  from r show ?thesis
  proof (cases rule: sv_start_cases)
    case (started res)
    with r show ?thesis using ready_frame [OF q i] rl s(2) by (simp add: st)
  qed (use r s idle in \<open>simp_all add: ls_inv_def\<close>)
qed

end
