(* ===== verification/Plugin_Config.thy ===== *)
theory Plugin_Config
  imports Server_Lifecycle Config_Parser
begin

text \<open>
  The plugin's settings (\<^verbatim>\<open>src/src/meta_plugin.cpp\<close>, the first half): the table of console
  variables, reading the configuration from them within bounds, the texts of the console
  commands, the public URL, and writing and loading the configuration file. The game engine is
  not part of the sources: its functions are a parameter, the record \<open>enginefuncs\<close> over any type of
  engine states, and what the plugin relies on is the predicate \<open>engine_laws\<close>.
\<close>

section \<open>The engine\<close>

text \<open>\<open>cvar_known\<close> tells which console variables are registered; no operation of the plugin reads it.
  A \<open>float\<close> is a rational or not finite.\<close>

record 'e enginefuncs =
  pfnCVarGetFloat :: "'e \<Rightarrow> string \<Rightarrow> double"
  pfnCVarGetString :: "'e \<Rightarrow> string \<Rightarrow> string"
  pfnCVarSetString :: "string \<Rightarrow> string \<Rightarrow> 'e \<Rightarrow> 'e"
  pfnCVarRegister :: "string \<Rightarrow> string \<Rightarrow> 'e \<Rightarrow> 'e"
  pfnAddServerCommand :: "string \<Rightarrow> 'e \<Rightarrow> 'e"
  pfnServerPrint :: "string \<Rightarrow> 'e \<Rightarrow> 'e"
  cvar_known :: "'e \<Rightarrow> string \<Rightarrow> bool"

text \<open>\<open>std::string::c_str\<close> as a callee that takes a C string reads it.\<close>

definition c_str :: "string \<Rightarrow> string" where
  "c_str s = takeWhile (\<lambda>c. c \<noteq> CHR 0x00) s"

text \<open>Setting a registered variable changes its string and no other, registering gives a new variable
  its default, printing and adding commands leave variables alone, and strings are C strings.\<close>

definition engine_laws :: "'e enginefuncs \<Rightarrow> bool" where
  "engine_laws E \<longleftrightarrow>
     (\<forall>e n v m. pfnCVarGetString E (pfnCVarSetString E n v e) m =
        (if m = n \<and> cvar_known E e n then c_str v else pfnCVarGetString E e m)) \<and>
     (\<forall>e n v m. cvar_known E (pfnCVarSetString E n v e) m = cvar_known E e m) \<and>
     (\<forall>e n d m. pfnCVarGetString E (pfnCVarRegister E n d e) m =
        (if m = n \<and> \<not> cvar_known E e n then c_str d else pfnCVarGetString E e m)) \<and>
     (\<forall>e n d m. cvar_known E (pfnCVarRegister E n d e) m = (m = n \<or> cvar_known E e m)) \<and>
     (\<forall>e t m. pfnCVarGetString E (pfnServerPrint E t e) m = pfnCVarGetString E e m) \<and>
     (\<forall>e t m. cvar_known E (pfnServerPrint E t e) m = cvar_known E e m) \<and>
     (\<forall>e c m. pfnCVarGetString E (pfnAddServerCommand E c e) m = pfnCVarGetString E e m) \<and>
     (\<forall>e c m. cvar_known E (pfnAddServerCommand E c e) m = cvar_known E e m) \<and>
     (\<forall>e m. CHR 0x00 \<notin> set (pfnCVarGetString E e m))"

section \<open>Settings\<close>

definition g_settings :: "(string \<times> string \<times> string) list" where
  "g_settings =
     [(''fastdl_enabled'', ''1'', ''toggle fastdl hosting''),
      (''fastdl_bind'', ''0.0.0.0'', ''listen address''),
      (''fastdl_port'', ''0'', ''listen port (TCP); 0 uses the game port number''),
      (''fastdl_root'', ''cstrike'', ''game mod directory''),
      (''fastdl_serve_dirs'', ''sprites,sound,sounds,overviews,models,maps,gfx'', ''subdirectories served, comma separated''),
      (''fastdl_serve_types'', ''bsp,nav,res,wad,mdl,spr,wav,mp3,bmp,tga,txt,htm,html,gz,bz2'', ''extensions served, comma separated''),
      (''fastdl_serve_root_types'', ''wad'', ''root-level extensions served, comma separated''),
      (''fastdl_max_file_mb'', ''250'', ''refuse files larger than this''),
      (''fastdl_threads'', ''1'', ''HTTP workers; use 2 only for measured concurrent/slow transfers''),
      (''fastdl_max_connections'', ''64'', ''global concurrent connection limit''),
      (''fastdl_max_connections_ip'', ''32'', ''concurrent connections per IP''),
      (''fastdl_connection_timeout'', ''30'', ''idle connection timeout in seconds''),
      (''fastdl_requests_minute'', ''500'', ''requests per minute per IP''),
      (''fastdl_denials_minute'', ''36'', ''denials per minute before a temporary block''),
      (''fastdl_block_seconds'', ''180'', ''how long a block lasts, in seconds''),
      (''fastdl_bandwidth_max_mbps'', ''0'', ''global response payload limit in Mbps; 0 is unlimited''),
      (''fastdl_bandwidth_ip_mbps'', ''0'', ''shared response payload limit per IP; 0 is unlimited''),
      (''fastdl_steam_only'', ''1'', ''only accept the Steam downloader User-Agent''),
      (''fastdl_gzip'', ''0'', ''serve cached gzip when the client accepts it''),
      (''fastdl_gzip_cache'', ''1'', ''prepare gzip representations on a background thread''),
      (''fastdl_gzip_cache_path'', ''fastdl_cache'', ''disk cache path outside fastdl_root''),
      (''fastdl_gzip_cache_max_mb'', ''256'', ''maximum compressed cache size''),
      (''fastdl_auto_downloadurl'', ''0'', ''set sv_downloadurl after a successful start''),
      (''fastdl_public_url'', [], ''explicit public HTTP URL used by automatic mode''),
      (''fastdl_log'', ''logs/fastdl/fastdl.log'', ''log base path; one file per day''),
      (''fastdl_log_age'', ''7'', ''days of logs to keep, 0 keeps all'')]"

text \<open>\<open>std::clamp\<close>, and the conversions from \<open>float\<close>. All bounds are below \<open>2 ^ 24\<close> and exact as
  \<open>float\<close>; the conversion of a non-negative value truncates.\<close>

definition clamp :: "rat \<Rightarrow> rat \<Rightarrow> rat \<Rightarrow> rat" where
  "clamp v lo hi = (if v < lo then lo else if hi < v then hi else v)"

definition boundedUnsigned :: "'e enginefuncs \<Rightarrow> 'e \<Rightarrow> string \<Rightarrow> u32 \<Rightarrow> u32 \<Rightarrow> u32 \<Rightarrow> u32" where
  "boundedUnsigned E e name minimum maximum fallback =
     (case pfnCVarGetFloat E e name of
        NotFinite \<Rightarrow> fallback
      | Finite v \<Rightarrow> of_int \<lfloor>clamp v (of_nat (unat minimum)) (of_nat (unat maximum))\<rfloor>)"

text \<open>The \<open>float\<close> nearest to 0.1.\<close>

definition tenth :: rat where
  "tenth = 13421773 / 134217728"

definition boundedRate :: "'e enginefuncs \<Rightarrow> 'e \<Rightarrow> string \<Rightarrow> double" where
  "boundedRate E e name =
     (case pfnCVarGetFloat E e name of
        NotFinite \<Rightarrow> Finite 0
      | Finite v \<Rightarrow> if v \<le> 0 then Finite 0 else Finite (clamp v tenth 10000))"

definition gamePort :: "'e enginefuncs \<Rightarrow> 'e \<Rightarrow> u32" where
  "gamePort E e =
     (let usable = (\<lambda>name. case pfnCVarGetFloat E e name of
            Finite v \<Rightarrow> if 1 \<le> v \<and> v \<le> 65535 then Some (of_int \<lfloor>v\<rfloor>) else None
          | NotFinite \<Rightarrow> None)
      in case usable ''hostport'' of
           Some port \<Rightarrow> port
         | None \<Rightarrow> (case usable ''port'' of Some port \<Rightarrow> port | None \<Rightarrow> 27015))"

definition nonzero :: "double \<Rightarrow> bool" where
  "nonzero v \<longleftrightarrow> v \<noteq> Finite 0"

definition readConfig :: "'e enginefuncs \<Rightarrow> 'e \<Rightarrow> path \<Rightarrow> FastdlConfig" where
  "readConfig E e baseDir =
     (let flag = (\<lambda>name. nonzero (pfnCVarGetFloat E e name));
          text = pfnCVarGetString E e;
          number = boundedUnsigned E e;
          port = number ''fastdl_port'' 0 65535 0;
          maxConnections = number ''fastdl_max_connections'' 8 128 64
      in \<lparr>cf_enabled = flag ''fastdl_enabled'',
          cf_bindAddress = text ''fastdl_bind'',
          cf_port = ucast (if port = 0 then gamePort E e else port),
          cf_root = path_of (text ''fastdl_root''),
          cf_baseDir = baseDir,
          cf_serveDirs = text ''fastdl_serve_dirs'',
          cf_serveTypes = text ''fastdl_serve_types'',
          cf_serveRootTypes = text ''fastdl_serve_root_types'',
          cf_maxFileBytes = ucast (number ''fastdl_max_file_mb'' 1 2048 250) * 1024 * 1024,
          cf_threads = number ''fastdl_threads'' 1 4 1,
          cf_maxConnections = maxConnections,
          cf_maxConnectionsPerIp = number ''fastdl_max_connections_ip'' 1 maxConnections 32,
          cf_connectionTimeoutSeconds = number ''fastdl_connection_timeout'' 5 300 30,
          cf_requestsPerMinute = number ''fastdl_requests_minute'' 1 10000 500,
          cf_denialsPerMinute = number ''fastdl_denials_minute'' 1 1000 36,
          cf_blockSeconds = number ''fastdl_block_seconds'' 1 86400 180,
          cf_bandwidthMaxMbps = boundedRate E e ''fastdl_bandwidth_max_mbps'',
          cf_bandwidthIpMbps = boundedRate E e ''fastdl_bandwidth_ip_mbps'',
          cf_steamOnly = flag ''fastdl_steam_only'',
          cf_gzip = flag ''fastdl_gzip'',
          cf_gzipCache = flag ''fastdl_gzip_cache'',
          cf_gzipCachePath = path_of (text ''fastdl_gzip_cache_path''),
          cf_gzipCacheMaxBytes = ucast (number ''fastdl_gzip_cache_max_mb'' 16 1024 256) * 1024 * 1024,
          cf_autoDownloadUrl = flag ''fastdl_auto_downloadurl'',
          cf_publicUrl = text ''fastdl_public_url'',
          cf_logPath = path_of (text ''fastdl_log''),
          cf_logAgeDays = number ''fastdl_log_age'' 0 3650 7\<rparr>)"

section \<open>Texts\<close>

text \<open>\<open>std::fixed\<close> with the precision 0 or 1, of a fraction: to nearest, ties to even.\<close>

definition fixed0 :: "nat \<Rightarrow> nat \<Rightarrow> string" where
  "fixed0 n d = to_string (round_half_even n d)"

definition fixed1 :: "nat \<Rightarrow> nat \<Rightarrow> string" where
  "fixed1 n d =
     (let tenths = round_half_even (n * 10) d in to_string (tenths div 10) @ ''.'' @ to_string (tenths mod 10))"

text \<open>The loop of \<open>humanBytes\<close>: the value is \<open>n / d\<close>, and dividing it by 1024 is exact. The bound on
  the units ends the loop.\<close>

definition byte_units :: "string list" where
  "byte_units = [''B'', ''KB'', ''MB'', ''GB'', ''TB'']"

function unit_loop :: "nat \<Rightarrow> nat \<Rightarrow> nat \<Rightarrow> nat \<times> nat" where
  "unit_loop n d i =
     (if n \<ge> 1024 * d \<and> i + 1 < length byte_units then unit_loop n (d * 1024) (i + 1) else (d, i))"
  by pat_completeness auto
termination by (relation "measure (\<lambda>(n, d, i). length byte_units - i)") auto

declare unit_loop.simps [simp del]

definition humanBytes :: "u64 \<Rightarrow> string" where
  "humanBytes bytes =
     (let n = double_of_nat (unat bytes) 11; (d, i) = unit_loop n 1 0
      in (if i = 0 then fixed0 n d else fixed1 n d) @ '' '' @ byte_units ! i)"

text \<open>The nearest \<open>double\<close> of a rational that is at least one, as the quotients below are; fixed
  notation of a rational.\<close>

definition nearest_double :: "rat \<Rightarrow> rat" where
  "nearest_double x =
     (case quotient_of x of (a, b) \<Rightarrow>
        (let n = nat a; d = nat b; bits = length (digits_of 2 (n div d))
         in if bits \<le> 53 then of_nat (round_half_even (n * 2 ^ (53 - bits)) d) / 2 ^ (53 - bits)
            else of_nat (round_half_even n (d * 2 ^ (bits - 53))) * 2 ^ (bits - 53)))"

definition show_fixed :: "(nat \<Rightarrow> nat \<Rightarrow> string) \<Rightarrow> rat \<Rightarrow> string" where
  "show_fixed fixed x = (case quotient_of x of (a, b) \<Rightarrow> fixed (nat a) (nat b))"

definition humanRate :: "rat \<Rightarrow> string" where
  "humanRate bitsPerSecond =
     (if bitsPerSecond \<ge> 1000000 then show_fixed fixed1 (nearest_double (bitsPerSecond / 1000000)) @ '' Mbps''
      else if bitsPerSecond \<ge> 1000 then show_fixed fixed1 (nearest_double (bitsPerSecond / 1000)) @ '' Kbps''
      else show_fixed fixed0 bitsPerSecond @ '' bps'')"

text \<open>The configured rates are finite (\<open>boundedRate\<close>), and zero or at least a tenth.\<close>

fun configuredRate :: "double \<Rightarrow> string" where
  "configuredRate NotFinite = ''unlimited''"
| "configuredRate (Finite mbps) =
     (if mbps \<le> 0 then ''unlimited'' else humanRate (nearest_double (mbps * 1000000)))"

text \<open>\<open>starts\<close> is \<open>rfind(prefix, 0) == 0\<close>.\<close>

definition starts :: "string \<Rightarrow> string \<Rightarrow> bool" where
  "starts pre s \<longleftrightarrow> take (length pre) s = pre"

definition url_char_ok :: "char \<Rightarrow> bool" where
  "url_char_ok c \<longleftrightarrow> \<not> (byte c \<le> 32 \<or> byte c = 127 \<or> c = QUOTE \<or> c = CHR ''#'')"

definition normalizedPublicUrl :: "string \<Rightarrow> bool \<times> string" where
  "normalizedPublicUrl configured =
     (let normalized = config_trim configured
      in if \<not> starts ''http://'' normalized \<or> length normalized < 8 then (False, normalized)
         else if \<not> list_all url_char_ok normalized then (False, normalized)
         else (let authorityEnd = find_from CHR ''/'' normalized 7;
                   authority = (case authorityEnd of
                       None \<Rightarrow> drop 7 normalized | Some e \<Rightarrow> substr normalized 7 (e - 7))
               in if authority = [] \<or> hd authority = CHR '':'' \<or> last authority = CHR '':'' then (False, normalized)
                  else (let normalized = (if last normalized \<noteq> CHR ''/'' then normalized @ ''/'' else normalized)
                        in (length normalized \<le> 127, normalized))))"

section \<open>The configuration file\<close>

definition plugin_print :: "'e enginefuncs \<Rightarrow> string \<Rightarrow> 'e \<Rightarrow> 'e" where
  "plugin_print E msg e = pfnServerPrint E (c_str (''[FastDL] '' @ msg @ [LF])) e"

text \<open>\<^verbatim>\<open>std::left << std::setw(width)\<close>.\<close>

definition pad_right :: "nat \<Rightarrow> string \<Rightarrow> string" where
  "pad_right width s = s @ replicate (width - length s) CHR '' ''"

definition column_width :: nat where
  "column_width = foldl (\<lambda>column s. max column (length (fst s))) 0 g_settings + 4"

definition setting_line :: "'e enginefuncs \<Rightarrow> 'e \<Rightarrow> string \<times> string \<times> string \<Rightarrow> string" where
  "setting_line E e s =
     pad_right column_width (fst s) @ [QUOTE] @ pfnCVarGetString E e (fst s) @ [QUOTE, LF]"

definition comment_line :: "'e enginefuncs \<Rightarrow> 'e \<Rightarrow> string \<times> string \<times> string \<Rightarrow> string" where
  "comment_line E e s =
     ''// '' @ pad_right column_width (fst s) @ snd (snd s) @ '' (default '' @ [QUOTE] @
       pfnCVarGetString E e (fst s) @ [QUOTE] @ '')'' @ [LF]"

text \<open>The text \<open>writeDefaultConfig\<close> writes. The string of a registered variable is what
  \<open>pfnCVarGetString\<close> returns for it.\<close>

definition default_text :: "'e enginefuncs \<Rightarrow> 'e \<Rightarrow> string" where
  "default_text E e =
     concat (map (setting_line E e) g_settings) @
     [LF] @ ''// remember to set sv_downloadurl to '' @ [QUOTE] @ ''http://your-ip:port/'' @ [QUOTE, LF] @
     [LF] @ ''// CVARs:'' @ [LF] @
     concat (map (comment_line E e) g_settings)"

text \<open>\<open>opened\<close> and \<open>flushed\<close>: whether the stream could be opened and written.\<close>

definition writeDefaultConfig ::
  "'e enginefuncs \<Rightarrow> path \<Rightarrow> bool \<Rightarrow> bool \<Rightarrow> string \<Rightarrow> 'e \<Rightarrow> bool \<times> string \<times> string option" where
  "writeDefaultConfig E p opened flushed error e =
     (if \<not> opened then (False, ''could not create '' @ u8string p, None)
      else if \<not> flushed then (False, ''could not write '' @ u8string p, None)
      else (True, error, Some (default_text E e)))"

text \<open>The lines \<open>std::getline\<close> reads.\<close>

definition text_lines :: "string \<Rightarrow> string list" where
  "text_lines s =
     (let parts = segments LF s in if last parts = [] then butlast parts else parts)"

definition invalid_message :: "u32 \<Rightarrow> string" where
  "invalid_message lineNumber =
     ''config: skipping invalid assignment on line '' @ to_string (unat lineNumber)"

definition unknown_message :: "string \<Rightarrow> u32 \<Rightarrow> string" where
  "unknown_message name lineNumber =
     ''config: skipping unknown setting '' @ [CHR 0x27] @ name @ [CHR 0x27] @ '' on line '' @
       to_string (unat lineNumber)"

definition load_line ::
  "'e enginefuncs \<Rightarrow> string \<Rightarrow> u32 \<times> u32 \<times> u32 \<times> 'e \<Rightarrow> u32 \<times> u32 \<times> u32 \<times> 'e" where
  "load_line E line st =
     (case st of (lineNumber, loaded, skipped, e) \<Rightarrow>
        (let lineNumber = lineNumber + 1
         in case parseAssignment line [] [] of
              (False, name, v) \<Rightarrow>
                if config_trim (stripComment line) \<noteq> []
                then (lineNumber, loaded, skipped + 1,
                      plugin_print E (invalid_message lineNumber) e)
                else (lineNumber, loaded, skipped, e)
            | (True, name, v) \<Rightarrow>
                if name \<notin> set (map fst g_settings)
                then (lineNumber, loaded, skipped + 1,
                      plugin_print E (unknown_message name lineNumber) e)
                else (lineNumber, loaded + 1, skipped, pfnCVarSetString E (c_str name) (c_str v) e)))"

text \<open>\<open>content\<close> is what the stream yields, \<open>None\<close> when it does not open; \<open>bad\<close> tells that reading
  stopped with an error.\<close>

definition loadConfigFile ::
  "'e enginefuncs \<Rightarrow> path \<Rightarrow> string option \<Rightarrow> bool \<Rightarrow> u32 \<Rightarrow> u32 \<Rightarrow> string \<Rightarrow> 'e \<Rightarrow>
     bool \<times> u32 \<times> u32 \<times> string \<times> 'e" where
  "loadConfigFile E p content bad loaded skipped error e =
     (case content of
        None \<Rightarrow> (False, loaded, skipped, ''could not open '' @ u8string p, e)
      | Some txt \<Rightarrow>
          (case foldl (\<lambda>st line. load_line E line st) (0, 0, 0, e) (text_lines txt) of
             (lineNumber, loaded, skipped, e) \<Rightarrow>
               if bad then (False, loaded, skipped, ''failed while reading '' @ u8string p, e)
               else (True, loaded, skipped, error, e)))"

section \<open>Lemmas\<close>

lemma clamp_bounds: "lo \<le> hi \<Longrightarrow> lo \<le> clamp v lo hi \<and> clamp v lo hi \<le> hi"
  by (simp add: clamp_def)

lemma floor_clamp:
  assumes "a \<le> b"
  shows "int a \<le> \<lfloor>clamp v (of_nat a) (of_nat b)\<rfloor> \<and> \<lfloor>clamp v (of_nat a) (of_nat b)\<rfloor> \<le> int b"
proof -
  have "(of_nat a :: rat) \<le> of_nat b" using assms by (simp only: of_nat_le_iff)
  from clamp_bounds [OF this, of v] have c: "of_nat a \<le> clamp v (of_nat a) (of_nat b)"
    "clamp v (of_nat a) (of_nat b) \<le> of_nat b" by auto
  then show ?thesis by (simp add: le_floor_iff floor_le_iff)
qed

lemma unat_of_int_u32: "0 \<le> z \<Longrightarrow> z < 4294967296 \<Longrightarrow> int (unat (of_int z :: u32)) = z"
  by (simp add: uint_word_of_int)

lemma boundedUnsigned_range:
  assumes "unat lo \<le> unat hi"
  shows "case pfnCVarGetFloat E e name of
      NotFinite \<Rightarrow> boundedUnsigned E e name lo hi fallback = fallback
    | Finite v \<Rightarrow> unat lo \<le> unat (boundedUnsigned E e name lo hi fallback) \<and>
        unat (boundedUnsigned E e name lo hi fallback) \<le> unat hi"
proof (cases "pfnCVarGetFloat E e name")
  case (Finite v)
  let ?z = "\<lfloor>clamp v (of_nat (unat lo)) (of_nat (unat hi))\<rfloor>"
  have z: "int (unat lo) \<le> ?z" "?z \<le> int (unat hi)" using floor_clamp [OF assms, of v] by blast+
  have "int (unat hi) < 4294967296" using unat_size_t_less [of hi] by linarith
  with z have u: "int (unat (of_int ?z :: u32)) = ?z" by (intro unat_of_int_u32) linarith+
  with z have "int (unat lo) \<le> int (unat (of_int ?z :: u32))" "int (unat (of_int ?z :: u32)) \<le> int (unat hi)"
    by (simp_all only: u)
  then have "unat lo \<le> unat (of_int ?z :: u32)" "unat (of_int ?z :: u32) \<le> unat hi"
    by (simp_all only: of_nat_le_iff)
  with Finite show ?thesis by (simp add: boundedUnsigned_def)
qed (simp add: boundedUnsigned_def)

lemma boundedUnsigned_between:
  assumes "unat lo \<le> unat hi" "unat lo \<le> unat fallback" "unat fallback \<le> unat hi"
  shows "unat lo \<le> unat (boundedUnsigned E e name lo hi fallback) \<and>
    unat (boundedUnsigned E e name lo hi fallback) \<le> unat hi"
  using boundedUnsigned_range [OF assms(1), of E e name fallback] assms
  by (cases "pfnCVarGetFloat E e name") auto

lemma gamePort_range: "1 \<le> unat (gamePort E e) \<and> unat (gamePort E e) \<le> 65535"
proof -
  have "1 \<le> unat (of_int \<lfloor>v\<rfloor> :: u32) \<and> unat (of_int \<lfloor>v\<rfloor> :: u32) \<le> 65535" if "1 \<le> v" "v \<le> 65535" for v :: rat
  proof -
    have z: "1 \<le> \<lfloor>v\<rfloor>" "\<lfloor>v\<rfloor> \<le> 65535" using that by (simp_all add: le_floor_iff floor_le_iff)
    then have "int (unat (of_int \<lfloor>v\<rfloor> :: u32)) = \<lfloor>v\<rfloor>" by (intro unat_of_int_u32) linarith+
    with z have "int 1 \<le> int (unat (of_int \<lfloor>v\<rfloor> :: u32))" "int (unat (of_int \<lfloor>v\<rfloor> :: u32)) \<le> int 65535" by linarith+
    then show ?thesis by (simp only: of_nat_le_iff)
  qed
  then show ?thesis
    by (auto simp: gamePort_def Let_def split: double.split option.split if_splits)
qed

lemma boundedRate_range: "\<exists>r. boundedRate E e name = Finite r \<and> (r = 0 \<or> tenth \<le> r \<and> r \<le> 10000)"
  by (auto simp: boundedRate_def clamp_def tenth_def split: double.split)

lemma ucast_mult_mega:
  assumes "unat (n :: u32) \<le> 4096"
  shows "unat (ucast n * 1024 * 1024 :: u64) = unat n * 1048576"
proof -
  have "(ucast n :: u64) = of_nat (unat n)" by (rule word_unat_eq_iff [THEN iffD2]) (use assms in \<open>simp add: unat_widen\<close>)
  then have "(ucast n * 1024 * 1024 :: u64) = of_nat (unat n) * of_nat 1048576" by (simp add: mult.assoc)
  also have "\<dots> = of_nat (unat n * 1048576)" by (simp only: of_nat_mult)
  finally have "unat (ucast n * 1024 * 1024 :: u64) = unat (of_nat (unat n * 1048576) :: u64)" by (simp only:)
  also have "\<dots> = unat n * 1048576" by (rule unat_of_fits) (use assms in simp)
  finally show ?thesis .
qed

section \<open>Properties\<close>

text \<open>The type of a configuration the server can be started with.\<close>

definition in_range :: "nat \<Rightarrow> nat \<Rightarrow> u32 \<Rightarrow> bool" where
  "in_range lo hi w \<longleftrightarrow> lo \<le> unat w \<and> unat w \<le> hi"

fun rate_ok :: "double \<Rightarrow> bool" where
  "rate_ok NotFinite = False"
| "rate_ok (Finite r) = (r = 0 \<or> tenth \<le> r \<and> r \<le> 10000)"

definition well_formed_config :: "FastdlConfig \<Rightarrow> bool" where
  "well_formed_config cfg \<longleftrightarrow>
     cf_port cfg \<noteq> 0 \<and> in_range 1 4 (cf_threads cfg) \<and> in_range 8 128 (cf_maxConnections cfg) \<and>
     in_range 1 128 (cf_maxConnectionsPerIp cfg) \<and> in_range 5 300 (cf_connectionTimeoutSeconds cfg) \<and>
     in_range 1 10000 (cf_requestsPerMinute cfg) \<and> in_range 1 1000 (cf_denialsPerMinute cfg) \<and>
     in_range 1 86400 (cf_blockSeconds cfg) \<and> in_range 0 3650 (cf_logAgeDays cfg) \<and>
     1048576 \<le> unat (cf_maxFileBytes cfg) \<and> unat (cf_maxFileBytes cfg) \<le> 2147483648 \<and>
     16777216 \<le> unat (cf_gzipCacheMaxBytes cfg) \<and> unat (cf_gzipCacheMaxBytes cfg) \<le> 1073741824 \<and>
     rate_ok (cf_bandwidthMaxMbps cfg) \<and> rate_ok (cf_bandwidthIpMbps cfg)"

lemma number_within:
  "unat lo \<le> unat hi \<Longrightarrow> unat lo \<le> unat fallback \<Longrightarrow> unat fallback \<le> unat hi \<Longrightarrow>
   in_range (unat lo) (unat hi) (boundedUnsigned E e name lo hi fallback)"
  unfolding in_range_def by (rule boundedUnsigned_between)

lemma rate_ok_bounded: "rate_ok (boundedRate E e name)"
  using boundedRate_range [of E e name] by auto

lemma mega_within:
  assumes "in_range lo hi n" "hi \<le> 4096"
  shows "lo * 1048576 \<le> unat (ucast n * 1024 * 1024 :: u64) \<and> unat (ucast n * 1024 * 1024 :: u64) \<le> hi * 1048576"
  using assms ucast_mult_mega [of n] by (simp add: in_range_def)

lemma connections_within:
  fixes E e
  defines "m \<equiv> boundedUnsigned E e ''fastdl_max_connections'' 8 128 64"
    and "k \<equiv> boundedUnsigned E e ''fastdl_max_connections_ip'' 1 (boundedUnsigned E e ''fastdl_max_connections'' 8 128 64) 32"
  shows "in_range 1 128 k \<and> (case pfnCVarGetFloat E e ''fastdl_max_connections_ip'' of
       Finite v \<Rightarrow> unat k \<le> unat m | NotFinite \<Rightarrow> k = 32)"
proof -
  have m: "in_range 8 128 m" using number_within [of 8 128 64 E e "''fastdl_max_connections''"] by (simp add: m_def)
  then have "unat (1 :: u32) \<le> unat m" by (simp add: in_range_def)
  from boundedUnsigned_range [OF this, of E e "''fastdl_max_connections_ip''" 32] m
  show ?thesis
    by (cases "pfnCVarGetFloat E e ''fastdl_max_connections_ip''") (auto simp: in_range_def k_def m_def)
qed

lemma config_facts:
  "well_formed_config (readConfig E e base) \<and>
   (case pfnCVarGetFloat E e ''fastdl_max_connections_ip'' of
      Finite v \<Rightarrow> unat (cf_maxConnectionsPerIp (readConfig E e base)) \<le> unat (cf_maxConnections (readConfig E e base))
    | NotFinite \<Rightarrow> cf_maxConnectionsPerIp (readConfig E e base) = 32)"
proof -
  let ?c = "readConfig E e base"
  note n = number_within [where E = E and e = e]
  have f: "cf_maxConnections ?c = boundedUnsigned E e ''fastdl_max_connections'' 8 128 64"
    "cf_maxConnectionsPerIp ?c =
       boundedUnsigned E e ''fastdl_max_connections_ip'' 1 (boundedUnsigned E e ''fastdl_max_connections'' 8 128 64) 32"
    by (simp_all add: readConfig_def Let_def)
  have conn: "in_range 1 128 (cf_maxConnectionsPerIp ?c)" "case pfnCVarGetFloat E e ''fastdl_max_connections_ip'' of
       Finite v \<Rightarrow> unat (cf_maxConnectionsPerIp ?c) \<le> unat (cf_maxConnections ?c) | NotFinite \<Rightarrow> cf_maxConnectionsPerIp ?c = 32"
    unfolding f using connections_within [of E e] by blast+
  have port: "cf_port ?c \<noteq> 0"
  proof -
    define k where "k = (if boundedUnsigned E e ''fastdl_port'' 0 65535 0 = 0 then gamePort E e
        else boundedUnsigned E e ''fastdl_port'' 0 65535 0)"
    have "in_range 0 65535 (boundedUnsigned E e ''fastdl_port'' 0 65535 0)"
      using n [of 0 65535 0 "''fastdl_port''"] by simp
    then have k: "unat k \<noteq> 0" "unat k < 65536" using gamePort_range [of E e]
      by (auto simp: k_def in_range_def unat_eq_0)
    then have "unat (ucast k :: u16) = unat k" by (simp add: unsigned_ucast_eq take_bit_nat_eq_self_iff)
    with k have "(ucast k :: u16) \<noteq> 0" by auto
    then show ?thesis by (simp add: readConfig_def k_def Let_def)
  qed
  have files: "1048576 \<le> unat (cf_maxFileBytes ?c) \<and> unat (cf_maxFileBytes ?c) \<le> 2147483648"
    using mega_within [of 1 2048 "boundedUnsigned E e ''fastdl_max_file_mb'' 1 2048 250"]
      n [of 1 2048 250 "''fastdl_max_file_mb''"]
    by (simp add: readConfig_def Let_def)
  have cache: "16777216 \<le> unat (cf_gzipCacheMaxBytes ?c) \<and> unat (cf_gzipCacheMaxBytes ?c) \<le> 1073741824"
    using mega_within [of 16 1024 "boundedUnsigned E e ''fastdl_gzip_cache_max_mb'' 16 1024 256"]
      n [of 16 1024 256 "''fastdl_gzip_cache_max_mb''"]
    by (simp add: readConfig_def Let_def)
  have "in_range 1 4 (cf_threads ?c)" "in_range 8 128 (cf_maxConnections ?c)" "in_range 5 300 (cf_connectionTimeoutSeconds ?c)"
    "in_range 1 10000 (cf_requestsPerMinute ?c)" "in_range 1 1000 (cf_denialsPerMinute ?c)"
    "in_range 1 86400 (cf_blockSeconds ?c)" "in_range 0 3650 (cf_logAgeDays ?c)"
    using n [of 1 4 1 "''fastdl_threads''"] n [of 8 128 64 "''fastdl_max_connections''"]
      n [of 5 300 30 "''fastdl_connection_timeout''"] n [of 1 10000 500 "''fastdl_requests_minute''"]
      n [of 1 1000 36 "''fastdl_denials_minute''"] n [of 1 86400 180 "''fastdl_block_seconds''"]
      n [of 0 3650 7 "''fastdl_log_age''"]
    by (simp_all add: readConfig_def Let_def)
  moreover have "rate_ok (cf_bandwidthMaxMbps ?c)" "rate_ok (cf_bandwidthIpMbps ?c)"
    by (simp_all add: readConfig_def Let_def rate_ok_bounded)
  ultimately show ?thesis using conn port files cache unfolding well_formed_config_def by simp
qed

lemma config_well_formed: "well_formed_config (readConfig E e base)"
  by (rule config_facts [THEN conjunct1])

text \<open>C33. Whatever the console variables hold, the configuration read from them is well formed: a
  port that is not zero, every limit within its documented range (so no product of megabytes
  wraps and the server's divisions and windows are meaningful), rates that are zero or between
  0.1 and 10000. The limit per address is at most the total one unless its variable is not a
  finite number: then it is the default 32, whatever the total.\<close>

theorem readConfig_well_formed:
  "well_formed_config (readConfig E e base) \<and>
   (case pfnCVarGetFloat E e ''fastdl_max_connections_ip'' of
      Finite v \<Rightarrow> unat (cf_maxConnectionsPerIp (readConfig E e base)) \<le> unat (cf_maxConnections (readConfig E e base))
    | NotFinite \<Rightarrow> cf_maxConnectionsPerIp (readConfig E e base) = 32)"
  by (rule config_facts)

end
