(* ===== verification/Config_File.thy ===== *)
theory Config_File
  imports Plugin_Config
begin

text \<open>
  The plugin's texts and its configuration file (\<^verbatim>\<open>meta_plugin.cpp\<close>): the file
  \<open>writeDefaultConfig\<close> writes is read back by \<open>loadConfigFile\<close>, loading touches no variable that is
  not a setting, the public URL has its normal form, and byte counts are printed in the right
  unit.
\<close>

section \<open>Lines\<close>

lemma segments_line: "c \<notin> set l \<Longrightarrow> segments c (l @ c # rest) = l # segments c rest"
  by (induction l) auto

lemma segments_lines:
  "\<forall>l \<in> set ls. c \<notin> set l \<Longrightarrow> segments c (concat (map (\<lambda>l. l @ [c]) ls)) = ls @ [[]]"
  by (induction ls) (simp_all add: segments_line)

lemma text_lines_concat:
  "\<forall>l \<in> set ls. LF \<notin> set l \<Longrightarrow> text_lines (concat (map (\<lambda>l. l @ [LF]) ls)) = ls"
  by (simp add: text_lines_def segments_lines)

lemma parse_setting_line:
  assumes "plain_name n" "QUOTE \<notin> set v" "LF \<notin> set v"
  shows "parseAssignment (n @ replicate (Suc k) CHR '' '' @ QUOTE # v @ [QUOTE]) n0 v0 = (v \<noteq> [], n, v)"
    and "config_trim (stripComment (n @ replicate (Suc k) CHR '' '' @ QUOTE # v @ [QUOTE])) \<noteq> []"
proof -
  let ?gap = "replicate (Suc k) CHR '' ''"
  have "QUOTE \<notin> set (n @ ?gap)" "SLASH \<notin> set (n @ ?gap)" using assms(1) by (auto simp: plain_name_def)
  from strip_quoted_line(2) [OF this assms(2), of "[]"]
  have "stripComment (n @ ?gap @ QUOTE # v @ [QUOTE]) = n @ ?gap @ QUOTE # v @ [QUOTE]" by simp
  with trim_line [of "[]" "[]" n "?gap @ QUOTE # v @ [QUOTE]"] assms(1)
  have line: "config_trim (stripComment (n @ ?gap @ QUOTE # v @ [QUOTE])) = n @ ?gap @ QUOTE # v @ [QUOTE]"
    by simp
  then show "config_trim (stripComment (n @ ?gap @ QUOTE # v @ [QUOTE])) \<noteq> []"
    using assms(1) by (simp add: plain_name_def)
  from parse_stripped_quoted [OF line assms(1) _ _ assms(2,3)]
  show "parseAssignment (n @ ?gap @ QUOTE # v @ [QUOTE]) n0 v0 = (v \<noteq> [], n, v)"
    by (simp add: gap_char_def)
qed

lemma parse_comment_line:
  "parseAssignment (SLASH # SLASH # cs) n v = (False, n, v)" "config_trim (stripComment (SLASH # SLASH # cs)) = []"
  "parseAssignment [] n v = (False, n, v)" "config_trim (stripComment []) = []"
  by (simp_all add: parseAssignment_def stripComment_def)

section \<open>Loading the default file\<close>

definition plain_setting :: "string \<times> string \<times> string \<Rightarrow> bool" where
  "plain_setting s \<longleftrightarrow> plain_name (fst s) \<and> list_all (\<lambda>c. c \<noteq> CHR 0x00 \<and> c \<noteq> LF) (fst s) \<and>
     length (fst s) < column_width \<and> LF \<notin> set (snd (snd s))"

lemma plain_settings: "list_all plain_setting g_settings"
  unfolding plain_setting_def plain_name_def by code_simp

lemma c_str_id: "CHR 0x00 \<notin> set s \<Longrightarrow> c_str s = s"
  unfolding c_str_def takeWhile_eq_all_conv by metis

lemma setting_name:
  assumes "n \<in> set (map fst g_settings)"
  shows "c_str n = n" "plain_name n" "LF \<notin> set n" "\<exists>k. column_width - length n = Suc k"
proof -
  from assms obtain s where "s \<in> set g_settings" "n = fst s" by auto
  with plain_settings have s: "plain_setting s" by (simp add: list_all_iff)
  with \<open>n = fst s\<close> show "c_str n = n" "plain_name n" "LF \<notin> set n"
    by (auto simp: plain_setting_def list_all_iff intro!: c_str_id)
  from s have "column_width - length n > 0" unfolding plain_setting_def \<open>n = fst s\<close> by linarith
  then show "\<exists>k. column_width - length n = Suc k" using gr0_conv_Suc by blast
qed

text \<open>Reading an engine after the operations of loading.\<close>

lemma engine_print:
  assumes "engine_laws E"
  shows "pfnCVarGetString E (plugin_print E t e) m = pfnCVarGetString E e m"
    "cvar_known E (plugin_print E t e) m = cvar_known E e m"
  using assms by (simp_all add: engine_laws_def plugin_print_def)

lemma engine_set:
  assumes "engine_laws E"
  shows "pfnCVarGetString E (pfnCVarSetString E n v e) m =
      (if m = n \<and> cvar_known E e n then c_str v else pfnCVarGetString E e m)"
    "cvar_known E (pfnCVarSetString E n v e) m = cvar_known E e m"
  using assms by (simp_all add: engine_laws_def)

definition line_of :: "'e enginefuncs \<Rightarrow> 'e \<Rightarrow> string \<Rightarrow> string" where
  "line_of E e n = pad_right column_width n @ [QUOTE] @ pfnCVarGetString E e n @ [QUOTE]"

lemma load_setting:
  assumes laws: "engine_laws E" and n: "n \<in> set (map fst g_settings)"
    and v: "QUOTE \<notin> set (pfnCVarGetString E e0 n)" "LF \<notin> set (pfnCVarGetString E e0 n)"
    and load: "load_line E (line_of E e0 n) (k, l, s, e) = (k', l', s', e')"
  shows "l' = l + (if pfnCVarGetString E e0 n = [] then 0 else 1)"
    "s' = s + (if pfnCVarGetString E e0 n = [] then 1 else 0)"
    "cvar_known E e' m = cvar_known E e m"
    "pfnCVarGetString E e' m = (if m = n \<and> pfnCVarGetString E e0 n \<noteq> [] \<and> cvar_known E e n
       then pfnCVarGetString E e0 n else pfnCVarGetString E e m)"
proof -
  let ?v = "pfnCVarGetString E e0 n"
  obtain j where "column_width - length n = Suc j" using setting_name(4) [OF n] by blast
  then have line: "line_of E e0 n = n @ replicate (Suc j) CHR '' '' @ QUOTE # ?v @ [QUOTE]"
    by (simp add: line_of_def pad_right_def)
  note p = parse_setting_line [OF setting_name(2) [OF n] v, of j, folded line]
  have "c_str ?v = ?v" using laws by (intro c_str_id) (simp add: engine_laws_def)
  then have "load_line E (line_of E e0 n) (k, l, s, e) =
      (if ?v = [] then (k + 1, l, s + 1, plugin_print E (invalid_message (k + 1)) e)
       else (k + 1, l + 1, s, pfnCVarSetString E n ?v e))"
    using p n setting_name(1) [OF n] by (simp add: load_line_def Let_def)
  with load \<open>c_str ?v = ?v\<close> show "l' = l + (if ?v = [] then 0 else 1)" "s' = s + (if ?v = [] then 1 else 0)"
    "cvar_known E e' m = cvar_known E e m"
    "pfnCVarGetString E e' m = (if m = n \<and> ?v \<noteq> [] \<and> cvar_known E e n then ?v else pfnCVarGetString E e m)"
    by (auto simp: engine_print [OF laws] engine_set [OF laws] split: if_splits)
qed

lemma load_settings:
  assumes laws: "engine_laws E" and ns: "set ns \<subseteq> set (map fst g_settings)"
    and v: "\<forall>n \<in> set ns. QUOTE \<notin> set (pfnCVarGetString E e0 n) \<and> LF \<notin> set (pfnCVarGetString E e0 n)"
    and known: "\<forall>n \<in> set ns. cvar_known E e n"
    and load: "foldl (\<lambda>st line. load_line E line st) (k, l, s, e) (map (line_of E e0) ns) = (k', l', s', e')"
  shows "l' = l + of_nat (length (filter (\<lambda>n. pfnCVarGetString E e0 n \<noteq> []) ns)) \<and>
    s' = s + of_nat (length (filter (\<lambda>n. pfnCVarGetString E e0 n = []) ns)) \<and>
    (\<forall>m. pfnCVarGetString E e' m =
      (if m \<in> set ns \<and> pfnCVarGetString E e0 m \<noteq> [] then pfnCVarGetString E e0 m else pfnCVarGetString E e m))"
  using ns v known load
proof (induction ns arbitrary: k l s e)
  case (Cons n ns)
  obtain k1 l1 s1 e1 where one: "load_line E (line_of E e0 n) (k, l, s, e) = (k1, l1, s1, e1)"
    by (metis prod_cases4)
  have n: "n \<in> set (map fst g_settings)" "QUOTE \<notin> set (pfnCVarGetString E e0 n)" "LF \<notin> set (pfnCVarGetString E e0 n)"
    using Cons.prems(1,2) by auto
  note l1 = load_setting [OF laws n one]
  have rest: "foldl (\<lambda>st line. load_line E line st) (k1, l1, s1, e1) (map (line_of E e0) ns) = (k', l', s', e')"
    using Cons.prems(4) one by simp
  have "\<forall>m \<in> set ns. cvar_known E e1 m" using Cons.prems(3) l1(3) by simp
  from Cons.IH [OF _ _ this rest] Cons.prems(1,2)
  have ih: "l' = l1 + of_nat (length (filter (\<lambda>n. pfnCVarGetString E e0 n \<noteq> []) ns))"
    "s' = s1 + of_nat (length (filter (\<lambda>n. pfnCVarGetString E e0 n = []) ns))"
    "\<And>m. pfnCVarGetString E e' m =
      (if m \<in> set ns \<and> pfnCVarGetString E e0 m \<noteq> [] then pfnCVarGetString E e0 m else pfnCVarGetString E e1 m)"
    by simp_all
  have "cvar_known E e n" using Cons.prems(3) by simp
  then have "pfnCVarGetString E e' m = (if m \<in> set (n # ns) \<and> pfnCVarGetString E e0 m \<noteq> []
      then pfnCVarGetString E e0 m else pfnCVarGetString E e m)" for m
    unfolding ih(3) l1(4) by (cases "m = n") simp_all
  then show ?case unfolding ih(1,2) l1(1,2) by simp
qed simp

text \<open>The lines that set nothing.\<close>

definition silent :: "string \<Rightarrow> bool" where
  "silent line \<longleftrightarrow> line = [] \<or> (\<exists>cs. line = SLASH # SLASH # cs)"

lemma load_silent:
  "\<forall>line \<in> set ls. silent line \<Longrightarrow>
   \<exists>k'. foldl (\<lambda>st line. load_line E line st) (k, l, s, e) ls = (k', l, s, e)"
proof (induction ls arbitrary: k)
  case (Cons line ls)
  have "silent line" using Cons.prems by simp
  then have "parseAssignment line [] [] = (False, [], []) \<and> config_trim (stripComment line) = []"
    unfolding silent_def by (elim disjE exE) (simp_all only: parse_comment_line simp_thms)
  then have "load_line E line (k, l, s, e) = (k + 1, l, s, e)" by (simp add: load_line_def Let_def)
  with Cons show ?case by simp
qed simp

definition trailer :: "'e enginefuncs \<Rightarrow> 'e \<Rightarrow> string list" where
  "trailer E e =
     [[], ''// remember to set sv_downloadurl to '' @ [QUOTE] @ ''http://your-ip:port/'' @ [QUOTE], [], ''// CVARs:''] @
     map (\<lambda>s. butlast (comment_line E e s)) g_settings"

lemma comment_line_eq: "comment_line E e s = butlast (comment_line E e s) @ [LF]"
  by (simp add: comment_line_def butlast_append)

lemma setting_line_eq: "setting_line E e s = line_of E e (fst s) @ [LF]"
  by (simp add: setting_line_def line_of_def)

lemma default_text_lines:
  "default_text E e = concat (map (\<lambda>l. l @ [LF]) (map (line_of E e) (map fst g_settings) @ trailer E e))"
proof -
  have "concat (map (comment_line E e) ss) = concat (map (\<lambda>l. l @ [LF]) (map (\<lambda>s. butlast (comment_line E e s)) ss))" for ss
    by (induction ss) (simp, metis (no_types, lifting) comment_line_eq concat.simps(2) list.simps(9))
  moreover have "concat (map (setting_line E e) ss) = concat (map (\<lambda>l. l @ [LF]) (map (line_of E e) (map fst ss)))" for ss
    by (induction ss) (simp_all add: setting_line_eq)
  ultimately show ?thesis by (simp add: default_text_def trailer_def)
qed

lemma comment_line_body:
  "butlast (comment_line E e s) = SLASH # SLASH # CHR '' '' # pad_right column_width (fst s) @ snd (snd s) @
     '' (default '' @ QUOTE # pfnCVarGetString E e (fst s) @ QUOTE # '')''"
  by (simp add: comment_line_def butlast_append)

lemma trailer_lines:
  assumes "\<forall>n \<in> set (map fst g_settings). LF \<notin> set (pfnCVarGetString E e n)" "line \<in> set (trailer E e)"
  shows "silent line \<and> LF \<notin> set line"
proof (cases "line \<in> set (map (\<lambda>s. butlast (comment_line E e s)) g_settings)")
  case True
  then obtain s where s: "s \<in> set g_settings" "line = butlast (comment_line E e s)" by auto
  have "LF \<notin> set (snd (snd s))" using plain_settings s(1) by (simp add: list_all_iff plain_setting_def)
  moreover have "LF \<notin> set (fst s)" using s(1) setting_name(3) [of "fst s"] by simp
  moreover have "LF \<notin> set (pfnCVarGetString E e (fst s))" using assms(1) s(1) by auto
  ultimately show ?thesis by (simp add: s(2) comment_line_body silent_def pad_right_def)
next
  case False
  with assms(2) show ?thesis by (auto simp: trailer_def silent_def)
qed

lemma line_of_no_newline:
  assumes "n \<in> set (map fst g_settings)" "LF \<notin> set (pfnCVarGetString E e n)"
  shows "LF \<notin> set (line_of E e n)"
  using assms(2) setting_name(3) [OF assms(1)] by (simp add: line_of_def pad_right_def)

section \<open>What loading leaves alone\<close>

lemma load_line_frame:
  assumes laws: "engine_laws E" and load: "load_line E line (k, l, s, e) = (k', l', s', e')"
  shows "m \<notin> set (map fst g_settings) \<Longrightarrow> pfnCVarGetString E e' m = pfnCVarGetString E e m"
    and "cvar_known E e' m = cvar_known E e m"
proof -
  obtain ok n v where p: "parseAssignment line [] [] = (ok, n, v)" by (metis prod_cases3)
  have "e' = e \<or> (\<exists>t. e' = plugin_print E t e) \<or> (n \<in> set (map fst g_settings) \<and> e' = pfnCVarSetString E n (c_str v) e)"
    using load setting_name(1) [of n] by (cases ok) (auto simp: load_line_def p Let_def split: if_splits)
  note e' = this
  show "pfnCVarGetString E e' m = pfnCVarGetString E e m" if "m \<notin> set (map fst g_settings)"
    using e' that by (elim disjE exE conjE) (simp_all add: engine_print [OF laws] engine_set [OF laws] del: set_map, metis)
  show "cvar_known E e' m = cvar_known E e m"
    using e' by (elim disjE exE conjE) (simp_all add: engine_print [OF laws] engine_set [OF laws])
qed

lemma load_lines_frame:
  assumes laws: "engine_laws E" and load: "foldl (\<lambda>st line. load_line E line st) (k, l, s, e) ls = (k', l', s', e')"
  shows "(m \<notin> set (map fst g_settings) \<longrightarrow> pfnCVarGetString E e' m = pfnCVarGetString E e m) \<and>
    cvar_known E e' m = cvar_known E e m"
  using load
proof (induction ls arbitrary: k l s e)
  case (Cons line ls)
  obtain k1 l1 s1 e1 where one: "load_line E line (k, l, s, e) = (k1, l1, s1, e1)" by (metis prod_cases4)
  with Cons.prems have "foldl (\<lambda>st line. load_line E line st) (k1, l1, s1, e1) ls = (k', l', s', e')" by simp
  from Cons.IH [OF this] load_line_frame [OF laws one] show ?case by simp
qed simp

lemma loadConfigFile_frame:
  assumes laws: "engine_laws E" and load: "loadConfigFile E p content bad l s error e = (ok, l', s', error', e')"
  shows "(m \<notin> set (map fst g_settings) \<longrightarrow> pfnCVarGetString E e' m = pfnCVarGetString E e m) \<and>
    cvar_known E e' m = cvar_known E e m"
proof (cases "content")
  case (Some body)
  obtain k1 l1 s1 e1 where "foldl (\<lambda>st line. load_line E line st) (0, 0, 0, e) (text_lines body) = (k1, l1, s1, e1)"
    by (metis prod_cases4)
  from load_lines_frame [OF laws this] this load Some show ?thesis
    by (simp add: loadConfigFile_def split: if_splits)
next
  case None
  with load show ?thesis by (simp add: loadConfigFile_def)
qed

section \<open>The public URL\<close>

text \<open>The part of the URL between the scheme and the next slash.\<close>

definition authority_of :: "string \<Rightarrow> string" where
  "authority_of u = takeWhile (\<lambda>c. c \<noteq> CHR ''/'') (drop 7 u)"

lemma authority_eq:
  "(case find_from CHR ''/'' u 7 of None \<Rightarrow> drop 7 u | Some e \<Rightarrow> substr u 7 (e - 7)) = authority_of u"
proof (cases "find_from CHR ''/'' u 7")
  case None
  let ?t = "takeWhile (\<lambda>c. c \<noteq> CHR ''/'') (drop 7 u)"
  from None have "length (drop 7 u) \<le> length ?t" by (auto simp: find_from_def Let_def split: if_splits)
  then have "takeWhile (\<lambda>c. c \<noteq> CHR ''/'') (drop 7 u) = drop 7 u" by (metis length_takeWhile_le order_antisym takeWhile_eq_take take_all)
  with None show ?thesis by (simp only: authority_of_def option.case)
next
  case (Some e)
  then have "e = 7 + length (authority_of u)"
    by (auto simp: find_from_def authority_of_def Let_def split: if_splits)
  moreover have "take (length (authority_of u)) (drop 7 u) = authority_of u"
    unfolding authority_of_def by (rule takeWhile_eq_take [symmetric])
  ultimately show ?thesis using Some by (simp add: substr_def)
qed

lemma normalizedPublicUrl_eq:
  "normalizedPublicUrl c =
     (let u = config_trim c; v = (if last u \<noteq> CHR ''/'' then u @ ''/'' else u)
      in if starts ''http://'' u \<and> length u \<ge> 8 \<and> list_all url_char_ok u \<and> authority_of u \<noteq> [] \<and>
            hd (authority_of u) \<noteq> CHR '':'' \<and> last (authority_of u) \<noteq> CHR '':''
         then (length v \<le> 127, v) else (False, u))"
  unfolding normalizedPublicUrl_def Let_def authority_eq by auto

text \<open>A checked URL without its possible final slash, and the same with it.\<close>

definition url_ok :: "string \<Rightarrow> bool" where
  "url_ok u \<longleftrightarrow> starts ''http://'' u \<and> length u \<ge> 8 \<and> list_all url_char_ok u \<and> authority_of u \<noteq> [] \<and>
     hd (authority_of u) \<noteq> CHR '':'' \<and> last (authority_of u) \<noteq> CHR '':''"

lemma starts_append: "starts pre s \<Longrightarrow> starts pre (s @ t)"
proof -
  assume "starts pre s"
  then have "s = pre @ drop (length pre) s" unfolding starts_def using append_take_drop_id [of "length pre" s] by simp
  then obtain r where "s = pre @ r" by blast
  then show ?thesis by (simp add: starts_def)
qed

lemma authority_slash:
  assumes "length u \<ge> 7"
  shows "authority_of (u @ ''/'') = authority_of u"
proof -
  have "takeWhile P (xs @ [c]) = takeWhile P xs" if "\<not> P c" for P :: "char \<Rightarrow> bool" and xs c
    using that by (induction xs) simp_all
  from this [of "\<lambda>c. c \<noteq> CHR ''/''" "CHR ''/''" "drop 7 u"] assms show ?thesis by (simp add: authority_of_def)
qed

lemma url_ok_slash: "url_ok u \<Longrightarrow> url_ok (u @ ''/'')"
proof -
  assume u: "url_ok u"
  then have a: "authority_of (u @ ''/'') = authority_of u" by (intro authority_slash) (simp add: url_ok_def)
  note u = u [unfolded url_ok_def]
  have "starts ''http://'' (u @ ''/'')" using u by (intro starts_append) blast
  moreover have "list_all url_char_ok (u @ ''/'')" using u by (simp add: url_char_ok_def)
  moreover have "8 \<le> length (u @ ''/'')" using u by simp
  ultimately show ?thesis using u unfolding url_ok_def a by blast
qed

lemma url_chars_not_blank: "url_char_ok c \<Longrightarrow> \<not> blank c"
  by (auto simp: url_char_ok_def blank_def)

lemma trim_url: "url_ok u \<Longrightarrow> config_trim u = u"
proof -
  assume u: "url_ok u"
  then have ne: "u \<noteq> []" and ok: "\<forall>c \<in> set u. \<not> blank c"
    using url_chars_not_blank by (auto simp: url_ok_def list_all_iff)
  from config_trim_pad [of "[]" "[]" u] ne ok show ?thesis by simp
qed

section \<open>Properties\<close>

definition storable :: "string \<Rightarrow> bool" where
  "storable v \<longleftrightarrow> QUOTE \<notin> set v \<and> LF \<notin> set v"

text \<open>C34. The generated configuration file is read back. Written from an engine whose settings hold
  no quote and no newline, and loaded into an engine where the settings are registered, it sets
  every setting that is not empty to the written value and changes no other variable. The empty
  ones are not restored: each is counted, and reported, as an invalid assignment.\<close>

theorem default_config_roundtrip:
  assumes "engine_laws E"
    and "\<forall>n \<in> set (map fst g_settings). storable (pfnCVarGetString E e0 n)"
    and "\<forall>n \<in> set (map fst g_settings). cvar_known E e n"
  shows "\<exists>e'. loadConfigFile E p (Some (default_text E e0)) False l s error e =
      (True, of_nat (length (filter (\<lambda>(n, d, h). pfnCVarGetString E e0 n \<noteq> []) g_settings)),
       of_nat (length (filter (\<lambda>(n, d, h). pfnCVarGetString E e0 n = []) g_settings)), error, e') \<and>
    (\<forall>m. pfnCVarGetString E e' m =
       (if m \<in> set (map fst g_settings) \<and> pfnCVarGetString E e0 m \<noteq> [] then pfnCVarGetString E e0 m
        else pfnCVarGetString E e m))"
proof -
  let ?ns = "map fst g_settings" and ?step = "\<lambda>st line. load_line E line st"
  have v: "\<forall>n \<in> set ?ns. QUOTE \<notin> set (pfnCVarGetString E e0 n) \<and> LF \<notin> set (pfnCVarGetString E e0 n)"
    using assms(2) unfolding storable_def .
  have tr: "\<forall>line \<in> set (trailer E e0). silent line \<and> LF \<notin> set line"
    using trailer_lines [of E e0] v by blast
  have "\<forall>line \<in> set (map (line_of E e0) ?ns @ trailer E e0). LF \<notin> set line"
    using line_of_no_newline [of _ E e0] v tr by auto
  then have lines: "text_lines (default_text E e0) = map (line_of E e0) ?ns @ trailer E e0"
    unfolding default_text_lines by (rule text_lines_concat)
  obtain k1 l1 s1 e1 where one: "foldl ?step (0, 0, 0, e) (map (line_of E e0) ?ns) = (k1, l1, s1, e1)"
    by (metis prod_cases4)
  note r = load_settings [OF assms(1) subset_refl v assms(3) one]
  obtain k2 where "foldl ?step (k1, l1, s1, e1) (trailer E e0) = (k2, l1, s1, e1)"
    using load_silent [of "trailer E e0" E k1 l1 s1 e1] tr by blast
  with one lines have load: "loadConfigFile E p (Some (default_text E e0)) False l s error e = (True, l1, s1, error, e1)"
    by (simp add: loadConfigFile_def)
  have count: "length (filter (\<lambda>n. P (pfnCVarGetString E e0 n)) (map fst ss)) =
      length (filter (\<lambda>(n, d, h). P (pfnCVarGetString E e0 n)) ss)" for P and ss :: "(string \<times> string \<times> string) list"
    by (induction ss) auto
  have c: "l1 = of_nat (length (filter (\<lambda>(n, d, h). pfnCVarGetString E e0 n \<noteq> []) g_settings))"
    "s1 = of_nat (length (filter (\<lambda>(n, d, h). pfnCVarGetString E e0 n = []) g_settings))"
    using r count [of "\<lambda>v. v \<noteq> []" g_settings] count [of "\<lambda>v. v = []" g_settings] by auto
  show ?thesis using load [unfolded c] r by blast
qed

text \<open>An engine with a table of variables, whose \<open>float\<close> is the decimal value of the string.\<close>

definition table_engine :: "((string \<times> string) list \<times> string) enginefuncs" where
  "table_engine = \<lparr>
     pfnCVarGetFloat = (\<lambda>(cvars, out) n. case map_of cvars n of
         Some v \<Rightarrow> Finite (of_nat (dec_value 0 (c_str v))) | None \<Rightarrow> Finite 0),
     pfnCVarGetString = (\<lambda>(cvars, out) n. case map_of cvars n of Some v \<Rightarrow> c_str v | None \<Rightarrow> []),
     pfnCVarSetString = (\<lambda>n v (cvars, out). (if n \<in> fst ` set cvars then AList.update n v cvars else cvars, out)),
     pfnCVarRegister = (\<lambda>n d (cvars, out). (if n \<in> fst ` set cvars then cvars else AList.update n d cvars, out)),
     pfnAddServerCommand = (\<lambda>c e. e),
     pfnServerPrint = (\<lambda>t (cvars, out). (cvars, out @ t)),
     cvar_known = (\<lambda>(cvars, out) n. n \<in> fst ` set cvars)\<rparr>"

lemma c_str_no_nul: "CHR 0x00 \<notin> set (c_str s)"
  by (auto simp: c_str_def dest: set_takeWhileD)

lemma table_engine_laws: "engine_laws table_engine"
proof -
  have names: "fst ` set (AList.update n v xs) = insert n (fst ` set xs)" for n v and xs :: "(string \<times> string) list"
    using dom_update [of n v xs] by simp
  show ?thesis
    unfolding engine_laws_def
    by (auto simp: table_engine_def update_conv names c_str_no_nul map_of_eq_None_iff split: option.split dest: map_of_SomeD)
qed

definition default_variables :: "(string \<times> string) list" where
  "default_variables = map (\<lambda>(n, d, h). (n, d)) g_settings"

text \<open>The default values: 25 settings come back, the empty \<^verbatim>\<open>fastdl_public_url\<close> does not.\<close>

theorem default_config_roundtrip_witness:
  "\<exists>e'. loadConfigFile table_engine [''c''] (Some (default_text table_engine (default_variables, []))) False 0 0 []
      (map (\<lambda>(n, v). (n, ''1'')) default_variables, []) = (True, 25, 1, [], e') \<and>
    pfnCVarGetString table_engine e' ''fastdl_root'' = ''cstrike'' \<and>
    pfnCVarGetString table_engine e' ''fastdl_public_url'' = ''1''"
proof -
  let ?src = "(default_variables, []) :: (string \<times> string) list \<times> string"
  let ?dst = "(map (\<lambda>(n, v). (n, ''1'')) default_variables, []) :: (string \<times> string) list \<times> string"
  have s: "list_all (\<lambda>n. storable (pfnCVarGetString table_engine ?src n)) (map fst g_settings)"
    and k: "list_all (\<lambda>n. cvar_known table_engine ?dst n) (map fst g_settings)" by code_simp+
  have c: "length (filter (\<lambda>(n, d, h). pfnCVarGetString table_engine ?src n \<noteq> []) g_settings) = 25"
    "length (filter (\<lambda>(n, d, h). pfnCVarGetString table_engine ?src n = []) g_settings) = 1"
    "pfnCVarGetString table_engine ?src ''fastdl_root'' = ''cstrike''" "pfnCVarGetString table_engine ?src ''fastdl_public_url'' = []"
    "pfnCVarGetString table_engine ?dst ''fastdl_public_url'' = ''1''"
    "''fastdl_root'' \<in> set (map fst g_settings)" by code_simp+
  from default_config_roundtrip [OF table_engine_laws, of ?src ?dst "[''c'']" 0 0 "[]"] s k
  obtain e' where "loadConfigFile table_engine [''c''] (Some (default_text table_engine ?src)) False 0 0 [] ?dst =
      (True, 25, 1, [], e')" and m: "\<And>m. pfnCVarGetString table_engine e' m =
       (if m \<in> set (map fst g_settings) \<and> pfnCVarGetString table_engine ?src m \<noteq> [] then pfnCVarGetString table_engine ?src m
        else pfnCVarGetString table_engine ?dst m)"
    unfolding list_all_iff c by auto
  then show ?thesis using m [of "''fastdl_root''"] m [of "''fastdl_public_url''"] c by auto
qed

lemma url_normal:
  assumes "normalizedPublicUrl configured = (True, u)"
  shows "url_ok u" "last u = CHR ''/''" "length u \<le> 127" "list_all url_char_ok u" "normalizedPublicUrl u = (True, u)"
proof -
  let ?t = "config_trim configured"
  have ok: "url_ok ?t" and u: "u = (if last ?t \<noteq> CHR ''/'' then ?t @ ''/'' else ?t)" and len: "length u \<le> 127"
    using assms unfolding normalizedPublicUrl_eq Let_def url_ok_def by (auto split: if_splits)
  show "url_ok u" using ok url_ok_slash by (simp add: u)
  moreover show "last u = CHR ''/''" by (simp add: u)
  moreover show "length u \<le> 127" by (rule len)
  ultimately show "list_all url_char_ok u" "normalizedPublicUrl u = (True, u)"
    using trim_url [of u] by (simp_all add: normalizedPublicUrl_eq url_ok_def)
qed

text \<open>What a public URL has to be, byte by byte: the scheme, a non-empty authority that neither begins
  nor ends with a colon, and a path that is empty or begins with a slash, all above the space and
  without delete, the double quote (34) and the number sign (35).\<close>

definition http_url :: "string \<Rightarrow> string \<Rightarrow> string \<Rightarrow> bool" where
  "http_url url authority path \<longleftrightarrow> url = ''http://'' @ authority @ path \<and>
     authority \<noteq> [] \<and> CHR ''/'' \<notin> set authority \<and> hd authority \<noteq> CHR '':'' \<and> last authority \<noteq> CHR '':'' \<and>
     (path = [] \<or> hd path = CHR ''/'') \<and>
     (\<forall>c \<in> set url. 32 < byte c \<and> byte c \<noteq> 127 \<and> byte c \<noteq> 34 \<and> byte c \<noteq> 35)"

lemma url_char_bytes: "url_char_ok c \<longleftrightarrow> 32 < byte c \<and> byte c \<noteq> 127 \<and> byte c \<noteq> 34 \<and> byte c \<noteq> 35"
proof -
  have "byte c = byte QUOTE \<longleftrightarrow> c = QUOTE" "byte c = byte CHR ''#'' \<longleftrightarrow> c = CHR ''#''" by (rule of_char_eq_iff)+
  then have "c = QUOTE \<longleftrightarrow> byte c = 34" "c = CHR ''#'' \<longleftrightarrow> byte c = 35" by simp_all
  then show ?thesis by (auto simp: url_char_ok_def)
qed

lemma url_ok_parts: "url_ok t \<longleftrightarrow> (\<exists>authority path. http_url t authority path)"
proof
  assume t: "url_ok t"
  let ?a = "authority_of t" and ?p = "dropWhile (\<lambda>c. c \<noteq> CHR ''/'') (drop 7 t)"
  have "t = ''http://'' @ drop 7 t"
  proof -
    have "take 7 t = ''http://''" using t by (simp add: url_ok_def starts_def eval_nat_numeral)
    then show ?thesis by (metis append_take_drop_id)
  qed
  also have "drop 7 t = ?a @ ?p" by (simp add: authority_of_def)
  finally have "t = ''http://'' @ ?a @ ?p" .
  moreover have "CHR ''/'' \<notin> set ?a" by (auto simp: authority_of_def dest: set_takeWhileD)
  moreover have "?p = [] \<or> hd ?p = CHR ''/''" using hd_dropWhile [of "\<lambda>c. c \<noteq> CHR ''/''" "drop 7 t"] by auto
  moreover have "\<forall>c \<in> set t. 32 < byte c \<and> byte c \<noteq> 127 \<and> byte c \<noteq> 34 \<and> byte c \<noteq> 35"
    using t by (simp add: url_ok_def list_all_iff url_char_bytes)
  ultimately have "http_url t ?a ?p" using t unfolding http_url_def url_ok_def by blast
  then show "\<exists>authority path. http_url t authority path" by blast
next
  assume "\<exists>authority path. http_url t authority path"
  then obtain a p where h: "http_url t a p" by blast
  then have t: "t = ''http://'' @ a @ p" and a: "a \<noteq> []" "CHR ''/'' \<notin> set a" and p: "p = [] \<or> hd p = CHR ''/''"
    unfolding http_url_def by blast+
  have "takeWhile (\<lambda>c. c \<noteq> CHR ''/'') (a @ p) = a"
  proof -
    have "takeWhile (\<lambda>c. c \<noteq> CHR ''/'') a = a" using a(2) by (auto simp: takeWhile_eq_all_conv)
    moreover have "takeWhile (\<lambda>c. c \<noteq> CHR ''/'') p = []" using p by (cases p) auto
    moreover have "takeWhile (\<lambda>c. c \<noteq> CHR ''/'') (a @ p) = a @ takeWhile (\<lambda>c. c \<noteq> CHR ''/'') p"
      using a(2) by (intro takeWhile_append2) auto
    ultimately show ?thesis by simp
  qed
  then have "authority_of t = a" by (simp add: authority_of_def t)
  moreover have "starts ''http://'' t" "8 \<le> length t" using a(1) by (simp_all add: starts_def t Suc_le_eq)
  moreover have "list_all url_char_ok t" using h by (simp add: http_url_def list_all_iff url_char_bytes)
  ultimately show "url_ok t" using h unfolding url_ok_def http_url_def by blast
qed

lemma config_trim_split: "\<exists>before behind. s = before @ config_trim s @ behind \<and> (\<forall>c \<in> set (before @ behind). blank c)"
proof -
  let ?r = "dropWhile blank s"
  have "s = takeWhile blank s @ ?r" by simp
  moreover have "?r = config_trim s @ rev (takeWhile blank (rev ?r))"
    unfolding config_trim_alt by (metis rev_append rev_rev_ident takeWhile_dropWhile_id)
  moreover have "\<forall>c \<in> set (takeWhile blank s @ rev (takeWhile blank (rev ?r))). blank c"
    by (auto dest: set_takeWhileD)
  ultimately show ?thesis by metis
qed

lemma accepted_iff:
  "normalizedPublicUrl c = (True, u) \<longleftrightarrow>
     url_ok (config_trim c) \<and> u = (if last (config_trim c) = CHR ''/'' then config_trim c else config_trim c @ ''/'') \<and>
     length u \<le> 127"
  unfolding normalizedPublicUrl_eq Let_def url_ok_def by auto

text \<open>What is accepted, with the blanks around it spelt out.\<close>

definition public_url_of :: "string \<Rightarrow> string \<Rightarrow> bool" where
  "public_url_of configured u \<longleftrightarrow>
     (\<exists>before url behind authority path. configured = before @ url @ behind \<and>
        (\<forall>c \<in> set (before @ behind). blank c) \<and> http_url url authority path \<and>
        u = (if last url = CHR ''/'' then url else url @ ''/'') \<and> length u \<le> 127)"

lemma accepted_public: "normalizedPublicUrl configured = (True, u) \<longleftrightarrow> public_url_of configured u"
proof
  let ?t = "config_trim configured"
  assume a: "normalizedPublicUrl configured = (True, u)"
  obtain before behind where c: "configured = before @ ?t @ behind" "\<forall>c \<in> set (before @ behind). blank c"
    using config_trim_split [of configured] by blast
  obtain authority path where "http_url ?t authority path" using a accepted_iff url_ok_parts by blast
  moreover have "u = (if last ?t = CHR ''/'' then ?t else ?t @ ''/'')" "length u \<le> 127"
    using a unfolding accepted_iff by blast+
  ultimately show "public_url_of configured u" using c unfolding public_url_of_def by blast
next
  assume "public_url_of configured u"
  then obtain before url behind authority path where c: "configured = before @ url @ behind"
    "\<forall>c \<in> set (before @ behind). blank c" and h: "http_url url authority path"
    and u: "u = (if last url = CHR ''/'' then url else url @ ''/'')" "length u \<le> 127"
    unfolding public_url_of_def by blast
  have ok: "url_ok url" using h url_ok_parts by blast
  then have "url \<noteq> []" "\<forall>c \<in> set url. \<not> blank c"
    using url_chars_not_blank by (auto simp: url_ok_def list_all_iff)
  then have "config_trim configured = url" unfolding c(1) using c(2) by (intro config_trim_pad) auto
  then show "normalizedPublicUrl configured = (True, u)" using ok u by (simp only: accepted_iff simp_thms)
qed

text \<open>C35. The URL put into \<^verbatim>\<open>sv_downloadurl\<close>. A configured value is accepted exactly when it is, up
  to blanks around it, a public URL of the stated form which is at most 127 bytes long with its
  final slash; and the result is that URL with a final slash. An accepted URL is in normal
  form (normalising it again accepts it unchanged), and written between double quotes behind a
  setting's name it is read back unchanged: nothing in it ends the quotes.\<close>

theorem public_url_normal:
  "(normalizedPublicUrl configured = (True, u) \<longleftrightarrow>
     (\<exists>before url behind authority path. configured = before @ url @ behind \<and>
        (\<forall>c \<in> set (before @ behind). blank c) \<and> http_url url authority path \<and>
        u = (if last url = CHR ''/'' then url else url @ ''/'') \<and> length u \<le> 127)) \<and>
   (normalizedPublicUrl configured = (True, u) \<and> plain_name name \<longrightarrow>
     normalizedPublicUrl u = (True, u) \<and>
     parseAssignment (name @ '' '' @ QUOTE # u @ [QUOTE]) n0 v0 = (True, name, u))"
proof (intro conjI impI)
  show "normalizedPublicUrl configured = (True, u) \<longleftrightarrow>
     (\<exists>before url behind authority path. configured = before @ url @ behind \<and>
        (\<forall>c \<in> set (before @ behind). blank c) \<and> http_url url authority path \<and>
        u = (if last url = CHR ''/'' then url else url @ ''/'') \<and> length u \<le> 127)"
    unfolding accepted_public public_url_of_def ..
next
  assume "normalizedPublicUrl configured = (True, u) \<and> plain_name name"
  then have n: "plain_name name" and a: "normalizedPublicUrl configured = (True, u)" by blast+
  note u = url_normal [OF a]
  show "normalizedPublicUrl u = (True, u)" by (rule u(5))
  have "\<not> url_char_ok QUOTE" "\<not> url_char_ok LF" by (simp_all add: url_char_ok_def)
  then have "QUOTE \<notin> set u" "LF \<notin> set u" using u(4) unfolding list_all_iff by blast+
  moreover have "u \<noteq> []" using u(1) by (auto simp: url_ok_def)
  ultimately show "parseAssignment (name @ '' '' @ QUOTE # u @ [QUOTE]) n0 v0 = (True, name, u)"
    using quoted_assignment_roundtrip [of name u "'' ''" "[]" "[]" "[]" n0 v0] n by (simp add: gap_char_def)
qed

theorem public_url_normal_witness:
  "normalizedPublicUrl ''  http://host:8080 '' = (True, ''http://host:8080/'') \<and>
   parseAssignment (''fastdl_public_url'' @ '' '' @ QUOTE # ''http://host:8080/'' @ [QUOTE]) [] [] =
     (True, ''fastdl_public_url'', ''http://host:8080/'')"
proof -
  have "normalizedPublicUrl ''  http://host:8080 '' = (True, ''http://host:8080/'')" by code_simp
  moreover have "plain_name ''fastdl_public_url''" by (simp add: plain_name_def is_space_def)
  ultimately show ?thesis
    using public_url_normal [of "''  http://host:8080 ''" "''http://host:8080/''" "''fastdl_public_url''" "[]" "[]"] by blast
qed

text \<open>The rounds of the unit loop from unit \<open>i\<close> on.\<close>

lemma unit_loop_eq:
  assumes "i \<le> 4"
  shows "unit_loop n (1024 ^ i) i =
    (let j = i + length (takeWhile (\<lambda>k. 1024 ^ k \<le> n) [i + 1..<5]) in (1024 ^ j, j))"
  using assms
proof (induction "4 - i" arbitrary: i)
  case 0
  then have "i = 4" by simp
  then show ?case by (simp add: unit_loop.simps byte_units_def)
next
  case (Suc k)
  then have i: "i < 4" by simp
  have cons: "[i + 1..<5] = (i + 1) # [i + 2..<5]" using i by (simp add: upt_rec)
  show ?case
  proof (cases "1024 ^ (i + 1) \<le> n")
    case True
    then have "unit_loop n (1024 ^ i) i = unit_loop n (1024 ^ (i + 1)) (i + 1)"
      using i by (subst unit_loop.simps) (simp add: byte_units_def mult.commute)
    with Suc(1) [of "i + 1"] Suc(2) i True cons show ?thesis by (simp add: Let_def numeral_2_eq_2)
  next
    case False
    then have "unit_loop n (1024 ^ i) i = (1024 ^ i, i)"
      using i by (subst unit_loop.simps) (simp add: byte_units_def)
    with False cons show ?thesis by simp
  qed
qed

text \<open>Printing a byte count ends, within the table of units: the loop stops at the largest power
  of 1024 that does not exceed the count, at most the fourth, and the value is printed in that
  unit, as a whole number of bytes or rounded to a tenth.\<close>

theorem humanBytes_unit:
  "humanBytes bytes =
     (let n = double_of_nat (unat bytes) 11;
          i = length (takeWhile (\<lambda>k. 1024 ^ k \<le> n) [1, 2, 3, 4])
      in (if i = 0 then fixed0 n 1 else fixed1 n (1024 ^ i)) @ '' '' @ byte_units ! i) \<and>
   length (takeWhile (\<lambda>k. 1024 ^ k \<le> double_of_nat (unat bytes) 11) [1, 2, 3, 4 :: nat]) < length byte_units"
proof -
  let ?n = "double_of_nat (unat bytes) 11"
  have l: "[0 + 1..<5] = [1, 2, 3, 4 :: nat]" by (simp add: upt_rec)
  have "length (takeWhile P [1, 2, 3, 4 :: nat]) \<le> 4" for P
    using length_takeWhile_le [of P "[1, 2, 3, 4 :: nat]"] by simp
  moreover have "unit_loop ?n 1 0 = (let j = length (takeWhile (\<lambda>k. 1024 ^ k \<le> ?n) [1, 2, 3, 4]) in (1024 ^ j, j))"
    using unit_loop_eq [of 0 ?n] unfolding l by simp
  moreover define j where "j = length (takeWhile (\<lambda>k. 1024 ^ k \<le> ?n) [1, 2, 3, 4 :: nat])"
  ultimately have "unit_loop ?n 1 0 = (1024 ^ j, j)" "j < length byte_units"
    by (simp_all add: byte_units_def Let_def less_Suc_eq_le)
  moreover from this have "humanBytes bytes = (if j = 0 then fixed0 ?n 1 else fixed1 ?n (1024 ^ j)) @ '' '' @ byte_units ! j"
    by (cases "j = 0") (simp_all add: humanBytes_def Let_def)
  ultimately show ?thesis unfolding Let_def j_def by blast
qed

end
