(* ===== verification/Meta_Plugin.thy ===== *)
theory Meta_Plugin
  imports Config_File
begin

text \<open>
  The Metamod plugin (\<^verbatim>\<open>src/src/meta_plugin.cpp\<close>, the second half): locating the base directory,
  registration, the deferred start, the console commands and the entry points, as one state
  machine over the engine, the server and the plugin's global variables. \<open>plugin_env\<close> holds what
  an operation meets outside: paths, the file system, the configuration file, the clock. Text
  is printed with single separators in paths. An exception (out of memory, say) is not modelled.
\<close>

section \<open>State\<close>

record plugin_env =
  pv_lifecycle :: lifecycle_env
  pv_gameDir :: string
  pv_pluginPath :: "string option"
  pv_cwd :: "path option"
  pv_fs :: file_system
  pv_exists :: "errno + bool"
  pv_created :: bool
  pv_flushed :: bool
  pv_content :: "string option"
  pv_bad :: bool
  pv_today :: local_tm

record 'e plugin =
  g_engine :: 'e
  g_system :: system
  g_registered :: bool
  g_startPending :: bool
  g_baseDir :: path
  g_downloadUrlManaged :: bool
  g_previousDownloadUrl :: string
  g_metaUtil :: bool
  g_metaGlobals :: bool

text \<open>The last two fields tell whether \<open>gpMetaUtilFuncs\<close> and \<open>gpMetaGlobals\<close> are set.\<close>

definition pl_init :: "FastdlConfig \<Rightarrow> 'e \<Rightarrow> 'e plugin" where
  "pl_init cfg e =
     \<lparr>g_engine = e, g_system = ls_init cfg, g_registered = False, g_startPending = False, g_baseDir = [],
      g_downloadUrlManaged = False, g_previousDownloadUrl = [], g_metaUtil = False, g_metaGlobals = False\<rparr>"

abbreviation g_server :: "'e plugin \<Rightarrow> FastdlServer" where
  "g_server p \<equiv> sy_server (g_system p)"

definition say :: "'e enginefuncs \<Rightarrow> string \<Rightarrow> 'e plugin \<Rightarrow> 'e plugin" where
  "say E msg p = p\<lparr>g_engine := plugin_print E msg (g_engine p)\<rparr>"

section \<open>The base directory\<close>

definition parent_path :: "path \<Rightarrow> path" where
  "parent_path p = (if p = [''/''] then p else butlast p)"

definition path_filename :: "path \<Rightarrow> string" where
  "path_filename p = (if p = [] \<or> p = [''/''] then [] else last p)"

function base_walk :: "file_system \<Rightarrow> string \<Rightarrow> path \<Rightarrow> path option" where
  "base_walk fs modName dir =
     (if lowerAscii (path_filename dir) = modName then
        Some (case canonical fs (parent_path dir) of Inl e \<Rightarrow> parent_path dir | Inr base \<Rightarrow> base)
      else if dir = parent_path dir then None
      else base_walk fs modName (parent_path dir))"
  by pat_completeness auto
termination
  by (relation "measure (\<lambda>(fs, modName, dir). length dir)") (auto simp: parent_path_def split: if_splits,
    metis butlast.simps(1) diff_less length_greater_0_conv lessI One_nat_def)

declare base_walk.simps [simp del]

definition pluginPath :: "plugin_env \<Rightarrow> 'e plugin \<Rightarrow> string option" where
  "pluginPath env p = (if g_metaUtil p then pv_pluginPath env else None)"

definition absolute_from :: "path option \<Rightarrow> path \<Rightarrow> errno + path" where
  "absolute_from cwd p =
     (case cwd of Some w \<Rightarrow> absolute w p | None \<Rightarrow> if is_absolute p then Inr p else Inl ENOENT)"

definition resolveBaseDir :: "plugin_env \<Rightarrow> 'e plugin \<Rightarrow> path" where
  "resolveBaseDir env p =
     (let modName = lowerAscii (path_filename (path_of (pv_gameDir env)));
          found = (case pluginPath env p of
              None \<Rightarrow> None
            | Some pp \<Rightarrow>
                if modName = [] then None
                else (case absolute_from (pv_cwd env) (path_of pp) of
                    Inl e \<Rightarrow> None | Inr full \<Rightarrow> base_walk (pv_fs env) modName (parent_path full)))
      in case found of
           Some base \<Rightarrow> base
         | None \<Rightarrow>
             (case pv_cwd env of
                None \<Rightarrow> []
              | Some working \<Rightarrow> (case canonical (pv_fs env) working of Inl e \<Rightarrow> working | Inr c \<Rightarrow> c)))"

section \<open>The download URL\<close>

abbreviation downloadurl :: string where
  "downloadurl \<equiv> ''sv_downloadurl''"

definition restoreDownloadUrl :: "'e enginefuncs \<Rightarrow> 'e plugin \<Rightarrow> 'e plugin" where
  "restoreDownloadUrl E p =
     (if \<not> g_downloadUrlManaged p then p
      else p\<lparr>g_engine := pfnCVarSetString E downloadurl (c_str (g_previousDownloadUrl p)) (g_engine p),
             g_previousDownloadUrl := [], g_downloadUrlManaged := False\<rparr>)"

definition bad_url_message :: string where
  "bad_url_message =
     ''automatic sv_downloadurl skipped: fastdl_public_url must be a valid '' @
     ''http:// URL of at most 127 characters''"

definition take_over :: "'e enginefuncs \<Rightarrow> string \<Rightarrow> 'e plugin \<Rightarrow> 'e plugin" where
  "take_over E url p =
     p\<lparr>g_previousDownloadUrl := pfnCVarGetString E (g_engine p) downloadurl,
       g_engine := pfnCVarSetString E downloadurl (c_str url) (g_engine p),
       g_downloadUrlManaged := True\<rparr>"

definition configureDownloadUrl :: "'e enginefuncs \<Rightarrow> FastdlConfig \<Rightarrow> 'e plugin \<Rightarrow> 'e plugin" where
  "configureDownloadUrl E cfg p =
     (if \<not> cf_autoDownloadUrl cfg then p
      else (case normalizedPublicUrl (cf_publicUrl cfg) of
          (False, url) \<Rightarrow>
            say E bad_url_message p
        | (True, url) \<Rightarrow>
            say E (''sv_downloadurl set to '' @ url) (take_over E url p)))"

definition warnIfDownloadUrlSet :: "'e enginefuncs \<Rightarrow> 'e plugin \<Rightarrow> 'e plugin" where
  "warnIfDownloadUrlSet E p =
     (let url = pfnCVarGetString E (g_engine p) downloadurl
      in if url = [] then p
         else say E (''not serving, but sv_downloadurl is set ('' @ url @
           '') - clients will stall on it before falling back'') p)"

section \<open>Starting\<close>

definition logPath :: "local_tm \<Rightarrow> FastdlServer \<Rightarrow> path" where
  "logPath today sv = (if sv_logging sv then dailyPath (sv_logger sv) today else sv_logBase sv)"

definition show_u32 :: "u32 \<Rightarrow> string" where
  "show_u32 w = to_string (unat w)"

definition show_u64 :: "u64 \<Rightarrow> string" where
  "show_u64 w = to_string (unat w)"

definition printLogState :: "'e enginefuncs \<Rightarrow> local_tm \<Rightarrow> 'e plugin \<Rightarrow> 'e plugin" where
  "printLogState E today p =
     (let path = u8string (logPath today (g_server p)); days = cf_logAgeDays (sv_config (g_server p))
      in if \<not> sv_logging (g_server p) then
           say E (''NOT logging: could not open '' @ path @
             '' (check the directory exists and the server account can write it)'') p
         else say E (''log '' @ path @ '', keeping '' @
             (if days = 0 then ''all days'' else show_u32 days @ '' days'')) p)"

definition endpoint :: "FastdlConfig \<Rightarrow> string" where
  "endpoint cfg = cf_bindAddress cfg @ '':'' @ to_string (unat (cf_port cfg))"

definition announce :: "'e enginefuncs \<Rightarrow> local_tm \<Rightarrow> FastdlConfig \<Rightarrow> 'e plugin \<Rightarrow> 'e plugin" where
  "announce E today cfg p =
     (let followsGamePort = (pfnCVarGetFloat E (g_engine p) ''fastdl_port'' = Finite 0);
          p = say E (''listening on '' @ endpoint cfg @ (if followsGamePort then '' (game port)'' else []) @
            '', threads='' @ show_u32 (cf_threads cfg) @ '', root='' @ u8string (pr_root (sv_resolver (g_server p)))) p;
          p = say E (''serving '' @ cf_serveDirs cfg @ ''; root types='' @ cf_serveRootTypes cfg) p;
          p = (if sv_compressionError (g_server p) \<noteq> []
               then say E (''gzip disabled: '' @ sv_compressionError (g_server p)) p else p)
      in printLogState E today (configureDownloadUrl E cfg p))"

definition startServer :: "'e enginefuncs \<Rightarrow> plugin_env \<Rightarrow> 'e plugin \<Rightarrow> 'e plugin" where
  "startServer E env p =
     (let p = restoreDownloadUrl E p; cfg = readConfig E (g_engine p) (g_baseDir p)
      in if \<not> cf_enabled cfg then
           warnIfDownloadUrlSet E (say E ''disabled'' (p\<lparr>g_system := sy_stop (pv_lifecycle env) (g_system p)\<rparr>))
         else (case sv_start (pv_lifecycle env) cfg [] (g_system p) of
             (False, error, s) \<Rightarrow> warnIfDownloadUrlSet E (say E (''start failed: '' @ error) (p\<lparr>g_system := s\<rparr>))
           | (True, error, s) \<Rightarrow> announce E (pv_today env) cfg (p\<lparr>g_system := s\<rparr>)))"

section \<open>Commands\<close>

definition commandRestart :: "'e enginefuncs \<Rightarrow> plugin_env \<Rightarrow> 'e plugin \<Rightarrow> 'e plugin" where
  "commandRestart E env p = startServer E env (say E ''restarting'' p)"

definition on_off :: "bool \<Rightarrow> string" where
  "on_off b = (if b then ''on'' else ''off'')"

definition status_lines :: "FastdlServer \<Rightarrow> string list" where
  "status_lines sv =
     (let cfg = sv_config sv; cs = cc_stats (sv_compression sv)
      in [''running on '' @ endpoint cfg @ '', root='' @ u8string (pr_root (sv_resolver sv)),
          ''dirs='' @ cf_serveDirs cfg,
          ''types='' @ cf_serveTypes cfg,
          ''root-types='' @ cf_serveRootTypes cfg,
          ''threads='' @ show_u32 (cf_threads cfg) @ '', connections='' @ show_u32 (cf_maxConnections cfg) @
            '', conn/ip='' @ show_u32 (cf_maxConnectionsPerIp cfg) @
            '', timeout='' @ show_u32 (cf_connectionTimeoutSeconds cfg) @ ''s'' @
            '', req/min='' @ show_u32 (cf_requestsPerMinute cfg) @
            '', denials/min='' @ show_u32 (cf_denialsPerMinute cfg) @
            '', block='' @ show_u32 (cf_blockSeconds cfg) @ ''s'',
          ''bandwidth global='' @ configuredRate (cf_bandwidthMaxMbps cfg) @
            '', per-IP='' @ configuredRate (cf_bandwidthIpMbps cfg) @
            '', Steam-only='' @ on_off (cf_steamOnly cfg) @ '', auto-url='' @ on_off (cf_autoDownloadUrl cfg),
          ''gzip='' @ on_off (cf_gzip cfg) @
            '', cache='' @ (if cst_running cs then ''running'' else if cf_gzipCache cfg then ''stopped'' else ''off'') @
            '', cache-path='' @ u8string (cf_gzipCachePath cfg)] @
         (if sv_compressionError sv \<noteq> [] then [''gzip cache error: '' @ sv_compressionError sv] else []))"

definition say_all :: "'e enginefuncs \<Rightarrow> string list \<Rightarrow> 'e plugin \<Rightarrow> 'e plugin" where
  "say_all E msgs p = foldl (\<lambda>p msg. say E msg p) p msgs"

definition commandStatus :: "'e enginefuncs \<Rightarrow> plugin_env \<Rightarrow> 'e plugin \<Rightarrow> 'e plugin" where
  "commandStatus E env p =
     (if \<not> sv_daemon (g_server p) then say E ''stopped'' p
      else printLogState E (pv_today env) (say_all E (status_lines (g_server p)) p))"

definition stats_lines :: "int \<Rightarrow> FastdlServer \<Rightarrow> string list" where
  "stats_lines now sv =
     (let st = snapshot now (sv_metrics sv); cs = cc_stats (sv_compression sv)
      in [''requests='' @ show_u64 (ts_requests st) @ '', active='' @ show_u64 (ts_active st) @
            '', completed='' @ show_u64 (ts_completed st),
          ''aborted='' @ show_u64 (ts_aborted st) @ '', timeouts='' @ show_u64 (ts_timedOut st) @
            '', errors='' @ show_u64 (ts_failed st),
          ''transferred='' @ humanBytes (ts_transferredBytes st) @
            '', recent throughput='' @ humanRate (ts_throughputBitsPerSecond st),
          ''gzip cache entries='' @ show_u64 (cst_entries cs) @ '' ('' @ humanBytes (cst_bytes cs) @
            ''), queued='' @ show_u64 (cst_queued cs) @ '', hits='' @ show_u64 (cst_hits cs) @
            '', misses='' @ show_u64 (cst_misses cs) @ '', errors='' @ show_u64 (cst_failures cs)])"

definition commandStats :: "'e enginefuncs \<Rightarrow> int \<Rightarrow> 'e plugin \<Rightarrow> 'e plugin" where
  "commandStats E now p = say_all E (stats_lines now (g_server p)) p"

definition with_server :: "(FastdlServer \<Rightarrow> FastdlServer) \<Rightarrow> 'e plugin \<Rightarrow> 'e plugin" where
  "with_server f p = p\<lparr>g_system := (g_system p)\<lparr>sy_server := f (g_server p)\<rparr>\<rparr>"

definition commandCacheBuild :: "'e enginefuncs \<Rightarrow> 'e plugin \<Rightarrow> 'e plugin" where
  "commandCacheBuild E p =
     (if \<not> cst_running (cc_stats (sv_compression (g_server p))) then
        say E ''gzip cache is not running; enable fastdl_gzip and fastdl_gzip_cache'' p
      else say E ''gzip cache build queued on the background worker''
        (with_server (\<lambda>sv. sv\<lparr>sv_compression := requestBuild (sv_compression sv)\<rparr>) p))"

text \<open>\<open>args\<close> are the arguments of the command with its name first.\<close>

definition commandUnblock :: "'e enginefuncs \<Rightarrow> string list \<Rightarrow> 'e plugin \<Rightarrow> 'e plugin" where
  "commandUnblock E args p =
     (if length args \<noteq> 2 then say E ''usage: fastdl_unblock <ip>'' p
      else (let ip = args ! 1
            in case unblock ip (sv_limiter (g_server p)) of
                 (known, limiter) \<Rightarrow>
                   say E (if known then ''unblocked '' @ ip else ''no state for '' @ ip)
                     (with_server (\<lambda>sv. sv\<lparr>sv_limiter := limiter\<rparr>) p)))"

section \<open>Registration\<close>

definition server_commands :: "string list" where
  "server_commands = [''fastdl_restart'', ''fastdl_status'', ''fastdl_stats'', ''fastdl_cache_build'', ''fastdl_unblock'']"

definition register_all :: "'e enginefuncs \<Rightarrow> 'e \<Rightarrow> 'e" where
  "register_all E e =
     foldl (\<lambda>e c. pfnAddServerCommand E c e)
       (foldl (\<lambda>e (n, d, h). pfnCVarRegister E n d e) e g_settings) server_commands"

definition configPath :: "plugin_env \<Rightarrow> 'e plugin \<Rightarrow> path" where
  "configPath env p =
     path_join (parent_path (path_of (case pluginPath env p of
       Some pp \<Rightarrow> pp | None \<Rightarrow> ''addons/fastdl/fastdl_mm.dll''))) [''fastdl_mm.cfg'']"

text \<open>Writing the default file when there is none; the result is the content that is read next.\<close>

definition ensure_config :: "'e enginefuncs \<Rightarrow> plugin_env \<Rightarrow> path \<Rightarrow> 'e plugin \<Rightarrow> string option \<times> 'e plugin" where
  "ensure_config E env path p =
     (if pv_exists env = Inr False then
        (case writeDefaultConfig E path (pv_created env) (pv_flushed env) [] (g_engine p) of
           (True, e, Some body) \<Rightarrow> (Some body, say E ''no config found, wrote defaults'' p)
         | (ok, e, _) \<Rightarrow> (pv_content env, say E (''no config found and '' @ e) p))
      else (pv_content env, p))"

definition registerPlugin :: "'e enginefuncs \<Rightarrow> plugin_env \<Rightarrow> 'e plugin \<Rightarrow> 'e plugin" where
  "registerPlugin E env p =
     (if g_registered p then p
      else (let p = p\<lparr>g_engine := register_all E (g_engine p)\<rparr>;
                p = p\<lparr>g_baseDir := resolveBaseDir env p\<rparr>;
                p = say E (''base directory '' @ u8string (g_baseDir p)) p;
                path = configPath env p;
                p = say E (''loading config '' @ u8string path) p
            in case ensure_config E env path p of
                 (body, p) \<Rightarrow>
                   (case loadConfigFile E path body (pv_bad env) 0 0 [] (g_engine p) of
                      (ok, loaded, skipped, error, e) \<Rightarrow>
                        (let p = p\<lparr>g_engine := e\<rparr>;
                             p = (if \<not> ok then say E (''config error: '' @ error) p
                                  else say E (''config applied: '' @ show_u32 loaded @ '' settings'' @
                                    (if skipped \<noteq> 0 then '', '' @ show_u32 skipped @ '' skipped'' else []) @
                                    '', port='' @ pfnCVarGetString E (g_engine p) ''fastdl_port'' @
                                    '', root='' @ pfnCVarGetString E (g_engine p) ''fastdl_root'') p)
                         in p\<lparr>g_registered := True, g_startPending := True\<rparr>))))"

definition startFrame :: "'e enginefuncs \<Rightarrow> plugin_env \<Rightarrow> 'e plugin \<Rightarrow> 'e plugin" where
  "startFrame E env p =
     (if g_startPending p then startServer E env (p\<lparr>g_startPending := False\<rparr>) else p)"

section \<open>Entry points\<close>

text \<open>The result of \<open>getEntityApi2\<close>, the version written back, and whether the table was filled.\<close>

definition getEntityApi2 :: "int \<Rightarrow> bool \<Rightarrow> int option \<Rightarrow> bool \<times> int option \<times> bool" where
  "getEntityApi2 INTERFACE_VERSION table version =
     (if \<not> table \<or> version = None then (False, version, False)
      else if version \<noteq> Some INTERFACE_VERSION then (False, Some INTERFACE_VERSION, False)
      else (True, version, True))"

definition Meta_Query :: "bool \<Rightarrow> bool \<Rightarrow> 'e plugin \<Rightarrow> bool \<times> 'e plugin" where
  "Meta_Query info utils p = (if \<not> info \<or> \<not> utils then (False, p) else (True, p\<lparr>g_metaUtil := True\<rparr>))"

definition Meta_Attach :: "bool \<Rightarrow> bool \<Rightarrow> 'e plugin \<Rightarrow> bool \<times> 'e plugin" where
  "Meta_Attach table globals p =
     (if \<not> table \<or> \<not> globals then (False, p) else (True, p\<lparr>g_metaGlobals := True\<rparr>))"

definition Meta_Detach :: "'e enginefuncs \<Rightarrow> plugin_env \<Rightarrow> 'e plugin \<Rightarrow> 'e plugin" where
  "Meta_Detach E env p =
     (let p = restoreDownloadUrl E p in p\<lparr>g_system := sy_stop (pv_lifecycle env) (g_system p)\<rparr>)"

datatype pl_event =
    Query bool bool
  | PlAttach bool bool
  | GameInit plugin_env
  | StartFrame plugin_env
  | Restart plugin_env
  | Status plugin_env
  | Stats int
  | CacheBuild
  | UnblockCommand "string list"
  | Console string string
  | Serving sy_event
  | Detach plugin_env

text \<open>The engine calls the handlers of commands only once they were added; \<open>Console\<close> is anyone
  setting a console variable.\<close>

fun pl_step :: "'e enginefuncs \<Rightarrow> 'e plugin \<Rightarrow> pl_event \<Rightarrow> 'e plugin" where
  "pl_step E p (Query info utils) = snd (Meta_Query info utils p)"
| "pl_step E p (PlAttach table globals) = snd (Meta_Attach table globals p)"
| "pl_step E p (GameInit env) = registerPlugin E env p"
| "pl_step E p (StartFrame env) = startFrame E env p"
| "pl_step E p (Restart env) = (if g_registered p then commandRestart E env p else p)"
| "pl_step E p (Status env) = (if g_registered p then commandStatus E env p else p)"
| "pl_step E p (Stats now) = (if g_registered p then commandStats E now p else p)"
| "pl_step E p CacheBuild = (if g_registered p then commandCacheBuild E p else p)"
| "pl_step E p (UnblockCommand args) = (if g_registered p then commandUnblock E args p else p)"
| "pl_step E p (Console name v) = p\<lparr>g_engine := pfnCVarSetString E name v (g_engine p)\<rparr>"
| "pl_step E p (Serving e) = p\<lparr>g_system := ls_step (g_system p) (Ran e)\<rparr>"
| "pl_step E p (Detach env) = Meta_Detach E env p"

section \<open>What printing leaves alone\<close>

definition same_state :: "'e enginefuncs \<Rightarrow> 'e plugin \<Rightarrow> 'e plugin \<Rightarrow> bool" where
  "same_state E p q \<longleftrightarrow>
     g_system q = g_system p \<and> g_registered q = g_registered p \<and> g_startPending q = g_startPending p \<and>
     g_downloadUrlManaged q = g_downloadUrlManaged p \<and> g_previousDownloadUrl q = g_previousDownloadUrl p \<and>
     (\<forall>m. pfnCVarGetString E (g_engine q) m = pfnCVarGetString E (g_engine p) m) \<and>
     (\<forall>m. cvar_known E (g_engine q) m = cvar_known E (g_engine p) m)"

lemma same_state_refl [simp]: "same_state E p p"
  by (simp add: same_state_def)

lemma same_state_trans [trans]: "same_state E p q \<Longrightarrow> same_state E q r \<Longrightarrow> same_state E p r"
  by (simp add: same_state_def)

lemma say_same: "engine_laws E \<Longrightarrow> same_state E p (say E msg p)"
  by (simp add: same_state_def say_def engine_print)

lemma say_all_same: "engine_laws E \<Longrightarrow> same_state E p (say_all E msgs p)"
  unfolding say_all_def
proof (induction msgs arbitrary: p)
  case (Cons msg msgs)
  then show ?case using same_state_trans [OF say_same [OF Cons.prems, of p msg]] by simp
qed simp

lemma printLogState_same: "engine_laws E \<Longrightarrow> same_state E p (printLogState E today p)"
  by (simp add: printLogState_def Let_def say_same)

lemma warn_same: "engine_laws E \<Longrightarrow> same_state E p (warnIfDownloadUrlSet E p)"
  by (simp add: warnIfDownloadUrlSet_def Let_def say_same)

section \<open>The invariant\<close>

definition normal_url :: "string \<Rightarrow> bool" where
  "normal_url url \<longleftrightarrow> normalizedPublicUrl url = (True, url)"

definition url_state :: "'e enginefuncs \<Rightarrow> string \<Rightarrow> 'e plugin \<Rightarrow> bool" where
  "url_state E orig p \<longleftrightarrow> cvar_known E (g_engine p) downloadurl \<and>
     (if g_downloadUrlManaged p
      then g_previousDownloadUrl p = orig \<and> sv_daemon (g_server p) \<and>
        normal_url (pfnCVarGetString E (g_engine p) downloadurl)
      else pfnCVarGetString E (g_engine p) downloadurl = orig)"

definition pl_inv :: "'e enginefuncs \<Rightarrow> string \<Rightarrow> 'e plugin \<Rightarrow> bool" where
  "pl_inv E orig p \<longleftrightarrow> ls_inv (g_system p) \<and> url_state E orig p \<and>
     (sv_daemon (g_server p) \<longrightarrow> g_registered p \<and> well_formed_config (sv_config (g_server p))) \<and>
     (g_startPending p \<longrightarrow> g_registered p)"

lemma pl_inv_same: "same_state E p q \<Longrightarrow> pl_inv E orig p \<Longrightarrow> pl_inv E orig q"
  by (simp add: same_state_def pl_inv_def url_state_def)

lemma restore_state:
  assumes laws: "engine_laws E" and url: "url_state E orig p"
  defines "q \<equiv> restoreDownloadUrl E p"
  shows "g_system q = g_system p" "g_registered q = g_registered p" "g_startPending q = g_startPending p"
    "g_baseDir q = g_baseDir p"
    "\<not> g_downloadUrlManaged q" "cvar_known E (g_engine q) downloadurl"
    "CHR 0x00 \<notin> set orig \<Longrightarrow> pfnCVarGetString E (g_engine q) downloadurl = orig"
proof -
  show "g_system q = g_system p" "g_registered q = g_registered p" "g_startPending q = g_startPending p"
    "g_baseDir q = g_baseDir p" "\<not> g_downloadUrlManaged q"
    by (simp_all add: q_def restoreDownloadUrl_def)
  show "cvar_known E (g_engine q) downloadurl"
    using url by (simp add: q_def restoreDownloadUrl_def engine_set [OF laws] url_state_def)
  show "pfnCVarGetString E (g_engine q) downloadurl = orig" if "CHR 0x00 \<notin> set orig"
  proof (cases "g_downloadUrlManaged p")
    case True
    with url have "g_previousDownloadUrl p = orig" "cvar_known E (g_engine p) downloadurl" by (simp_all add: url_state_def)
    then show ?thesis using True c_str_id [OF that] by (simp add: q_def restoreDownloadUrl_def engine_set [OF laws])
  qed (use url in \<open>simp add: q_def restoreDownloadUrl_def url_state_def\<close>)
qed

lemma url_no_nul: "list_all url_char_ok url \<Longrightarrow> CHR 0x00 \<notin> set url"
proof -
  assume ok: "list_all url_char_ok url"
  have "byte CHR 0x00 \<le> 32" by code_simp
  then have "\<not> url_char_ok CHR 0x00" unfolding url_char_ok_def by blast
  with ok show ?thesis unfolding list_all_iff by blast
qed

lemma configure_state:
  assumes laws: "engine_laws E" and ok: "pl_inv E orig p" and idle: "\<not> g_downloadUrlManaged p"
    and run: "sv_daemon (g_server p)"
  shows "pl_inv E orig (configureDownloadUrl E cfg p)"
proof -
  obtain good url where n: "normalizedPublicUrl (cf_publicUrl cfg) = (good, url)" by (rule prod.exhaust)
  show ?thesis
  proof (cases "cf_autoDownloadUrl cfg \<and> good")
    case True
    with n have u: "normalizedPublicUrl url = (True, url)" "list_all url_char_ok url"
      using url_normal [of "cf_publicUrl cfg" url] by auto
    have c: "c_str url = url" by (rule c_str_id [OF url_no_nul [OF u(2)]])
    have "url_state E orig p" using ok by (simp add: pl_inv_def)
    then have url_now: "pfnCVarGetString E (g_engine p) downloadurl = orig" "cvar_known E (g_engine p) downloadurl"
      using idle by (simp_all add: url_state_def)
    have "url_state E orig (take_over E url p)"
      unfolding url_state_def take_over_def using url_now run u(1) c
      by (simp add: normal_url_def engine_set [OF laws])
    with ok have "pl_inv E orig (take_over E url p)" by (simp add: pl_inv_def take_over_def)
    from pl_inv_same [OF say_same [OF laws] this] True n show ?thesis
      by (simp only: configureDownloadUrl_def prod.case bool.case if_False not_True_eq_False)
  next
    case False
    then have "configureDownloadUrl E cfg p = (if cf_autoDownloadUrl cfg then say E bad_url_message p else p)"
      using n by (cases good) (simp_all add: configureDownloadUrl_def)
    with pl_inv_same [OF say_same [OF laws] ok] ok show ?thesis by simp
  qed
qed

lemma announce_state:
  assumes laws: "engine_laws E" and ok: "pl_inv E orig p" "\<not> g_downloadUrlManaged p" "sv_daemon (g_server p)"
  shows "pl_inv E orig (announce E today cfg p)"
proof -
  note s = say_same [OF laws]
  have keep: "pl_inv E orig (say E msg q) \<and> \<not> g_downloadUrlManaged (say E msg q) \<and> sv_daemon (g_server (say E msg q))"
    if "pl_inv E orig q \<and> \<not> g_downloadUrlManaged q \<and> sv_daemon (g_server q)" for q msg
    using that pl_inv_same [OF s [of q msg]] s [of q msg] by (simp add: same_state_def)
  define p1 where "p1 = say E (''listening on '' @ endpoint cfg @
      (if pfnCVarGetFloat E (g_engine p) ''fastdl_port'' = Finite 0 then '' (game port)'' else []) @
      '', threads='' @ show_u32 (cf_threads cfg) @ '', root='' @ u8string (pr_root (sv_resolver (g_server p)))) p"
  define p2 where "p2 = say E (''serving '' @ cf_serveDirs cfg @ ''; root types='' @ cf_serveRootTypes cfg) p1"
  define p3 where "p3 = (if sv_compressionError (g_server p2) \<noteq> []
      then say E (''gzip disabled: '' @ sv_compressionError (g_server p2)) p2 else p2)"
  have "pl_inv E orig p3 \<and> \<not> g_downloadUrlManaged p3 \<and> sv_daemon (g_server p3)"
    unfolding p3_def p2_def p1_def using keep ok by (simp only: simp_thms split: if_split)
  then have "pl_inv E orig (configureDownloadUrl E cfg p3)" by (intro configure_state [OF laws]) auto
  moreover have "announce E today cfg p = printLogState E today (configureDownloadUrl E cfg p3)"
    unfolding announce_def Let_def p3_def p2_def p1_def ..
  ultimately show ?thesis using pl_inv_same [OF printLogState_same [OF laws]] by simp
qed

section \<open>Every step keeps the invariant\<close>

lemma startServer_inv:
  assumes laws: "engine_laws E" and inv: "pl_inv E orig p" and reg: "g_registered p" and nul: "CHR 0x00 \<notin> set orig"
  shows "pl_inv E orig (startServer E env p)"
proof -
  define q where "q = restoreDownloadUrl E p"
  define cfg where "cfg = readConfig E (g_engine q) (g_baseDir q)"
  have url: "url_state E orig p" and ls: "ls_inv (g_system p)" using inv by (simp_all add: pl_inv_def)
  note r = restore_state [OF laws url, folded q_def]
  have wf: "well_formed_config cfg" unfolding cfg_def by (rule config_well_formed)
  have idle: "pl_inv E orig (q\<lparr>g_system := s\<rparr>) \<and> \<not> g_downloadUrlManaged (q\<lparr>g_system := s\<rparr>)"
    if "ls_inv s" "sv_daemon (sy_server s) \<Longrightarrow> sv_config (sy_server s) = cfg" for s
    using that r nul reg wf by (simp add: pl_inv_def url_state_def)
  show ?thesis
  proof (cases "cf_enabled cfg")
    case False
    have "sys_inv (sy_stop (pv_lifecycle env) (g_system p)) \<and> sy_live (sy_stop (pv_lifecycle env) (g_system p)) = [] \<and>
        quiet (sy_server (sy_stop (pv_lifecycle env) (g_system p)))" by (rule sy_stop_quiet [OF ls])
    then have "pl_inv E orig (q\<lparr>g_system := sy_stop (pv_lifecycle env) (g_system q)\<rparr>)"
      using idle [of "sy_stop (pv_lifecycle env) (g_system p)"] r(1) by (simp add: ls_inv_def quiet_def)
    then have "pl_inv E orig (warnIfDownloadUrlSet E (say E ''disabled'' (q\<lparr>g_system := sy_stop (pv_lifecycle env) (g_system q)\<rparr>)))"
      by (intro pl_inv_same [OF warn_same [OF laws]] pl_inv_same [OF say_same [OF laws]])
    with False show ?thesis unfolding startServer_def Let_def q_def [symmetric] cfg_def [symmetric] by simp
  next
    case True
    obtain ok e s where start: "sv_start (pv_lifecycle env) cfg [] (g_system q) = (ok, e, s)" by (metis prod_cases3)
    have s: "ls_inv s" "sv_daemon (sy_server s) = ok" "sv_daemon (sy_server s) \<Longrightarrow> sv_config (sy_server s) = cfg"
      using sv_start_inv [OF ls start [unfolded r(1)]] sv_start_config [OF ls start [unfolded r(1)]] True by auto
    note q = idle [OF s(1,3)]
    show ?thesis
    proof (cases ok)
      case ok: True
      have "pl_inv E orig (announce E (pv_today env) cfg (q\<lparr>g_system := s\<rparr>))"
        using q s(2) ok by (intro announce_state [OF laws]) auto
      with True ok start show ?thesis
        unfolding startServer_def Let_def q_def [symmetric] cfg_def [symmetric] by simp
    next
      case False
      have "pl_inv E orig (warnIfDownloadUrlSet E (say E (''start failed: '' @ e) (q\<lparr>g_system := s\<rparr>)))"
        using q by (intro pl_inv_same [OF warn_same [OF laws]] pl_inv_same [OF say_same [OF laws]]) auto
      with True False start show ?thesis
        unfolding startServer_def Let_def q_def [symmetric] cfg_def [symmetric] by simp
    qed
  qed
qed

definition same_url :: "'e enginefuncs \<Rightarrow> 'e \<Rightarrow> 'e \<Rightarrow> bool" where
  "same_url E e e' \<longleftrightarrow> pfnCVarGetString E e' downloadurl = pfnCVarGetString E e downloadurl \<and>
     (cvar_known E e downloadurl \<longrightarrow> cvar_known E e' downloadurl)"

lemma url_state_cong:
  "url_state E orig p \<Longrightarrow> same_url E (g_engine p) e \<Longrightarrow>
   url_state E orig (p\<lparr>g_engine := e, g_baseDir := b, g_registered := r, g_startPending := w\<rparr>)"
  by (simp add: url_state_def same_url_def)

lemma downloadurl_no_setting: "downloadurl \<notin> set (map fst g_settings)"
  by code_simp

lemma register_all_url:
  assumes laws: "engine_laws E" and known: "cvar_known E e downloadurl"
  shows "same_url E e (register_all E e)"
proof -
  have reg: "pfnCVarGetString E (foldl (\<lambda>e (n, d, h). pfnCVarRegister E n d e) e ss) downloadurl = pfnCVarGetString E e downloadurl \<and>
      cvar_known E (foldl (\<lambda>e (n, d, h). pfnCVarRegister E n d e) e ss) downloadurl"
    if "cvar_known E e downloadurl" "downloadurl \<notin> set (map fst ss)" for ss :: "(string \<times> string \<times> string) list" and e
    using that
  proof (induction ss arbitrary: e)
    case (Cons x ss)
    obtain n d h where x: "x = (n, d, h)" by (rule prod_cases3)
    have "pfnCVarGetString E (pfnCVarRegister E n d e) downloadurl = pfnCVarGetString E e downloadurl"
      "cvar_known E (pfnCVarRegister E n d e) downloadurl"
      using laws Cons.prems x unfolding engine_laws_def by auto
    with Cons.IH [of "pfnCVarRegister E n d e"] Cons.prems(2) show ?case by (simp add: x)
  qed simp
  have cmd: "pfnCVarGetString E (foldl (\<lambda>e c. pfnAddServerCommand E c e) e cs) m = pfnCVarGetString E e m \<and>
      cvar_known E (foldl (\<lambda>e c. pfnAddServerCommand E c e) e cs) m = cvar_known E e m" for cs e m
    using laws by (induction cs arbitrary: e) (simp_all add: engine_laws_def)
  show ?thesis unfolding same_url_def register_all_def using cmd reg [OF known downloadurl_no_setting] by simp
qed

lemma ensure_config_same:
  assumes laws: "engine_laws E" and e: "ensure_config E env path p = (body, q)"
  shows "same_state E p q"
  using e say_same [OF laws, of p]
  by (auto simp: ensure_config_def split: if_splits prod.splits bool.splits option.splits)

lemma registerPlugin_inv:
  assumes laws: "engine_laws E" and inv: "pl_inv E orig p"
  shows "pl_inv E orig (registerPlugin E env p)"
proof (cases "g_registered p")
  case False
  have known: "cvar_known E (g_engine p) downloadurl" using inv by (simp add: pl_inv_def url_state_def)
  define p0 where "p0 = p\<lparr>g_engine := register_all E (g_engine p)\<rparr>"
  define p1 where "p1 = p0\<lparr>g_baseDir := resolveBaseDir env p0\<rparr>"
  have "url_state E orig p1"
    using url_state_cong [OF _ register_all_url [OF laws known], where orig = orig and b = "resolveBaseDir env p0" and r = "g_registered p" and w = "g_startPending p"] inv
    by (simp add: p1_def p0_def pl_inv_def)
  then have p1: "pl_inv E orig p1" using inv by (simp add: p1_def p0_def pl_inv_def)
  define p2 where "p2 = say E (''base directory '' @ u8string (g_baseDir p1)) p1"
  define path where "path = configPath env p2"
  define p3 where "p3 = say E (''loading config '' @ u8string path) p2"
  have p3: "pl_inv E orig p3" unfolding p3_def p2_def by (intro pl_inv_same [OF say_same [OF laws]] p1)
  obtain body p4 where e: "ensure_config E env path p3 = (body, p4)" by (rule prod.exhaust)
  have p4: "pl_inv E orig p4" by (rule pl_inv_same [OF ensure_config_same [OF laws e] p3])
  obtain ok loaded skipped error en where l: "loadConfigFile E path body (pv_bad env) 0 0 [] (g_engine p4) = (ok, loaded, skipped, error, en)"
    by (metis prod_cases5)
  have "same_url E (g_engine p4) en"
    using loadConfigFile_frame [OF laws l, where m = downloadurl] downloadurl_no_setting by (simp add: same_url_def)
  from url_state_cong [OF _ this, where orig = orig and b = "g_baseDir p4" and r = "g_registered p4" and w = "g_startPending p4"] p4
  have p5: "pl_inv E orig (p4\<lparr>g_engine := en\<rparr>)" by (simp add: pl_inv_def)
  have set: "pl_inv E orig (q\<lparr>g_registered := True, g_startPending := True\<rparr>)" if "pl_inv E orig q" for q
    using that by (simp add: pl_inv_def url_state_def)
  have "\<exists>msg. registerPlugin E env p = (say E msg (p4\<lparr>g_engine := en\<rparr>))\<lparr>g_registered := True, g_startPending := True\<rparr>"
    unfolding registerPlugin_def Let_def p0_def [symmetric] p1_def [symmetric] p2_def [symmetric] path_def [symmetric]
      p3_def [symmetric] e prod.case l using False by (cases ok) auto
  then show ?thesis using set [OF pl_inv_same [OF say_same [OF laws] p5]] by auto
qed (use inv in \<open>simp add: registerPlugin_def\<close>)

lemma pl_inv_server:
  "pl_inv E orig p \<Longrightarrow> ls_inv s \<Longrightarrow> sv_daemon (sy_server s) = sv_daemon (g_server p) \<Longrightarrow>
   sv_config (sy_server s) = sv_config (g_server p) \<Longrightarrow> pl_inv E orig (p\<lparr>g_system := s\<rparr>)"
  by (simp add: pl_inv_def url_state_def)

lemma cacheBuild_inv:
  assumes laws: "engine_laws E" and inv: "pl_inv E orig p"
  shows "pl_inv E orig (commandCacheBuild E p)"
proof -
  let ?f = "\<lambda>sv. sv\<lparr>sv_compression := requestBuild (sv_compression sv)\<rparr>"
  have "ls_inv (g_system p)" using inv by (simp add: pl_inv_def)
  then have "ls_inv ((g_system p)\<lparr>sy_server := ?f (g_server p)\<rparr>)"
    by (simp add: ls_inv_def sys_inv_def quiet_def requestBuild_def)
  then have "pl_inv E orig (with_server ?f p)" unfolding with_server_def by (intro pl_inv_server [OF inv]) simp_all
  with inv show ?thesis by (simp add: commandCacheBuild_def pl_inv_same [OF say_same [OF laws]])
qed

lemma unblock_inv:
  assumes laws: "engine_laws E" and inv: "pl_inv E orig p"
  shows "pl_inv E orig (commandUnblock E args p)"
proof (cases "length args = 2")
  case True
  obtain known l where u: "unblock (args ! 1) (sv_limiter (g_server p)) = (known, l)" by (rule prod.exhaust)
  have "ls_inv (g_system p)" using inv by (simp add: pl_inv_def)
  note ls_inv_step [OF this, of "Ran (Unblocked 0 (args ! 1))"]
  moreover have "ls_step (g_system p) (Ran (Unblocked 0 (args ! 1))) = (g_system p)\<lparr>sy_server := (g_server p)\<lparr>sv_limiter := l\<rparr>\<rparr>"
    using u by simp
  ultimately have "ls_inv ((g_system p)\<lparr>sy_server := (g_server p)\<lparr>sv_limiter := l\<rparr>\<rparr>)" by (simp only:)
  then have "pl_inv E orig (with_server (\<lambda>sv. sv\<lparr>sv_limiter := l\<rparr>) p)"
    unfolding with_server_def by (intro pl_inv_server [OF inv]) simp_all
  from pl_inv_same [OF say_same [OF laws] this] True u show ?thesis
    by (simp only: commandUnblock_def Let_def prod.case simp_thms if_False)
qed (simp only: commandUnblock_def simp_thms if_True pl_inv_same [OF say_same [OF laws] inv])

lemma serving_inv:
  assumes inv: "pl_inv E orig p"
  shows "pl_inv E orig (p\<lparr>g_system := ls_step (g_system p) (Ran e)\<rparr>)"
proof -
  have ls: "ls_inv (g_system p)" using inv by (simp add: pl_inv_def)
  then have sys: "sys_inv (g_system p)" by (simp add: ls_inv_def)
  have "sv_daemon (sy_server (ls_step (g_system p) (Ran e))) = sv_daemon (g_server p) \<and>
      sv_config (sy_server (ls_step (g_system p) (Ran e))) = sv_config (g_server p)"
    using sy_step_config_daemon [OF sys, of e] by (cases e) simp_all
  with ls_inv_step [OF ls, of "Ran e"] show ?thesis by (intro pl_inv_server [OF inv]) (simp_all del: ls_step.simps)
qed

lemma detach_inv:
  assumes laws: "engine_laws E" and inv: "pl_inv E orig p" and nul: "CHR 0x00 \<notin> set orig"
  shows "pl_inv E orig (Meta_Detach E env p)" "pfnCVarGetString E (g_engine (Meta_Detach E env p)) downloadurl = orig"
    "sy_live (g_system (Meta_Detach E env p)) = []" "quiet (g_server (Meta_Detach E env p))"
proof -
  have url: "url_state E orig p" and ls: "ls_inv (g_system p)" using inv by (simp_all add: pl_inv_def)
  note r = restore_state [OF laws url]
  have d: "Meta_Detach E env p = (restoreDownloadUrl E p)\<lparr>g_system := sy_stop (pv_lifecycle env) (g_system p)\<rparr>"
    by (simp add: Meta_Detach_def Let_def r)
  note s = sy_stop_quiet [OF ls, of "pv_lifecycle env"]
  show "pfnCVarGetString E (g_engine (Meta_Detach E env p)) downloadurl = orig" using r(7) [OF nul] by (simp add: d)
  show "sy_live (g_system (Meta_Detach E env p)) = []" "quiet (g_server (Meta_Detach E env p))" using s by (simp_all add: d)
  show "pl_inv E orig (Meta_Detach E env p)"
    using s r nul inv by (simp add: d pl_inv_def url_state_def ls_inv_def quiet_def)
qed

definition leaves_url :: "pl_event \<Rightarrow> bool" where
  "leaves_url ev \<longleftrightarrow> (case ev of Console name v \<Rightarrow> name \<noteq> downloadurl | _ \<Rightarrow> True)"

lemma pl_inv_step:
  assumes laws: "engine_laws E" and nul: "CHR 0x00 \<notin> set orig" and inv: "pl_inv E orig p" and ev: "leaves_url ev"
  shows "pl_inv E orig (pl_step E p ev)"
proof (cases ev)
  case (Query info utils)
  with inv show ?thesis by (simp add: Meta_Query_def pl_inv_def url_state_def)
next
  case (PlAttach table globals)
  with inv show ?thesis by (simp add: Meta_Attach_def pl_inv_def url_state_def)
next
  case (GameInit env)
  with registerPlugin_inv [OF laws inv] show ?thesis by simp
next
  case (StartFrame env)
  have "pl_inv E orig (p\<lparr>g_startPending := False\<rparr>)" "g_startPending p \<Longrightarrow> g_registered p"
    using inv by (simp_all add: pl_inv_def url_state_def)
  with StartFrame inv startServer_inv [OF laws _ _ nul, of "p\<lparr>g_startPending := False\<rparr>" env] show ?thesis
    by (simp add: startFrame_def)
next
  case (Restart env)
  have "pl_inv E orig (say E ''restarting'' p)" "g_registered (say E ''restarting'' p) = g_registered p"
    using pl_inv_same [OF say_same [OF laws] inv] by (simp_all add: say_def)
  with Restart inv startServer_inv [OF laws _ _ nul, of "say E ''restarting'' p" env] show ?thesis
    by (simp add: commandRestart_def)
next
  case (Status env)
  have "same_state E p (commandStatus E env p)"
    using same_state_trans [OF say_all_same [OF laws] printLogState_same [OF laws]] say_same [OF laws]
    by (simp add: commandStatus_def)
  with Status inv pl_inv_same show ?thesis by auto
next
  case (Stats now)
  with inv pl_inv_same [OF say_all_same [OF laws]] show ?thesis by (simp add: commandStats_def)
next
  case CacheBuild
  with inv cacheBuild_inv [OF laws inv] show ?thesis by simp
next
  case (UnblockCommand args)
  with inv unblock_inv [OF laws inv] show ?thesis by simp
next
  case (Console name v)
  with ev have "name \<noteq> downloadurl" by (simp add: leaves_url_def)
  with Console inv show ?thesis by (simp add: pl_inv_def url_state_def engine_set [OF laws])
next
  case (Serving e)
  with serving_inv [OF inv] show ?thesis by simp
next
  case (Detach env)
  with detach_inv(1) [OF laws inv nul] show ?thesis by simp
qed

lemma pl_inv_run:
  assumes laws: "engine_laws E" and known: "cvar_known E e0 downloadurl" and es: "list_all leaves_url es"
  shows "pl_inv E (pfnCVarGetString E e0 downloadurl) (foldl (pl_step E) (pl_init cfg e0) es)"
proof -
  let ?orig = "pfnCVarGetString E e0 downloadurl"
  have nul: "CHR 0x00 \<notin> set ?orig" using laws by (simp add: engine_laws_def)
  have "pl_inv E ?orig (foldl (pl_step E) p es)" if "pl_inv E ?orig p" for p
    using that es by (induction es arbitrary: p) (simp_all add: pl_inv_step [OF laws nul])
  moreover have "ls_inv (ls_init cfg)" by (rule ls.inv_start)
  then have "pl_inv E ?orig (pl_init cfg e0)"
    using known by (simp add: pl_inv_def url_state_def pl_init_def ls_init_def)
  ultimately show ?thesis by blast
qed

section \<open>The walk to the base directory\<close>

lemma base_walk_found:
  assumes "pre \<noteq> []" "lowerAscii d = modName" "modName \<noteq> []" "\<forall>c \<in> set post. lowerAscii c \<noteq> modName"
  shows "base_walk fs modName (pre @ d # post) = Some (case canonical fs pre of Inl e \<Rightarrow> pre | Inr base \<Rightarrow> base)"
  using assms(4)
proof (induction post rule: rev_induct)
  case Nil
  have "path_filename (pre @ [d]) = d" "parent_path (pre @ [d]) = pre"
    using assms(1) by (simp_all add: path_filename_def parent_path_def)
  then show ?case using assms(2) by (subst base_walk.simps) (simp split: sum.split)
next
  case (snoc c post)
  have "path_filename (pre @ d # post @ [c]) = c" "parent_path (pre @ d # post @ [c]) = pre @ d # post"
    using assms(1) by (simp_all add: path_filename_def parent_path_def butlast_append)
  then show ?case using snoc by (subst base_walk.simps) simp
qed

section \<open>Properties\<close>

text \<open>C36. What holds at any moment of the plugin's life, after any sequence of entry points, frames,
  console commands, console settings of other variables, requests and worker steps, with any
  configuration file and any answers of the system. The plugin owns \<^verbatim>\<open>sv_downloadurl\<close> only while
  the server runs; then the variable holds a URL in normal form and the value it had before is
  kept, otherwise it has that value. A server that runs was registered before and runs with a
  well-formed configuration.\<close>

theorem plugin_invariant:
  fixes cfg
  assumes "engine_laws E" and "cvar_known E e0 ''sv_downloadurl''" and "list_all leaves_url es"
  defines "p \<equiv> foldl (pl_step E) (pl_init cfg e0) es"
  shows "(if g_downloadUrlManaged p
     then sv_daemon (g_server p) \<and> g_previousDownloadUrl p = pfnCVarGetString E e0 ''sv_downloadurl'' \<and>
       normal_url (pfnCVarGetString E (g_engine p) ''sv_downloadurl'')
     else pfnCVarGetString E (g_engine p) ''sv_downloadurl'' = pfnCVarGetString E e0 ''sv_downloadurl'') \<and>
   (sv_daemon (g_server p) \<longrightarrow> g_registered p \<and> well_formed_config (sv_config (g_server p)))"
  using pl_inv_run [OF assms(1-3), of cfg] unfolding p_def pl_inv_def url_state_def by auto

definition sample_env :: plugin_env where
  "sample_env =
     \<lparr>pv_lifecycle = \<lparr>le_fs = sample_fs, le_cwd = [''/''], le_cacheFs = sample_fs, le_cacheMade = None,
        le_cacheMadeFs = sample_fs, le_logDirOk = True, le_logProbeOk = True, le_now = 0, le_second = 0,
        le_daemonOk = True, le_day = \<lparr>lt_year = 126, lt_mon = 0, lt_mday = 1, lt_yday = 0\<rparr>, le_canOpen = True,
        le_writeFails = None, le_localTime = gmtime 0\<rparr>,
      pv_gameDir = ''cstrike'', pv_pluginPath = Some ''/hlds/cstrike/addons/fastdl/fastdl_mm.so'',
      pv_cwd = Some [''/''], pv_fs = sample_fs, pv_exists = Inr False, pv_created = True, pv_flushed = True,
      pv_content = None, pv_bad = False, pv_today = \<lparr>lt_year = 126, lt_mon = 0, lt_mday = 1, lt_yday = 0\<rparr>\<rparr>"

definition sample_engine :: "(string \<times> string) list \<times> string" where
  "sample_engine = ([(''sv_downloadurl'', ''http://old/''), (''hostport'', ''27016'')], [])"

lemma sample_engine_known: "cvar_known table_engine sample_engine ''sv_downloadurl''"
  "pfnCVarGetString table_engine sample_engine ''sv_downloadurl'' = ''http://old/''"
  by code_simp+

theorem plugin_invariant_witness:
  "let p = foldl (pl_step table_engine) (pl_init default_config sample_engine)
     [Query True True, GameInit sample_env, StartFrame sample_env, Console ''fastdl_port'' ''80'', Restart sample_env]
   in sv_daemon (g_server p) \<longrightarrow> well_formed_config (sv_config (g_server p))"
proof -
  have "list_all leaves_url [Query True True, GameInit sample_env, StartFrame sample_env, Console ''fastdl_port'' ''80'',
      Restart sample_env]" by (simp add: leaves_url_def)
  from plugin_invariant [OF table_engine_laws sample_engine_known(1) this, of default_config]
  show ?thesis unfolding Let_def by blast
qed

text \<open>C37. Detaching undoes everything: however the plugin was used before, \<^verbatim>\<open>sv_downloadurl\<close> has the value
  it had before the plugin was loaded, no request is open, nothing is held, and the daemon and
  both workers are stopped.\<close>

theorem detach_restores:
  fixes cfg env
  assumes "engine_laws E" and "cvar_known E e0 ''sv_downloadurl''" and "list_all leaves_url es"
  defines "p \<equiv> pl_step E (foldl (pl_step E) (pl_init cfg e0) es) (Detach env)"
  shows "pfnCVarGetString E (g_engine p) ''sv_downloadurl'' = pfnCVarGetString E e0 ''sv_downloadurl'' \<and>
    \<not> g_downloadUrlManaged p \<and> sy_live (g_system p) = [] \<and> sv_files (g_server p) = {#} \<and>
    bl_leases (sv_bandwidth (g_server p)) = [] \<and> quiet (g_server p)"
proof -
  have nul: "CHR 0x00 \<notin> set (pfnCVarGetString E e0 ''sv_downloadurl'')" using assms(1) by (simp add: engine_laws_def)
  note d = detach_inv [OF assms(1) pl_inv_run [OF assms(1-3), of cfg] nul, of env]
  have p: "p = Meta_Detach E env (foldl (pl_step E) (pl_init cfg e0) es)" by (simp add: p_def)
  have "sys_inv (g_system p)" using d(1) by (simp add: p pl_inv_def ls_inv_def)
  from sys_inv_idle [OF this] d show ?thesis by (auto simp: p pl_inv_def url_state_def quiet_def)
qed

theorem detach_restores_witness:
  "pfnCVarGetString table_engine (g_engine (pl_step table_engine (foldl (pl_step table_engine)
     (pl_init default_config sample_engine) [GameInit sample_env, StartFrame sample_env]) (Detach sample_env)))
     ''sv_downloadurl'' = ''http://old/''"
proof -
  have "list_all leaves_url [GameInit sample_env, StartFrame sample_env]" by (simp add: leaves_url_def)
  from detach_restores [OF table_engine_laws sample_engine_known(1) this, of default_config sample_env]
  show ?thesis unfolding sample_engine_known(2) by blast
qed

text \<open>C38. The base directory does not depend on the working directory: if the plugin's absolute path
  contains the mod directory (compared without case), the base is the canonical parent of the
  last such directory above the plugin file.\<close>

theorem base_directory_found:
  assumes "g_metaUtil p" and "pv_pluginPath env = Some pp"
    and "absolute_from (pv_cwd env) (path_of pp) = Inr (pre @ d # post @ [name])"
    and "pre \<noteq> []" and "lowerAscii d = lowerAscii (path_filename (path_of (pv_gameDir env)))" and "d \<noteq> []"
    and "\<forall>c \<in> set post. lowerAscii c \<noteq> lowerAscii d"
  shows "resolveBaseDir env p = (case canonical (pv_fs env) pre of Inl e \<Rightarrow> pre | Inr base \<Rightarrow> base)"
proof -
  let ?m = "lowerAscii (path_filename (path_of (pv_gameDir env)))"
  have "?m \<noteq> []" using assms(5,6) by (metis lowerAscii_def map_is_Nil_conv)
  moreover have "parent_path (pre @ d # post @ [name]) = pre @ d # post"
    using assms(4) by (simp add: parent_path_def butlast_append)
  ultimately show ?thesis
    using base_walk_found [OF assms(4,5), of post "pv_fs env"] assms
    by (simp add: resolveBaseDir_def pluginPath_def Let_def)
qed

theorem base_directory_found_witness:
  "resolveBaseDir sample_env ((pl_init default_config sample_engine)\<lparr>g_metaUtil := True\<rparr>) =
     (case canonical sample_fs [''/'', ''hlds''] of Inl e \<Rightarrow> [''/'', ''hlds''] | Inr base \<Rightarrow> base)"
proof -
  let ?p = "(pl_init default_config sample_engine)\<lparr>g_metaUtil := True\<rparr>"
  have a: "absolute_from (pv_cwd sample_env) (path_of ''/hlds/cstrike/addons/fastdl/fastdl_mm.so'') =
      Inr ([''/'', ''hlds''] @ ''cstrike'' # [''addons'', ''fastdl''] @ [''fastdl_mm.so''])" by code_simp
  have g: "lowerAscii ''cstrike'' = lowerAscii (path_filename (path_of (pv_gameDir sample_env)))" by code_simp
  have n: "list_all (\<lambda>c. lowerAscii c \<noteq> lowerAscii ''cstrike'') [''addons'', ''fastdl'']" by code_simp
  have fs: "pv_fs sample_env = sample_fs" "pv_pluginPath sample_env = Some ''/hlds/cstrike/addons/fastdl/fastdl_mm.so''"
    by (simp_all add: sample_env_def)
  from base_directory_found [of ?p sample_env, OF _ fs(2) a _ g _ n [unfolded list_all_iff]] fs(1) show ?thesis by simp
qed

end
