(* ===== verification/Cache_Maintenance.thy ===== *)
theory Cache_Maintenance
  imports Cache_Start
begin

text \<open>
  Keeping the cache directory bounded (\<^verbatim>\<open>compression_cache.cpp\<close>, \<open>markerCurrent\<close> and
  \<open>maintainCache\<close>): one pass over the directory drops left-over temporary files, markers and
  representations that no longer describe a served file, keeps the newest representations up to
  a count, and then evicts the oldest until the total size is below nine tenths of the limit.
  The result of \<open>remove\<close> is ignored by the code, so a pass yields the removals it asks for.
\<close>

section \<open>Markers\<close>

definition kMaximumMarkerBytes :: u64 where "kMaximumMarkerBytes = 8192"

definition kMaximumCacheEntries :: nat where "kMaximumCacheEntries = 16384"

text \<open>Whether the file a marker names is still served and unchanged: \<open>stored\<close> is the marker's text. A
  marker whose path is not absolute differs from every identity.\<close>

definition stored_current ::
  "file_system \<Rightarrow> CompressionCache \<Rightarrow> PathResolver \<Rightarrow> string \<Rightarrow> string \<Rightarrow> bool \<Rightarrow> bool" where
  "stored_current fs c r name stored skip =
     (let sourcePath = path_of name
      in if \<not> is_absolute sourcePath then False
         else (case (weakly_canonical fs sourcePath, weakly_canonical fs (pr_root r)) of
             (Some p, Some base) \<Rightarrow>
               (let relative = lexically_relative p base; relativeText = u8string relative
                in if relative = [] then False
                   else if relativeText = ''..'' \<or> take 3 relativeText = ''../'' then False
                   else (let resolved = resolve r fs fs fs (Some (''/'' @ relativeText)) (cc_maxFileBytes c)
                         in if rf_status resolved \<noteq> Ok then False
                            else (case openReadFile fs (rf_path resolved) of
                                None \<Rightarrow> False
                              | Some fd \<Rightarrow>
                                  (case inspectReadFile fs fd (rf_path resolved) of
                                     None \<Rightarrow> False
                                   | Some info \<Rightarrow>
                                       (let source = \<lparr>cs_path = rf_path resolved, cs_extension = rf_extension resolved, cs_info = info\<rparr>
                                        in stored = (if skip then skipIdentity c source else sourceIdentity source))))))
           | _ \<Rightarrow> False))"

definition markerCurrent :: "file_system \<Rightarrow> CompressionCache \<Rightarrow> path \<Rightarrow> bool \<Rightarrow> bool" where
  "markerCurrent fs c path skip =
     (if \<not> regularArtifact fs path then False
      else (case file_size fs path of
          Inl e \<Rightarrow> False
        | Inr n \<Rightarrow>
            if n = 0 \<or> n > kMaximumMarkerBytes then False
            else (case read_bytes fs path of
                None \<Rightarrow> False
              | Some bytes \<Rightarrow>
                  if length bytes < unat n then False
                  else (let stored = take (unat n) bytes
                        in case (find_from CHR 0x0A stored 0, cc_resolver c) of
                             (Some newline, Some r) \<Rightarrow>
                               if newline = 0 then False
                               else stored_current fs c r (take newline stored) stored skip
                           | _ \<Rightarrow> False))))"

section \<open>The pass over the directory\<close>

record candidate =
  cd_name :: string
  cd_size :: u64
  cd_modified :: int

record sweep =
  sw_files :: "candidate list"
  sw_total :: u64
  sw_removed :: "string list"

text \<open>\<open>std::isxdigit\<close>.\<close>

definition is_xdigit :: "char \<Rightarrow> bool" where
  "is_xdigit c \<longleftrightarrow> is_digit c \<or> (65 \<le> byte c \<and> byte c \<le> 70) \<or> (97 \<le> byte c \<and> byte c \<le> 102)"

definition cacheName :: "string \<Rightarrow> string \<Rightarrow> bool" where
  "cacheName name suffix \<longleftrightarrow>
     length name = 32 + length suffix \<and> drop 32 name = suffix \<and> list_all is_xdigit (take 32 name)"

definition replace_extension :: "string \<Rightarrow> string \<Rightarrow> string" where
  "replace_extension name ext = take (length name - length (extension_of name)) name @ ext"

definition removeRepresentation :: "string \<Rightarrow> sweep \<Rightarrow> sweep" where
  "removeRepresentation name s = s\<lparr>sw_removed := sw_removed s @ [name, replace_extension name ''.meta'']\<rparr>"

definition remove_file :: "string \<Rightarrow> sweep \<Rightarrow> sweep" where
  "remove_file name s = s\<lparr>sw_removed := sw_removed s @ [name]\<rparr>"

definition addSize :: "u64 \<Rightarrow> u64 \<Rightarrow> u64" where
  "addSize left right = (if right > UINT64_MAX - left then UINT64_MAX else left + right)"

definition dropSize :: "u64 \<Rightarrow> u64 \<Rightarrow> u64" where
  "dropSize left amount = (if amount \<ge> left then 0 else left - amount)"

text \<open>\<open>last_write_time\<close> in nanoseconds.\<close>

definition last_write_time :: "file_system \<Rightarrow> path \<Rightarrow> int option" where
  "last_write_time fs p =
     (case stat fs p of
        Inl e \<Rightarrow> None
      | Inr n \<Rightarrow> (case node_id n of
          None \<Rightarrow> None
        | Some i \<Rightarrow> Some (st_mtim_sec (fs_inode fs i) * 1000000000 + int (st_mtim_nsec (fs_inode fs i)))))"

text \<open>The top of the priority queue and the rest: an oldest entry. Which of several with the same
  time comes first is up to the library; here it is the first.\<close>

fun pop_oldest :: "candidate \<Rightarrow> candidate list \<Rightarrow> candidate \<times> candidate list" where
  "pop_oldest c [] = (c, [])"
| "pop_oldest c (d # ds) =
     (case pop_oldest d ds of (oldest, rest) \<Rightarrow>
        if cd_modified c \<le> cd_modified oldest then (c, d # ds) else (oldest, c # rest))"

definition evict_oldest :: "candidate \<Rightarrow> candidate list \<Rightarrow> sweep \<Rightarrow> sweep" where
  "evict_oldest c cs s =
     (case pop_oldest c cs of (oldest, rest) \<Rightarrow>
        removeRepresentation (cd_name oldest)
          (s\<lparr>sw_files := rest, sw_total := dropSize (sw_total s) (cd_size oldest)\<rparr>))"

definition push :: "candidate \<Rightarrow> sweep \<Rightarrow> sweep" where
  "push c s = s\<lparr>sw_files := c # sw_files s, sw_total := addSize (sw_total s) (cd_size c)\<rparr>"

definition admit :: "candidate \<Rightarrow> sweep \<Rightarrow> sweep" where
  "admit c s =
     (if length (sw_files s) < kMaximumCacheEntries then push c s
      else (case sw_files s of
          [] \<Rightarrow> removeRepresentation (cd_name c) s
        | f # fs \<Rightarrow>
            if cd_modified c > cd_modified (fst (pop_oldest f fs)) then push c (evict_oldest f fs s)
            else removeRepresentation (cd_name c) s))"

text \<open>One directory entry, met when the tree is \<open>fs\<close>.\<close>

definition sweep_entry :: "file_system \<Rightarrow> CompressionCache \<Rightarrow> string \<Rightarrow> sweep \<Rightarrow> sweep" where
  "sweep_entry fs c name s =
     (let path = cc_cachePath c @ [name]
      in if cacheName name ''.gz.tmp'' \<or> cacheName name ''.meta.tmp'' \<or> cacheName name ''.skip.tmp''
         then remove_file name s
         else if cacheName name ''.skip'' then
           (if \<not> markerCurrent fs c path True then remove_file name s else s)
         else if cacheName name ''.meta'' then
           (if \<not> regularArtifact fs (cc_cachePath c @ [replace_extension name ''.gz'']) then remove_file name s else s)
         else if \<not> cacheName name ''.gz'' then s
         else if \<not> regularArtifact fs path \<or>
                 \<not> markerCurrent fs c (cc_cachePath c @ [replace_extension name ''.meta'']) False
         then removeRepresentation name s
         else (case file_size fs path of
             Inl e \<Rightarrow> removeRepresentation name s
           | Inr n \<Rightarrow>
               if n < 18 then removeRepresentation name s
               else (case last_write_time fs path of
                   None \<Rightarrow> removeRepresentation name s
                 | Some modified \<Rightarrow> admit \<lparr>cd_name = name, cd_size = n, cd_modified = modified\<rparr> s)))"

text \<open>The loop: each entry comes with the tree it is met in and whether the cache is stopping then.
  The result says whether the loop came to its end.\<close>

fun sweep_dir :: "CompressionCache \<Rightarrow> (string \<times> file_system \<times> bool) list \<Rightarrow> sweep \<Rightarrow> bool \<times> sweep" where
  "sweep_dir c [] s = (True, s)"
| "sweep_dir c ((name, fs, stopping) # es) s =
     (if stopping then (False, s) else sweep_dir c es (sweep_entry fs c name s))"

lemma pop_oldest_length: "pop_oldest c cs = (oldest, rest) \<Longrightarrow> length rest = length cs"
  by (induction c cs arbitrary: oldest rest rule: pop_oldest.induct) (auto split: prod.splits if_splits)

function evict :: "u64 \<Rightarrow> sweep \<Rightarrow> sweep" where
  "evict target s =
     (if sw_total s > target then
        (case sw_files s of [] \<Rightarrow> s | f # fs \<Rightarrow> evict target (evict_oldest f fs s))
      else s)"
  by pat_completeness auto

termination
  by (relation "measure (\<lambda>(target, s). length (sw_files s))")
    (auto simp: evict_oldest_def removeRepresentation_def split: prod.splits dest: pop_oldest_length)

declare evict.simps [simp del]

definition maintainCache ::
  "(string \<times> file_system \<times> bool) list \<Rightarrow> CompressionCache \<Rightarrow> CompressionCache \<times> string list" where
  "maintainCache es c =
     (case sweep_dir c es \<lparr>sw_files = [], sw_total = 0, sw_removed = []\<rparr> of
        (False, s) \<Rightarrow> (c, sw_removed s)
      | (True, s) \<Rightarrow>
          (let s = (if sw_total s > cc_maxBytes c then evict (cc_maxBytes c - cc_maxBytes c div 10) s else s)
           in (c\<lparr>cc_entries := of_nat (length (sw_files s)), cc_bytes := sw_total s\<rparr>, sw_removed s)))"

section \<open>What a pass looks at\<close>

text \<open>The representation a directory entry stands for, if its file and its marker are in order.\<close>

definition entry_candidate :: "file_system \<Rightarrow> CompressionCache \<Rightarrow> string \<Rightarrow> candidate option" where
  "entry_candidate fs c name =
     (let path = cc_cachePath c @ [name]
      in if \<not> cacheName name ''.gz'' \<or> \<not> regularArtifact fs path \<or>
            \<not> markerCurrent fs c (cc_cachePath c @ [replace_extension name ''.meta'']) False then None
         else (case (file_size fs path, last_write_time fs path) of
             (Inr n, Some modified) \<Rightarrow>
               if n < 18 then None else Some \<lparr>cd_name = name, cd_size = n, cd_modified = modified\<rparr>
           | _ \<Rightarrow> None))"

definition candidates :: "CompressionCache \<Rightarrow> (string \<times> file_system \<times> bool) list \<Rightarrow> candidate list" where
  "candidates c es = List.map_filter (\<lambda>(name, fs, stopping). entry_candidate fs c name) es"

lemma cacheName_suffix: "cacheName name suffix \<Longrightarrow> cacheName name suffix' \<Longrightarrow> suffix = suffix'"
  unfolding cacheName_def by metis

lemma sweep_entry_cases:
  "case entry_candidate fs c name of
     Some cd \<Rightarrow> sweep_entry fs c name s = admit cd s
   | None \<Rightarrow> \<exists>rs. sweep_entry fs c name s = s\<lparr>sw_removed := sw_removed s @ rs\<rparr>"
proof (cases "cacheName name ''.gz''")
  case True
  then have n: "\<not> cacheName name ''.gz.tmp''" "\<not> cacheName name ''.meta.tmp''" "\<not> cacheName name ''.skip.tmp''"
    "\<not> cacheName name ''.skip''" "\<not> cacheName name ''.meta''"
    using cacheName_suffix by fastforce+
  show ?thesis
    using True n
    by (auto simp: sweep_entry_def entry_candidate_def Let_def removeRepresentation_def split: sum.split option.split)
next
  case False
  have "\<exists>rs. s = s\<lparr>sw_removed := sw_removed s @ rs\<rparr>" by (intro exI [where x = "[]"]) simp
  with False show ?thesis
    by (auto simp: sweep_entry_def entry_candidate_def Let_def remove_file_def)
qed

lemma pop_oldest_mset: "pop_oldest c cs = (oldest, rest) \<Longrightarrow> add_mset oldest (mset rest) = add_mset c (mset cs)"
  by (induction c cs arbitrary: oldest rest rule: pop_oldest.induct)
    (auto split: prod.splits if_splits simp: add_mset_commute)

lemma pop_oldest_min: "pop_oldest c cs = (oldest, rest) \<Longrightarrow> \<forall>d \<in> set (c # cs). cd_modified oldest \<le> cd_modified d"
proof (induction c cs arbitrary: oldest rest rule: pop_oldest.induct)
  case (2 c d ds)
  obtain o' r' where p: "pop_oldest d ds = (o', r')" by fastforce
  from 2(1) [OF p] 2(2) p show ?case by (auto split: if_splits)
qed simp

lemma pop_oldest_set:
  assumes "pop_oldest c cs = (oldest, rest)"
  shows "set (c # cs) = insert oldest (set rest)"
  using arg_cong [OF pop_oldest_mset [OF assms], of set_mset] by simp

definition sizes :: "candidate list \<Rightarrow> nat" where
  "sizes cs = sum_list (map (\<lambda>c. unat (cd_size c)) cs)"

lemma sizes_simps [simp]: "sizes [] = 0" "sizes (c # cs) = unat (cd_size c) + sizes cs"
  by (simp_all add: sizes_def)

lemma sizes_mset: "mset cs = mset ds \<Longrightarrow> sizes cs = sizes ds"
  unfolding sizes_def by (metis mset_map sum_mset_sum_list)

lemma addSize_exact: "unat a + unat b < 18446744073709551616 \<Longrightarrow> unat (addSize a b) = unat a + unat b"
proof -
  assume small: "unat a + unat b < 18446744073709551616"
  have "unat (UINT64_MAX - a) = 18446744073709551615 - unat a"
    using unat_sub [of a UINT64_MAX] word_order.extremum [of a] by simp
  with small have "\<not> b > UINT64_MAX - a" by (simp add: word_less_nat_alt)
  with small show ?thesis using unat_add_lem [of a b] by (simp add: addSize_def)
qed

lemma dropSize_exact: "unat (dropSize a b) = unat a - unat b"
  by (auto simp: dropSize_def word_le_nat_alt unat_sub word_less_nat_alt)

section \<open>Keeping the newest\<close>

text \<open>The candidates met so far are those in the queue and those evicted, no evicted one is newer than
  one in the queue, and the files of the evicted ones were removed.\<close>

definition older :: "candidate list \<Rightarrow> candidate list \<Rightarrow> bool" where
  "older evicted kept \<longleftrightarrow> (\<forall>e \<in> set evicted. \<forall>k \<in> set kept. cd_modified e \<le> cd_modified k)"

definition dropped :: "candidate list \<Rightarrow> string list \<Rightarrow> bool" where
  "dropped evicted removed \<longleftrightarrow>
     (\<forall>e \<in> set evicted. cd_name e \<in> set removed \<and> replace_extension (cd_name e) ''.meta'' \<in> set removed)"

definition sorted_out :: "candidate list \<Rightarrow> candidate list \<Rightarrow> sweep \<Rightarrow> bool" where
  "sorted_out cands evicted s \<longleftrightarrow>
     mset cands = mset (sw_files s) + mset evicted \<and> older evicted (sw_files s) \<and>
     unat (sw_total s) = sizes (sw_files s) \<and> dropped evicted (sw_removed s)"

lemma sizes_union: "mset cs = mset ds + mset es \<Longrightarrow> sizes cs = sizes ds + sizes es"
  using sizes_mset [of cs "ds @ es"] by (simp add: sizes_def)

lemma sorted_out_evict:
  assumes s: "sorted_out cands evicted s" and f: "sw_files s = f # fs" and p: "pop_oldest f fs = (oldest, rest)"
  shows "sorted_out cands (oldest # evicted) (evict_oldest f fs s)"
    and "sw_files (evict_oldest f fs s) = rest" "length rest = length fs"
    and "\<forall>k \<in> set rest. cd_modified oldest \<le> cd_modified k"
proof -
  note m = pop_oldest_mset [OF p] and mn = pop_oldest_min [OF p] and st = pop_oldest_set [OF p]
  have e: "evict_oldest f fs s = s\<lparr>sw_files := rest, sw_total := dropSize (sw_total s) (cd_size oldest),
      sw_removed := sw_removed s @ [cd_name oldest, replace_extension (cd_name oldest) ''.meta'']\<rparr>"
    by (simp add: evict_oldest_def p removeRepresentation_def)
  show "sw_files (evict_oldest f fs s) = rest" "length rest = length fs"
    using pop_oldest_length [OF p] by (simp_all add: e)
  show "\<forall>k \<in> set rest. cd_modified oldest \<le> cd_modified k" using mn st by blast
  have "sizes (f # fs) = unat (cd_size oldest) + sizes rest"
    using sizes_mset [of "f # fs" "oldest # rest"] m by simp
  moreover have "mset cands = mset rest + mset (oldest # evicted)" using s f m by (simp add: sorted_out_def)
  moreover have "older (oldest # evicted) rest" using s f mn st unfolding sorted_out_def older_def by auto
  ultimately show "sorted_out cands (oldest # evicted) (evict_oldest f fs s)"
    using s f by (auto simp: sorted_out_def e dropSize_exact dropped_def)
qed

lemma sorted_out_push:
  assumes s: "sorted_out cands evicted s" and new: "\<forall>e \<in> set evicted. cd_modified e \<le> cd_modified c"
    and small: "sizes (c # cands) < 18446744073709551616"
  shows "sorted_out (c # cands) evicted (push c s)"
proof -
  have "sizes cands = sizes (sw_files s) + sizes evicted" using s by (simp add: sorted_out_def sizes_union)
  with small s have "unat (sw_total s) + unat (cd_size c) < 18446744073709551616" by (simp add: sorted_out_def)
  from addSize_exact [OF this] s new show ?thesis by (auto simp: sorted_out_def push_def older_def)
qed

text \<open>In the first phase candidates are evicted only once the queue is full.\<close>

definition sweep_inv :: "candidate list \<Rightarrow> sweep \<Rightarrow> bool" where
  "sweep_inv cands s \<longleftrightarrow> (\<exists>evicted. sorted_out cands evicted s \<and> length (sw_files s) \<le> kMaximumCacheEntries \<and>
     (evicted = [] \<or> length (sw_files s) = kMaximumCacheEntries))"

lemma sweep_inv_admit:
  assumes inv: "sweep_inv cands s" and small: "sizes (c # cands) < 18446744073709551616"
  shows "sweep_inv (c # cands) (admit c s)"
proof -
  obtain evicted where s: "sorted_out cands evicted s" and len: "length (sw_files s) \<le> kMaximumCacheEntries"
    "evicted = [] \<or> length (sw_files s) = kMaximumCacheEntries" using inv by (auto simp: sweep_inv_def)
  show ?thesis
  proof (cases "length (sw_files s) < kMaximumCacheEntries")
    case True
    with len(2) have "evicted = []" by simp
    with sorted_out_push [OF s _ small] True show ?thesis
      unfolding sweep_inv_def by (intro exI [where x = "[]"]) (simp add: admit_def, simp add: push_def)
  next
    case False
    with len(1) have full: "length (sw_files s) = kMaximumCacheEntries" by simp
    then obtain f fs where f: "sw_files s = f # fs" by (cases "sw_files s") (auto simp: kMaximumCacheEntries_def)
    obtain oldest rest where p: "pop_oldest f fs = (oldest, rest)" by fastforce
    note ev = sorted_out_evict [OF s f p] and mn = pop_oldest_min [OF p]
    show ?thesis
    proof (cases "cd_modified c > cd_modified oldest")
      case True
      have "oldest \<in> set (f # fs)" using pop_oldest_set [OF p] by simp
      then have "\<forall>e \<in> set evicted. cd_modified e \<le> cd_modified oldest" using s f by (auto simp: sorted_out_def older_def)
      with True have "\<forall>e \<in> set (oldest # evicted). cd_modified e \<le> cd_modified c" by auto
      from sorted_out_push [OF ev(1) this small] have "sorted_out (c # cands) (oldest # evicted) (push c (evict_oldest f fs s))" .
      moreover have "length (sw_files (push c (evict_oldest f fs s))) = kMaximumCacheEntries"
        using ev(2,3) full f by (simp add: push_def)
      moreover have "admit c s = push c (evict_oldest f fs s)" using False True f p by (simp add: admit_def)
      ultimately show ?thesis unfolding sweep_inv_def by (intro exI [where x = "oldest # evicted"]) simp
    next
      case older: False
      have a: "admit c s = removeRepresentation (cd_name c) s" using False older f p by (simp add: admit_def)
      have "\<forall>k \<in> set (sw_files s). cd_modified c \<le> cd_modified k" using mn older f by fastforce
      then have "sorted_out (c # cands) (c # evicted) (removeRepresentation (cd_name c) s)"
        using s by (auto simp: sorted_out_def removeRepresentation_def older_def dropped_def)
      then show ?thesis
        unfolding sweep_inv_def a using full
        by (intro exI [where x = "c # evicted"]) (simp add: removeRepresentation_def)
    qed
  qed
qed

lemma sweep_inv_removed: "sweep_inv cands s \<Longrightarrow> sweep_inv cands (s\<lparr>sw_removed := sw_removed s @ rs\<rparr>)"
  unfolding sweep_inv_def sorted_out_def dropped_def by (elim exE) (rule exI, auto)

lemma sweep_dir_inv:
  assumes "sweep_inv cands s" "list_all (\<lambda>(name, fs, stopping). \<not> stopping) es"
    and "sizes (candidates c es @ cands) < 18446744073709551616"
  shows "\<exists>s'. sweep_dir c es s = (True, s') \<and> sweep_inv (rev (candidates c es) @ cands) s'"
  using assms
proof (induction c es s arbitrary: cands rule: sweep_dir.induct)
  case (1 c s)
  then show ?case by (simp add: candidates_def List.map_filter_simps)
next
  case (2 c name fs stopping es s)
  have st: "\<not> stopping" using 2(3) by simp
  note e = sweep_entry_cases [of fs c name s]
  show ?case
  proof (cases "entry_candidate fs c name")
    case None
    with e obtain rs where r: "sweep_entry fs c name s = s\<lparr>sw_removed := sw_removed s @ rs\<rparr>" by auto
    have "sweep_inv cands (sweep_entry fs c name s)" unfolding r by (rule sweep_inv_removed [OF 2(2)])
    from 2(1) [OF st this] 2(3,4) None st show ?thesis by (simp add: candidates_def List.map_filter_simps)
  next
    case (Some cd)
    with e have r: "sweep_entry fs c name s = admit cd s" by simp
    have cs: "candidates c ((name, fs, stopping) # es) = cd # candidates c es"
      using Some by (simp add: candidates_def List.map_filter_simps)
    have total: "sizes (candidates c es @ cd # cands) < 18446744073709551616"
      using 2(4) unfolding cs by (simp add: sizes_def)
    then have "sizes (cd # cands) < 18446744073709551616" by (simp add: sizes_def)
    then have "sweep_inv (cd # cands) (sweep_entry fs c name s)" unfolding r by (rule sweep_inv_admit [OF 2(2)])
    from 2(1) [OF st this _ total] 2(3) st cs show ?thesis by simp
  qed
qed

lemma evict_sorted_out:
  assumes "sorted_out cands evicted s"
  shows "\<exists>evicted'. sorted_out cands evicted' (evict target s) \<and>
    length (sw_files (evict target s)) \<le> length (sw_files s) \<and> sw_total (evict target s) \<le> target"
  using assms
proof (induction target s arbitrary: evicted rule: evict.induct)
  case (1 target s)
  show ?case
  proof (cases "sw_total s > target \<and> sw_files s \<noteq> []")
    case True
    then obtain f fs where f: "sw_files s = f # fs" by (cases "sw_files s") auto
    obtain oldest rest where p: "pop_oldest f fs = (oldest, rest)" by fastforce
    note ev = sorted_out_evict [OF 1(2) f p]
    have step: "evict target s = evict target (evict_oldest f fs s)" using True f by (subst evict.simps) simp
    from 1(1) [OF _ f ev(1)] True ev(2,3) f show ?thesis unfolding step by auto
  next
    case False
    then have same: "evict target s = s" by (subst evict.simps) (auto split: list.split)
    have "sw_total s \<le> target"
    proof (cases "sw_files s = []")
      case True
      then have "unat (sw_total s) = 0" using 1(2) by (simp add: sorted_out_def)
      then show ?thesis by (simp add: unat_eq_0)
    qed (use False in auto)
    with 1(2) same show ?thesis by auto
  qed
qed

lemma maintainCache_sorted:
  assumes "list_all (\<lambda>(name, fs, stopping). \<not> stopping) es" "sizes (candidates c es) < 18446744073709551616"
    and m: "maintainCache es c = (c', removed)"
  obtains kept evicted where "mset (candidates c es) = mset kept + mset evicted" "older evicted kept"
    "dropped evicted removed" "length kept \<le> kMaximumCacheEntries"
    "c' = c\<lparr>cc_entries := of_nat (length kept), cc_bytes := cc_bytes c'\<rparr>" "unat (cc_bytes c') = sizes kept"
    "cc_bytes c' \<le> cc_maxBytes c"
    "length (candidates c es) < kMaximumCacheEntries \<Longrightarrow> sizes (candidates c es) \<le> unat (cc_maxBytes c) \<Longrightarrow> evicted = []"
proof -
  let ?s0 = "\<lparr>sw_files = [], sw_total = 0, sw_removed = []\<rparr>"
  have "sweep_inv [] ?s0" by (simp add: sweep_inv_def sorted_out_def older_def dropped_def)
  then obtain s where s: "sweep_dir c es ?s0 = (True, s)" "sweep_inv (rev (candidates c es)) s"
    using sweep_dir_inv [of "[]" ?s0 es c] assms(1,2) by auto
  then obtain ev where ev: "sorted_out (rev (candidates c es)) ev s" "length (sw_files s) \<le> kMaximumCacheEntries"
    "ev = [] \<or> length (sw_files s) = kMaximumCacheEntries" by (auto simp: sweep_inv_def)
  show thesis
  proof (cases "sw_total s > cc_maxBytes c")
    case False
    have "ev = []" if "length (candidates c es) < kMaximumCacheEntries"
    proof -
      have "size (mset (candidates c es)) = size (mset (sw_files s) + mset ev)" using ev(1) by (simp add: sorted_out_def)
      with that ev(3) show ?thesis by auto
    qed
    with False ev m s(1) show thesis
      by (intro that [of "sw_files s" ev]) (auto simp: maintainCache_def sorted_out_def)
  next
    case True
    let ?target = "cc_maxBytes c - cc_maxBytes c div 10"
    from evict_sorted_out [OF ev(1), of ?target] obtain ev' where
      ev': "sorted_out (rev (candidates c es)) ev' (evict ?target s)"
      "length (sw_files (evict ?target s)) \<le> length (sw_files s)" "sw_total (evict ?target s) \<le> ?target" by blast
    have "unat (cc_maxBytes c div 10) \<le> unat (cc_maxBytes c)" by (simp add: unat_div)
    then have "?target \<le> cc_maxBytes c" by (simp add: word_le_nat_alt unat_sub)
    with ev'(3) have bound: "sw_total (evict ?target s) \<le> cc_maxBytes c" by (rule order_trans)
    have "\<not> sizes (candidates c es) \<le> unat (cc_maxBytes c)"
    proof -
      have "sizes (candidates c es) = sizes (sw_files s) + sizes ev"
        using ev(1) by (intro sizes_union) (simp add: sorted_out_def)
      with True ev(1) show ?thesis by (simp add: sorted_out_def word_less_nat_alt)
    qed
    with True ev(2) ev' m s(1) bound show thesis
      by (intro that [of "sw_files (evict ?target s)" ev']) (auto simp: maintainCache_def sorted_out_def Let_def)
  qed
qed

section \<open>What a pass removes\<close>

definition artifact_name :: "string \<Rightarrow> bool" where
  "artifact_name name \<longleftrightarrow>
     list_ex (cacheName name) [''.gz'', ''.meta'', ''.skip'', ''.gz.tmp'', ''.meta.tmp'', ''.skip.tmp'']"

definition tidy :: "sweep \<Rightarrow> bool" where
  "tidy s \<longleftrightarrow> list_all artifact_name (sw_removed s) \<and> (\<forall>f \<in> set (sw_files s). cacheName (cd_name f) ''.gz'')"

lemma key_extension:
  assumes "\<forall>c \<in> set key. c \<noteq> CHR ''.''" "length key = 32"
  shows "extension_of (key @ ''.gz'') = ''.gz''"
  using assms by (auto simp: extension_of_def)

lemma gz_meta_name:
  assumes "cacheName name ''.gz''"
  shows "artifact_name name" "artifact_name (replace_extension name ''.meta'')"
proof -
  let ?key = "take 32 name"
  have n: "name = ?key @ ''.gz''" "length ?key = 32" "list_all is_xdigit ?key"
    using assms append_take_drop_id [of 32 name] by (auto simp: cacheName_def)
  have dot: "\<forall>c \<in> set ?key. c \<noteq> CHR ''.''" using n(3) by (auto simp: list_all_iff is_xdigit_def is_digit_def)
  have len: "length (extension_of name) = 3"
  proof -
    have "extension_of (?key @ ''.gz'') = ''.gz''" using dot n(2) by (rule key_extension)
    with n(1) show ?thesis by simp
  qed
  have "length name = 35" using assms by (simp add: cacheName_def)
  with len have "replace_extension name ''.meta'' = ?key @ ''.meta''" by (simp add: replace_extension_def)
  then show "artifact_name (replace_extension name ''.meta'')"
    using n(2,3) by (simp add: artifact_name_def cacheName_def)
  show "artifact_name name" using assms by (simp add: artifact_name_def)
qed

lemma tidy_remove:
  "tidy s \<Longrightarrow> artifact_name name \<Longrightarrow> tidy (remove_file name s)"
  "tidy s \<Longrightarrow> cacheName name ''.gz'' \<Longrightarrow> tidy (removeRepresentation name s)"
  by (simp_all add: tidy_def remove_file_def removeRepresentation_def gz_meta_name)

lemma tidy_evict_oldest:
  assumes "tidy s" "sw_files s = f # fs"
  shows "tidy (evict_oldest f fs s)"
proof -
  obtain oldest rest where p: "pop_oldest f fs = (oldest, rest)" by fastforce
  have "cacheName (cd_name oldest) ''.gz''" "tidy (s\<lparr>sw_files := rest, sw_total := t\<rparr>)" for t
    using assms pop_oldest_set [OF p] by (auto simp: tidy_def)
  then show ?thesis by (simp add: evict_oldest_def p tidy_remove(2))
qed

lemma tidy_admit:
  assumes "tidy s" "cacheName (cd_name c) ''.gz''"
  shows "tidy (admit c s)"
proof -
  have push: "tidy (push c t)" if "tidy t" for t using that assms(2) by (simp add: tidy_def push_def)
  show ?thesis
    using push [OF assms(1)] push [OF tidy_evict_oldest [OF assms(1)]] tidy_remove(2) [OF assms]
    by (auto simp: admit_def split: list.split)
qed

lemma tidy_entry: "tidy s \<Longrightarrow> tidy (sweep_entry fs c name s)"
  by (auto simp: sweep_entry_def Let_def tidy_remove tidy_admit artifact_name_def split: sum.split option.split)

lemma tidy_dir: "tidy s \<Longrightarrow> tidy (snd (sweep_dir c es s))"
  by (induction c es s rule: sweep_dir.induct) (simp_all add: tidy_entry)

lemma tidy_evict: "tidy s \<Longrightarrow> tidy (evict target s)"
proof (induction target s rule: evict.induct)
  case (1 target s)
  then show ?case by (subst evict.simps) (auto simp: tidy_evict_oldest split: list.split)
qed

section \<open>Properties\<close>

text \<open>C39. A complete pass bounds the cache and keeps the newest. When every entry was seen and the
  sizes add up within 64 bits, the representations that are in order are divided into kept and
  evicted ones such that no evicted one is newer than a kept one; both files of every evicted
  one are removed; at most 16384 are kept, their total is within the limit, and the statistics
  are exactly their number and total. If all of them fit, nothing is evicted.\<close>

theorem cache_bounded:
  assumes "list_all (\<lambda>(name, fs, stopping). \<not> stopping) es"
    and "sizes (candidates c es) < 18446744073709551616"
  shows "\<exists>kept evicted. mset (candidates c es) = mset kept + mset evicted \<and>
    (\<forall>e \<in> set evicted. (\<forall>k \<in> set kept. cd_modified e \<le> cd_modified k) \<and>
       cd_name e \<in> set (snd (maintainCache es c)) \<and>
       replace_extension (cd_name e) ''.meta'' \<in> set (snd (maintainCache es c))) \<and>
    length kept \<le> 16384 \<and> sizes kept \<le> unat (cc_maxBytes c) \<and>
    cc_stats (fst (maintainCache es c)) =
      (cc_stats c)\<lparr>cst_entries := of_nat (length kept), cst_bytes := of_nat (sizes kept)\<rparr> \<and>
    (evicted = [] \<or> length (candidates c es) \<ge> 16384 \<or> sizes (candidates c es) > unat (cc_maxBytes c))"
proof -
  obtain c' removed where m: "maintainCache es c = (c', removed)" by fastforce
  obtain kept evicted where k: "mset (candidates c es) = mset kept + mset evicted" "older evicted kept"
    "dropped evicted removed" "length kept \<le> kMaximumCacheEntries"
    "c' = c\<lparr>cc_entries := of_nat (length kept), cc_bytes := cc_bytes c'\<rparr>" "unat (cc_bytes c') = sizes kept"
    "cc_bytes c' \<le> cc_maxBytes c"
    "length (candidates c es) < kMaximumCacheEntries \<Longrightarrow> sizes (candidates c es) \<le> unat (cc_maxBytes c) \<Longrightarrow> evicted = []"
    by (rule maintainCache_sorted [OF assms m]) blast
  have bytes: "cc_bytes c' = of_nat (sizes kept)" unfolding k(6) [symmetric] by simp
  have "cc_stats c' = (cc_stats c)\<lparr>cst_entries := of_nat (length kept), cst_bytes := of_nat (sizes kept)\<rparr>"
    by (subst k(5)) (simp add: cc_stats_def bytes)
  moreover have "sizes kept \<le> unat (cc_maxBytes c)" using k(6,7) by (simp add: word_le_nat_alt)
  moreover have "evicted = [] \<or> length (candidates c es) \<ge> 16384 \<or> sizes (candidates c es) > unat (cc_maxBytes c)"
    using k(8) by (force simp: kMaximumCacheEntries_def)
  ultimately show ?thesis
    using k(1-4) unfolding m older_def dropped_def kMaximumCacheEntries_def
    by (intro exI [where x = kept] exI [where x = evicted]) auto
qed

definition sample_entries :: "(string \<times> file_system \<times> bool) list" where
  "sample_entries = [(''0123456789abcdef0123456789abcdef.gz.tmp'', cache_tree, False), (''notes.txt'', cache_tree, False)]"

lemma sample_entries_facts:
  "candidates cc_init sample_entries = []"
  "snd (maintainCache sample_entries cc_init) = [''0123456789abcdef0123456789abcdef.gz.tmp'']"
  by code_simp+

theorem cache_bounded_witness:
  "cst_entries (cc_stats (fst (maintainCache sample_entries cc_init))) = 0 \<and>
   snd (maintainCache sample_entries cc_init) = [''0123456789abcdef0123456789abcdef.gz.tmp'']"
proof -
  have "list_all (\<lambda>(name, fs, stopping). \<not> stopping) sample_entries" by (simp add: sample_entries_def)
  from cache_bounded [OF this, of cc_init] show ?thesis
    unfolding sample_entries_facts by auto
qed

text \<open>C40. A pass removes only artifacts of the cache: every name it removes consists of 32 hexadecimal
  digits and one of the six suffixes the cache writes, so other files in a directory an
  administrator configured are safe, whatever the tree looks like and whenever the pass stops.\<close>

theorem removes_only_artifacts:
  "list_all (\<lambda>name. length name > 32 \<and> list_all is_xdigit (take 32 name) \<and>
     drop 32 name \<in> {''.gz'', ''.meta'', ''.skip'', ''.gz.tmp'', ''.meta.tmp'', ''.skip.tmp''})
   (snd (maintainCache es c))"
proof -
  let ?s0 = "\<lparr>sw_files = [], sw_total = 0, sw_removed = []\<rparr>"
  have t: "tidy (snd (sweep_dir c es ?s0))" by (rule tidy_dir) (simp add: tidy_def)
  have "list_all artifact_name (snd (maintainCache es c))"
    using t tidy_evict [OF t, of "cc_maxBytes c - cc_maxBytes c div 10"]
    by (auto simp: maintainCache_def Let_def tidy_def split: prod.split bool.split)
  then show ?thesis
    by (rule list.pred_mono_strong) (auto simp: artifact_name_def cacheName_def)
qed

end
