(* ===== verification/Cache_Publish.thy ===== *)
theory Cache_Publish
  imports Cache_Maintenance
begin

text \<open>
  Making a representation (\<^verbatim>\<open>compression_cache.cpp\<close>, \<open>compress\<close> and \<open>recordArtifact\<close>): the source is read through one descriptor into miniz, the result is checked
  against the file's identity and put in place by renaming. miniz is third-party code: it is
  a parameter with the documented behaviour of zlib's \<open>deflate\<close> as the predicate
  \<open>miniz_laws\<close>. The loops may not end if the library makes no progress, so they are partial
  functions. The cache directory is a store of the worker's artifacts by name; the steps that
  change it are listed one by one, because look-ups see the directory between them.
\<close>

section \<open>The library\<close>

text \<open>One call of \<open>mz_deflate\<close> with 64 KB of room: the status, the bytes consumed, the bytes produced.\<close>

datatype mz_status = MZ_OK | MZ_STREAM_END | MZ_FAILED

record 'z miniz =
  mz_deflateInit2 :: "'z option"
  mz_deflate :: "'z \<Rightarrow> string \<Rightarrow> bool \<Rightarrow> mz_status \<times> nat \<times> string \<times> 'z"
  mz_crc32 :: "u32 \<Rightarrow> string \<Rightarrow> u32"

text \<open>\<open>taken\<close> and \<open>emitted\<close> are the bytes a stream has consumed and produced, \<open>pending\<close> bounds the calls
  that only produce output, \<open>inflate\<close> is the decoder.\<close>

definition miniz_laws ::
  "'z miniz \<Rightarrow> ('z \<Rightarrow> string) \<Rightarrow> ('z \<Rightarrow> string) \<Rightarrow> ('z \<Rightarrow> nat) \<Rightarrow> (string \<Rightarrow> string option) \<Rightarrow> bool" where
  "miniz_laws M taken emitted pending inflate \<longleftrightarrow>
     (\<forall>z. mz_deflateInit2 M = Some z \<longrightarrow> taken z = [] \<and> emitted z = []) \<and>
     (\<forall>z bs fin st n out z'. mz_deflate M z bs fin = (st, n, out, z') \<and> st \<noteq> MZ_FAILED \<longrightarrow>
        n \<le> length bs \<and> taken z' = taken z @ take n bs \<and> emitted z' = emitted z @ out) \<and>
     (\<forall>z bs fin n out z'. mz_deflate M z bs fin = (MZ_OK, n, out, z') \<longrightarrow> n > 0 \<or> pending z' < pending z) \<and>
     (\<forall>z bs fin n out z'. mz_deflate M z bs fin = (MZ_STREAM_END, n, out, z') \<longrightarrow>
        fin \<and> n = length bs \<and> inflate (emitted z') = Some (taken z')) \<and>
     (\<forall>c bs cs. mz_crc32 M c (bs @ cs) = mz_crc32 M (mz_crc32 M c bs) cs)"

section \<open>The encoder\<close>

definition writeLittleEndian :: "u32 \<Rightarrow> string" where
  "writeLittleEndian v = map (\<lambda>k. char_of (unat (drop_bit k v AND 255))) [0, 8, 16, 24]"

definition gzipHeader :: string where
  "gzipHeader = map char_of [0x1f, 0x8b, 8, 0, 0, 0, 0, 0, 4, 255 :: nat]"

text \<open>The inner loop: \<open>Some None\<close> is an error of the library.\<close>

partial_function (option) feed :: "'z miniz \<Rightarrow> 'z \<Rightarrow> string \<Rightarrow> string \<Rightarrow> ('z \<times> string) option option" where
  "feed M z bs out =
     (if bs = [] then Some (Some (z, out))
      else (case mz_deflate M z bs False of (st, n, chunk, z') \<Rightarrow>
        if st \<noteq> MZ_OK then Some None else feed M z' (drop n bs) (out @ chunk)))"

text \<open>The loop with \<open>MZ_FINISH\<close>.\<close>

partial_function (option) drain :: "'z miniz \<Rightarrow> 'z \<Rightarrow> string \<Rightarrow> string option option" where
  "drain M z out =
     (case mz_deflate M z [] True of (st, n, chunk, z') \<Rightarrow>
        if st = MZ_FAILED then Some None
        else if st = MZ_STREAM_END then Some (Some (out @ chunk))
        else drain M z' (out @ chunk))"

text \<open>What the \<open>i\<close>-th round of the reading loop meets.\<close>

record pump_step =
  ps_stopping :: bool
  ps_fs :: file_system
  ps_short :: nat

partial_function (option) pump ::
  "'z miniz \<Rightarrow> (nat \<Rightarrow> pump_step) \<Rightarrow> descriptor \<Rightarrow> u64 \<Rightarrow> nat \<Rightarrow> u64 \<Rightarrow> 'z \<Rightarrow> u32 \<Rightarrow> string \<Rightarrow>
     ('z \<times> u32 \<times> string) option option" where
  "pump M env fd len i offset z crc out =
     (if \<not> offset < len then Some (Some (z, crc, out))
      else if ps_stopping (env i) then Some None
      else (case readFileAt (ps_fs (env i)) fd offset (ucast (min 65536 (len - offset))) (ps_short (env i)) of
          None \<Rightarrow> Some None
        | Some bs \<Rightarrow>
            if bs = [] then Some None
            else Option.bind (feed M z bs out) (\<lambda>r. case r of
                None \<Rightarrow> Some None
              | Some (z', out') \<Rightarrow>
                  pump M env fd len (i + 1) (offset + of_nat (length bs)) z' (mz_crc32 M crc bs) out')))"

definition encode :: "'z miniz \<Rightarrow> (nat \<Rightarrow> pump_step) \<Rightarrow> descriptor \<Rightarrow> u64 \<Rightarrow> string option option" where
  "encode M env fd len =
     (case mz_deflateInit2 M of
        None \<Rightarrow> Some None
      | Some z \<Rightarrow>
          Option.bind (pump M env fd len 0 0 z (mz_crc32 M 0 []) []) (\<lambda>r. case r of
              None \<Rightarrow> Some None
            | Some (z', crc, out) \<Rightarrow>
                Option.bind (drain M z' out) (\<lambda>d. case d of
                    None \<Rightarrow> Some None
                  | Some body \<Rightarrow>
                      Some (Some (gzipHeader @ body @ writeLittleEndian crc @ writeLittleEndian (ucast len))))))"

section \<open>Putting it in place\<close>

type_synonym store = "string \<Rightarrow> string option"

datatype dir_action = Put string string | Delete string | Move string string

fun act :: "store \<Rightarrow> dir_action \<Rightarrow> store" where
  "act s (Put name bytes) = s(name \<mapsto> bytes)"
| "act s (Delete name) = s(name := None)"
| "act s (Move old new) = (case s old of None \<Rightarrow> s | Some bytes \<Rightarrow> (s(old := None))(new \<mapsto> bytes))"

text \<open>The answers of the system; \<open>ce_removed\<close> and \<open>ce_renamed\<close> say, for the calls in the order of the
  source, whether they succeed.\<close>

record compress_env =
  ce_open :: file_system
  ce_step :: "nat \<Rightarrow> pump_step"
  ce_last :: file_system
  ce_created :: bool
  ce_written :: bool
  ce_sized :: bool
  ce_oldSized :: bool
  ce_markerWritten :: bool
  ce_removed :: "nat \<Rightarrow> bool"
  ce_renamed :: "nat \<Rightarrow> bool"

definition attempt :: "bool \<Rightarrow> dir_action \<Rightarrow> dir_action list" where
  "attempt ok a = (if ok then [a] else [])"

definition same_version :: "OpenedFileInfo \<Rightarrow> OpenedFileInfo \<Rightarrow> bool" where
  "same_version a b \<longleftrightarrow> fi_size a = fi_size b \<and> modifiedIdentity a = modifiedIdentity b \<and> fileIdentity a = fileIdentity b"

definition recordArtifact :: "u64 \<Rightarrow> CompressionCache \<Rightarrow> bool \<times> CompressionCache" where
  "recordArtifact bytes c =
     (let c = c\<lparr>cc_entries := (if cc_entries c = UINT64_MAX then cc_entries c else cc_entries c + 1),
                cc_bytes := (if bytes > UINT64_MAX - cc_bytes c then UINT64_MAX else cc_bytes c + bytes)\<rparr>
      in (unat (cc_entries c) > kMaximumCacheEntries \<or> cc_bytes c > cc_maxBytes c, c))"

text \<open>The result of \<open>compress\<close>: success, the steps on the directory, the cache, and whether it goes on to
  \<open>maintainCache\<close>.\<close>

type_synonym outcome = "bool \<times> dir_action list \<times> CompressionCache \<times> bool"

definition publish_skip :: "compress_env \<Rightarrow> Job \<Rightarrow> store \<Rightarrow> dir_action list \<Rightarrow> CompressionCache \<Rightarrow> outcome" where
  "publish_skip env job s acts c =
     (let k = jb_key job;
          removedSize = (case s (k @ ''.gz'') of
              None \<Rightarrow> 0 | Some bytes \<Rightarrow> if ce_oldSized env then of_nat (length bytes) else 0) :: u64;
          acts = acts @ attempt (ce_removed env 4) (Delete (k @ ''.gz.tmp'')) @
            attempt (ce_removed env 5) (Delete (k @ ''.gz'')) @ attempt (ce_removed env 6) (Delete (k @ ''.meta'')) @
            [Put (k @ ''.skip.tmp'') (skipIdentity c (jb_source job))]
      in if \<not> ce_markerWritten env then (False, acts @ attempt (ce_removed env 7) (Delete (k @ ''.skip.tmp'')), c, False)
         else (let acts = acts @ attempt (ce_removed env 8) (Delete (k @ ''.skip''))
               in if \<not> ce_renamed env 0 then (False, acts, c, False)
                  else (True, acts @ [Move (k @ ''.skip.tmp'') (k @ ''.skip'')],
                    (if removedSize \<noteq> 0
                     then c\<lparr>cc_entries := (if cc_entries c = 0 then 0 else cc_entries c - 1),
                            cc_bytes := (if removedSize \<ge> cc_bytes c then 0 else cc_bytes c - removedSize)\<rparr>
                     else c), False)))"

definition publish_gzip :: "compress_env \<Rightarrow> Job \<Rightarrow> u64 \<Rightarrow> dir_action list \<Rightarrow> CompressionCache \<Rightarrow> outcome" where
  "publish_gzip env job compressedSize acts c =
     (let k = jb_key job;
          acts = acts @ [Put (k @ ''.meta.tmp'') (jb_identity job)]
      in if \<not> ce_markerWritten env
         then (False, acts @ attempt (ce_removed env 4) (Delete (k @ ''.gz.tmp'')) @
                 attempt (ce_removed env 5) (Delete (k @ ''.meta.tmp'')), c, False)
         else (let acts = acts @ attempt (ce_removed env 6) (Delete (k @ ''.gz''))
               in if \<not> ce_renamed env 0 then (False, acts, c, False)
                  else (let acts = acts @ [Move (k @ ''.gz.tmp'') (k @ ''.gz'')] @
                              attempt (ce_removed env 7) (Delete (k @ ''.meta''))
                        in if \<not> ce_renamed env 1
                           then (False, acts @ attempt (ce_removed env 8) (Delete (k @ ''.gz'')), c, False)
                           else (case recordArtifact compressedSize c of
                               (maintain, c) \<Rightarrow>
                                 (True, acts @ [Move (k @ ''.meta.tmp'') (k @ ''.meta'')] @
                                    attempt (ce_removed env 9) (Delete (k @ ''.skip'')), c, maintain)))))"

definition publish ::
  "compress_env \<Rightarrow> Job \<Rightarrow> OpenedFileInfo \<Rightarrow> descriptor \<Rightarrow> string \<Rightarrow> store \<Rightarrow> dir_action list \<Rightarrow> CompressionCache \<Rightarrow>
     outcome" where
  "publish env job before fd gzip s acts c =
     (let undone = (False, acts @ attempt (ce_removed env 3) (Delete (jb_key job @ ''.gz.tmp'')), c, False)
      in if \<not> ce_written env then undone
         else (case inspectReadFile (ce_last env) fd (cs_path (jb_source job)) of
             None \<Rightarrow> undone
           | Some after \<Rightarrow>
               if \<not> same_version after before then undone
               else if \<not> ce_sized env then (False, acts, c, False)
               else (let compressedSize = of_nat (length gzip)
                     in if compressedSize > cc_maxBytes c \<or> compressedSize \<ge> fi_size before - fi_size before div 20
                        then publish_skip env job s acts c
                        else publish_gzip env job compressedSize acts c)))"

definition compress :: "'z miniz \<Rightarrow> compress_env \<Rightarrow> Job \<Rightarrow> store \<Rightarrow> CompressionCache \<Rightarrow> outcome option" where
  "compress M env job s c =
     (case openReadFile (ce_open env) (cs_path (jb_source job)) of
        None \<Rightarrow> Some (False, [], c, False)
      | Some fd \<Rightarrow>
          (case inspectReadFile (ce_open env) fd (cs_path (jb_source job)) of
             None \<Rightarrow> Some (False, [], c, False)
           | Some before \<Rightarrow>
               if \<not> same_version before (cs_info (jb_source job)) then Some (False, [], c, False)
               else (let k = jb_key job;
                         acts = attempt (ce_removed env 0) (Delete (k @ ''.gz.tmp'')) @
                           attempt (ce_removed env 1) (Delete (k @ ''.meta.tmp'')) @
                           attempt (ce_removed env 2) (Delete (k @ ''.skip.tmp''))
                     in if \<not> ce_created env then Some (False, acts, c, False)
                        else Option.bind (encode M (ce_step env) fd (fi_size before)) (\<lambda>e. case e of
                            None \<Rightarrow> Some (False, acts @ Put (k @ ''.gz.tmp'') [] #
                              attempt (ce_removed env 3) (Delete (k @ ''.gz.tmp'')), c, False)
                          | Some gzip \<Rightarrow>
                              Some (publish env job before fd gzip s (acts @ [Put (k @ ''.gz.tmp'') gzip]) c)))))"

section \<open>The loops end\<close>

text \<open>What a decoder makes of a \<^verbatim>\<open>.gz\<close> file: the fixed header, the deflated body, the checksum and the length
  modulo \<open>2 ^ 32\<close>.\<close>

definition gunzip :: "'z miniz \<Rightarrow> (string \<Rightarrow> string option) \<Rightarrow> string \<Rightarrow> string option" where
  "gunzip M inflate gz =
     (if length gz < 18 \<or> take 10 gz \<noteq> gzipHeader then None
      else (case inflate (take (length gz - 18) (drop 10 gz)) of
          None \<Rightarrow> None
        | Some bs \<Rightarrow>
            if drop (length gz - 8) gz = writeLittleEndian (mz_crc32 M 0 bs) @ writeLittleEndian (of_nat (length bs))
            then Some bs else None))"

lemma writeLittleEndian_length [simp]: "length (writeLittleEndian v) = 4"
  by (simp add: writeLittleEndian_def)

lemma gzipHeader_length [simp]: "length gzipHeader = 10"
  by (simp add: gzipHeader_def)

lemma gunzip_parts:
  assumes "inflate body = Some bs" "crc = mz_crc32 M 0 bs" "size32 = of_nat (length bs)"
  shows "gunzip M inflate (gzipHeader @ body @ writeLittleEndian crc @ writeLittleEndian size32) = Some bs"
  using assms by (simp add: gunzip_def)

lemma miniz_call:
  assumes "miniz_laws M taken emitted pending inflate" "mz_deflate M z bs fin = (st, n, out, z')" "st \<noteq> MZ_FAILED"
  shows "n \<le> length bs" "taken z' = taken z @ take n bs" "emitted z' = emitted z @ out"
    "st = MZ_OK \<Longrightarrow> n > 0 \<or> pending z' < pending z"
    "st = MZ_STREAM_END \<Longrightarrow> n = length bs \<and> inflate (emitted z') = Some (taken z')"
  using assms unfolding miniz_laws_def by metis+

text \<open>Each loop returns, and when it succeeds, the stream has consumed all it was given and the output
  is all it produced.\<close>

lemma feed_total:
  assumes "miniz_laws M taken emitted pending inflate" "emitted z = out"
  shows "\<exists>r. feed M z bs out = Some r \<and>
    (\<forall>z' out'. r = Some (z', out') \<longrightarrow> taken z' = taken z @ bs \<and> emitted z' = out')"
  using assms(2)
proof (induction "(length bs, pending z)" arbitrary: bs z out
    rule: wf_induct_rule [OF wf_lex_prod [OF wf_less_than wf_less_than]])
  case 1
  show ?case
  proof (cases "bs = []")
    case True
    with 1(2) show ?thesis by (simp add: feed.simps)
  next
    case False
    obtain st n chunk z' where call: "mz_deflate M z bs False = (st, n, chunk, z')" using prod_cases4 by blast
    note law = miniz_call [OF assms(1) call]
    show ?thesis
    proof (cases "st = MZ_OK")
      case False
      with \<open>bs \<noteq> []\<close> call show ?thesis by (simp add: feed.simps)
    next
      case True
      then have "((length (drop n bs), pending z'), (length bs, pending z)) \<in> less_than <*lex*> less_than"
        using law(1,4) \<open>bs \<noteq> []\<close> by auto
      from 1(1) [OF this, of "out @ chunk"] law(3) 1(2) True
      obtain r where "feed M z' (drop n bs) (out @ chunk) = Some r"
        "\<forall>z'' out'. r = Some (z'', out') \<longrightarrow> taken z'' = taken z' @ drop n bs \<and> emitted z'' = out'" by auto
      moreover have "taken z' @ drop n bs = taken z @ bs" using law(2) True by simp
      ultimately show ?thesis using \<open>bs \<noteq> []\<close> call True by (simp add: feed.simps [of M z])
    qed
  qed
qed

lemma drain_total:
  assumes "miniz_laws M taken emitted pending inflate" "emitted z = out"
  shows "\<exists>r. drain M z out = Some r \<and> (\<forall>body. r = Some body \<longrightarrow> inflate body = Some (taken z))"
  using assms(2)
proof (induction "pending z" arbitrary: z out rule: less_induct)
  case less
  obtain st n chunk z' where call: "mz_deflate M z [] True = (st, n, chunk, z')" using prod_cases4 by blast
  note law = miniz_call [OF assms(1) call]
  show ?case
  proof (cases st)
    case MZ_OK
    with law less.prems have z': "pending z' < pending z" "emitted z' = out @ chunk" "taken z' = taken z" by auto
    from less.hyps [OF z'(1,2)] z'(3) call MZ_OK show ?thesis by (simp add: drain.simps [of M z])
  next
    case MZ_STREAM_END
    with law less.prems call show ?thesis by (simp add: drain.simps [of M z])
  next
    case MZ_FAILED
    with call show ?thesis by (simp add: drain.simps [of M z])
  qed
qed

lemma read_chunk:
  assumes "readFileAt fs fd offset (ucast (min 65536 (len - offset))) short = Some bs" "offset < len" "bs \<noteq> []"
  shows "unat (offset + of_nat (length bs)) = unat offset + length bs"
    "unat offset + length bs \<le> unat len"
    "fd = Regular i \<Longrightarrow> bs = take (length bs) (drop (unat offset) (st_bytes (fs_inode fs i)))"
proof -
  let ?n = "ucast (min 65536 (len - offset)) :: size_t"
  obtain j where j: "fd = Regular j" "bs = take (unat ?n - short) (drop (unat offset) (st_bytes (fs_inode fs j)))"
    using assms(1) by (auto simp: readFileAt_def split: if_splits node.splits)
  have "unat ?n \<le> unat (min 65536 (len - offset))" by (simp add: unsigned_ucast_eq take_bit_nat_less_eq_self)
  also have "\<dots> \<le> unat (len - offset)" by (simp add: word_le_nat_alt [symmetric])
  also have "\<dots> = unat len - unat offset" using assms(2) by (simp add: unat_sub less_imp_le)
  finally have n: "length bs \<le> unat len - unat offset" using j(2) by simp
  moreover have "unat offset \<le> unat len" using assms(2) by (simp add: word_less_nat_alt)
  ultimately show le: "unat offset + length bs \<le> unat len" by simp
  have "length bs < 2 ^ 64" using le unsigned_less [of len, where 'a = nat] by simp
  then have "unat (of_nat (length bs) :: u64) = length bs" by (simp add: unsigned_of_nat take_bit_nat_eq_self)
  then show "unat (offset + of_nat (length bs)) = unat offset + length bs"
    using le unsigned_less [of len, where 'a = nat] by (subst unat_plus_if') simp
  show "bs = take (length bs) (drop (unat offset) (st_bytes (fs_inode fs i)))" if "fd = Regular i"
  proof -
    have "take (length (take m xs)) xs = take m xs" for m and xs :: string by (induction xs arbitrary: m) (auto simp: take_Cons' min_def)
    from this [of "unat ?n - short" "drop (unat offset) (st_bytes (fs_inode fs i))"] j that show ?thesis by simp
  qed
qed

text \<open>The reads deliver a fixed content.\<close>

definition stable :: "(nat \<Rightarrow> pump_step) \<Rightarrow> descriptor \<Rightarrow> string \<Rightarrow> bool" where
  "stable env fd bs \<longleftrightarrow> (\<exists>i. fd = Regular i \<and> (\<forall>n. st_bytes (fs_inode (ps_fs (env n)) i) = bs))"

lemma pump_keeps:
  assumes "miniz_laws M taken emitted pending inflate"
    and "readFileAt (ps_fs (env n)) fd offset (ucast (min 65536 (len - offset))) short = Some chunk" "offset < len" "chunk \<noteq> []"
    and "stable env fd bs" "taken z = take (unat offset) bs" "crc = mz_crc32 M 0 (taken z)" "taken z1 = taken z @ chunk"
  shows "offset + of_nat (length chunk) \<le> len \<and> taken z1 = take (unat (offset + of_nat (length chunk))) bs \<and>
    mz_crc32 M crc chunk = mz_crc32 M 0 (taken z1)"
proof (intro conjI)
  note rd = read_chunk [OF assms(2-4)]
  show "offset + of_nat (length chunk) \<le> len" using rd(1,2) by (simp add: word_le_nat_alt)
  have "\<exists>k. fd = Regular k \<and> st_bytes (fs_inode (ps_fs (env n)) k) = bs" using assms(5) unfolding stable_def by blast
  then have "chunk = take (length chunk) (drop (unat offset) bs)" using rd(3) by blast
  then show "taken z1 = take (unat (offset + of_nat (length chunk))) bs" using assms(6,8) rd(1) by (simp add: take_add)
  show "mz_crc32 M crc chunk = mz_crc32 M 0 (taken z1)" using assms(1,7,8) by (simp add: miniz_laws_def)
qed

lemma pump_total:
  assumes laws: "miniz_laws M taken emitted pending inflate" and out: "emitted z = out"
  shows "\<exists>r. pump M env fd len i offset z crc out = Some r \<and>
    (\<forall>z' crc' out'. r = Some (z', crc', out') \<longrightarrow> emitted z' = out' \<and>
       (\<forall>bs. stable env fd bs \<and> unat len = length bs \<and> offset \<le> len \<and> taken z = take (unat offset) bs \<and>
          crc = mz_crc32 M 0 (taken z) \<longrightarrow> taken z' = bs \<and> crc' = mz_crc32 M 0 bs))"
  using out
proof (induction "unat len - unat offset" arbitrary: i offset z crc out rule: less_induct)
  case less
  show ?case
  proof (cases "offset < len")
    case False
    then have "unat len \<le> unat offset" by (simp add: word_less_nat_alt)
    with less.prems False show ?thesis by (auto simp: pump.simps [of M env fd len i])
  next
    case True
    show ?thesis
    proof (cases "ps_stopping (env i)")
      case True
      with \<open>offset < len\<close> show ?thesis by (simp add: pump.simps [of M env fd len i])
    next
      case run: False
      show ?thesis
      proof (cases "readFileAt (ps_fs (env i)) fd offset (ucast (min 65536 (len - offset))) (ps_short (env i))")
        case None
        with run True show ?thesis by (simp add: pump.simps [of M env fd len i])
      next
        case (Some chunk)
        show ?thesis
        proof (cases "chunk = []")
          case True
          with run \<open>offset < len\<close> Some show ?thesis by (simp add: pump.simps [of M env fd len i])
        next
          case False
          note rd = read_chunk [OF Some True False]
          obtain fr where fr: "feed M z chunk out = Some fr"
            "\<forall>z' out'. fr = Some (z', out') \<longrightarrow> taken z' = taken z @ chunk \<and> emitted z' = out'"
            using feed_total [OF laws less.prems] by blast
          show ?thesis
          proof (cases fr)
            case None
            with run \<open>offset < len\<close> Some False fr(1) show ?thesis by (simp add: pump.simps [of M env fd len i])
          next
            case fed: (Some zo)
            obtain z1 out1 where zo: "zo = (z1, out1)" by (cases zo)
            with fr(2) fed have z1: "taken z1 = taken z @ chunk" "emitted z1 = out1" by auto
            let ?off = "offset + of_nat (length chunk)"
            have "unat len - unat ?off < unat len - unat offset" using rd(1,2) False by (cases chunk) auto
            from less.hyps [OF this z1(2), of "i + 1" "mz_crc32 M crc chunk"]
            obtain r where r: "pump M env fd len (i + 1) ?off z1 (mz_crc32 M crc chunk) out1 = Some r"
              "\<forall>z' crc' out'. r = Some (z', crc', out') \<longrightarrow> emitted z' = out' \<and>
                 (\<forall>bs. stable env fd bs \<and> unat len = length bs \<and> ?off \<le> len \<and> taken z1 = take (unat ?off) bs \<and>
                    mz_crc32 M crc chunk = mz_crc32 M 0 (taken z1) \<longrightarrow> taken z' = bs \<and> crc' = mz_crc32 M 0 bs)" by blast
            note keeps = pump_keeps [where env = env and n = i and fd = fd and len = len and offset = offset and taken = taken, OF laws Some True False _ _ _ z1(1)]
            have "pump M env fd len i offset z crc out = Some r" using run True Some False fr(1) fed zo r(1) by (simp add: pump.simps [of M env fd len i])
            with r(2) z1(1) keeps show ?thesis by blast
          qed
        qed
      qed
    qed
  qed
qed

lemma encode_total:
  assumes laws: "miniz_laws M taken emitted pending inflate"
  shows "\<exists>r. encode M env fd len = Some r \<and>
    (\<forall>gz bs. r = Some gz \<and> stable env fd bs \<and> unat len = length bs \<longrightarrow>
       gunzip M inflate gz = Some bs)"
proof (cases "mz_deflateInit2 M")
  case None
  then show ?thesis by (simp add: encode_def)
next
  case (Some z)
  then have z: "taken z = []" "emitted z = []" using laws by (simp_all add: miniz_laws_def)
  have c0: "mz_crc32 M 0 [] = mz_crc32 M 0 (taken z)" by (simp add: z(1))
  obtain r where pumped: "pump M env fd len 0 0 z (mz_crc32 M 0 []) [] = Some r"
    "\<And>z' crc' out'. r = Some (z', crc', out') \<Longrightarrow> emitted z' = out' \<and>
       (\<forall>bs. stable env fd bs \<and> unat len = length bs \<longrightarrow> taken z' = bs \<and> crc' = mz_crc32 M 0 bs)"
    using pump_total [OF laws z(2), of env fd len 0 0 "mz_crc32 M 0 []"] z(1) by auto
  show ?thesis
  proof (cases r)
    case None
    with Some pumped(1) show ?thesis by (simp add: encode_def)
  next
    case rSome: (Some t)
    obtain z' crc' out' where t: "t = (z', crc', out')" using prod_cases3 by blast
    with rSome pumped(2) have z': "emitted z' = out'"
      "\<And>bs. stable env fd bs \<and> unat len = length bs \<Longrightarrow> taken z' = bs \<and> crc' = mz_crc32 M 0 bs" by auto
    obtain d where d: "drain M z' out' = Some d" "\<forall>body. d = Some body \<longrightarrow> inflate body = Some (taken z')"
      using drain_total [OF laws z'(1)] by blast
    have len: "(ucast len :: u32) = of_nat (length bs)" if "unat len = length bs" for bs
      by (simp flip: that)
    show ?thesis
    proof (cases d)
      case None
      with Some pumped(1) rSome t d(1) show ?thesis by (simp add: encode_def)
    next
      case body: (Some body)
      have "encode M env fd len = Some (Some (gzipHeader @ body @ writeLittleEndian crc' @ writeLittleEndian (ucast len)))"
        using Some pumped(1) rSome t d(1) body by (simp add: encode_def)
      moreover have "gunzip M inflate (gzipHeader @ body @ writeLittleEndian crc' @ writeLittleEndian (ucast len)) = Some bs"
        if "stable env fd bs" "unat len = length bs" for bs
        using gunzip_parts z'(2) [OF conjI [OF that]] d(2) body len [OF that(2)] by blast
      ultimately show ?thesis by blast
    qed
  qed
qed

section \<open>The directory between the steps\<close>

text \<open>\<open>keeps P s acts\<close>: the assertion holds before the first step, between the steps and after the last.
  \<open>triple P Q acts\<close> also says where the list of steps leads, so that lists compose.\<close>

fun keeps :: "(store \<Rightarrow> bool) \<Rightarrow> store \<Rightarrow> dir_action list \<Rightarrow> bool" where
  "keeps I s [] = I s"
| "keeps I s (a # as) = (I s \<and> keeps I (act s a) as)"

definition triple :: "(store \<Rightarrow> bool) \<Rightarrow> (store \<Rightarrow> bool) \<Rightarrow> dir_action list \<Rightarrow> (store \<Rightarrow> bool) \<Rightarrow> bool" where
  "triple I P as Q \<longleftrightarrow> (\<forall>s. P s \<longrightarrow> keeps I s as \<and> Q (foldl act s as))"

lemma keeps_append: "keeps I s (as @ bs) \<longleftrightarrow> keeps I s as \<and> keeps I (foldl act s as) bs"
  by (induction as arbitrary: s) (auto elim: keeps.elims)

lemma keeps_take: "keeps I s as \<Longrightarrow> I (foldl act s (take n as))"
proof (induction as arbitrary: s n)
  case (Cons a as)
  then show ?case by (cases n) auto
qed simp

lemma triple_append: "triple I P as Q \<Longrightarrow> triple I Q bs R \<Longrightarrow> triple I P (as @ bs) R"
  by (simp add: triple_def keeps_append)

lemma triple_Nil: "(\<And>s. P s \<Longrightarrow> I s \<and> Q s) \<Longrightarrow> triple I P [] Q"
  by (simp add: triple_def)

lemma triple_act: "(\<And>s. P s \<Longrightarrow> I s \<and> I (act s a) \<and> Q (act s a)) \<Longrightarrow> triple I P [a] Q"
  by (simp add: triple_def)

lemma triple_attempt: "(\<And>s. P s \<Longrightarrow> I s \<and> Q s \<and> I (act s a) \<and> Q (act s a)) \<Longrightarrow> triple I P (attempt ok a) Q"
  by (simp add: triple_def attempt_def)

lemma triple_weaken: "triple I P as Q \<Longrightarrow> (\<And>s. Q s \<Longrightarrow> R s) \<Longrightarrow> triple I P as R"
  by (simp add: triple_def)

text \<open>What is promised of the directory at all times, for one version of a source: a \<^verbatim>\<open>.gz\<close> beside the
  version's \<^verbatim>\<open>.meta\<close> is good, and files of other keys are untouched.\<close>

definition suffixes :: "string list" where
  "suffixes = [''.gz'', ''.meta'', ''.skip'', ''.gz.tmp'', ''.meta.tmp'', ''.skip.tmp'']"

definition sound :: "(string \<Rightarrow> bool) \<Rightarrow> Job \<Rightarrow> store \<Rightarrow> store \<Rightarrow> bool" where
  "sound good job s0 s \<longleftrightarrow>
     (s (jb_key job @ ''.meta'') = Some (jb_identity job) \<longrightarrow>
       (\<forall>gz. s (jb_key job @ ''.gz'') = Some gz \<longrightarrow> good gz)) \<and>
     (\<forall>name. name \<notin> (\<lambda>e. jb_key job @ e) ` set suffixes \<longrightarrow> s name = s0 name)"

text \<open>What a successful \<open>compress\<close> leaves.\<close>

definition published :: "(string \<Rightarrow> bool) \<Rightarrow> u64 \<Rightarrow> CompressionCache \<Rightarrow> Job \<Rightarrow> store \<Rightarrow> bool" where
  "published good sourceSize c job s \<longleftrightarrow>
     (\<exists>gz. s (jb_key job @ ''.meta'') = Some (jb_identity job) \<and> s (jb_key job @ ''.gz'') = Some gz \<and> good gz \<and>
        (of_nat (length gz) :: u64) \<le> cc_maxBytes c \<and>
        (of_nat (length gz) :: u64) < sourceSize - sourceSize div 20) \<or>
     s (jb_key job @ ''.skip'') = Some (skipIdentity c (jb_source job))"

lemmas store_step = sound_def suffixes_def published_def

lemma cleanup_triple:
  "triple (sound good job s0) (sound good job s0)
     (attempt a (Delete (jb_key job @ ''.gz.tmp'')) @ attempt b (Delete (jb_key job @ ''.meta.tmp'')) @
      attempt d (Delete (jb_key job @ ''.skip.tmp''))) (sound good job s0)"
  by (intro triple_append triple_attempt) (auto simp: store_step)

lemma skip_triple:
  assumes "publish_skip env job s acts c = (ok, acts', c', m)"
  shows "\<exists>as. acts' = acts @ as \<and>
    triple (sound good job s0) (sound good job s0) as
      (\<lambda>s. sound good job s0 s \<and> (ok \<longrightarrow> published good n c job s))"
proof -
  let ?k = "jb_key job" and ?S = "sound good job s0"
  let ?as = "attempt (ce_removed env 4) (Delete (?k @ ''.gz.tmp'')) @
    attempt (ce_removed env 5) (Delete (?k @ ''.gz'')) @ attempt (ce_removed env 6) (Delete (?k @ ''.meta'')) @
    [Put (?k @ ''.skip.tmp'') (skipIdentity c (jb_source job))]"
  let ?P = "\<lambda>s. ?S s \<and> s (?k @ ''.skip.tmp'') = Some (skipIdentity c (jb_source job))"
  have pre: "triple ?S ?S ?as ?P"
    by (intro triple_append [where Q = ?S] triple_attempt triple_act) (auto simp: store_step)
  have drop: "triple ?S ?P (attempt b (Delete (?k @ ''.skip.tmp''))) ?S" for b
    by (rule triple_attempt) (auto simp: store_step)
  have old: "triple ?S ?P (attempt b (Delete (?k @ ''.skip''))) ?P" for b
    by (rule triple_attempt) (auto simp: store_step)
  have move: "triple ?S ?P [Move (?k @ ''.skip.tmp'') (?k @ ''.skip'')] (\<lambda>s. ?S s \<and> published good n c job s)"
    by (rule triple_act) (auto simp: store_step)
  let ?R = "\<lambda>s. ?S s \<and> (ok \<longrightarrow> published good n c job s)"
  show ?thesis
  proof (cases "ce_markerWritten env")
    case False
    with assms have eq: "acts' = acts @ ?as @ attempt (ce_removed env 7) (Delete (?k @ ''.skip.tmp''))" "\<not> ok"
      by (auto simp: publish_skip_def Let_def)
    have "triple ?S ?S (?as @ attempt (ce_removed env 7) (Delete (?k @ ''.skip.tmp''))) ?R"
      by (rule triple_weaken [OF triple_append [OF pre drop]]) (use eq(2) in blast)
    with eq(1) show ?thesis by blast
  next
    case True
    show ?thesis
    proof (cases "ce_renamed env 0")
      case False
      with assms True have eq: "acts' = acts @ ?as @ attempt (ce_removed env 8) (Delete (?k @ ''.skip''))" "\<not> ok"
        by (auto simp: publish_skip_def Let_def)
      have "triple ?S ?S (?as @ attempt (ce_removed env 8) (Delete (?k @ ''.skip''))) ?R"
        by (rule triple_weaken [OF triple_append [OF pre old]]) (use eq(2) in blast)
      with eq(1) show ?thesis by blast
    next
      case ren: True
      with assms True have eq: "acts' = acts @ ?as @ attempt (ce_removed env 8) (Delete (?k @ ''.skip'')) @
        [Move (?k @ ''.skip.tmp'') (?k @ ''.skip'')]" by (auto simp: publish_skip_def Let_def)
      have "triple ?S ?S (?as @ attempt (ce_removed env 8) (Delete (?k @ ''.skip'')) @
        [Move (?k @ ''.skip.tmp'') (?k @ ''.skip'')]) ?R"
        by (rule triple_weaken [OF triple_append [OF pre triple_append [OF old move]]]) blast
      with eq show ?thesis by blast
    qed
  qed
qed

lemma gzip_triple:
  assumes "publish_gzip env job (of_nat (length gz)) acts c = (ok, acts', c', m)" and "good gz"
    and "(of_nat (length gz) :: u64) \<le> cc_maxBytes c" "(of_nat (length gz) :: u64) < n - n div 20"
  shows "\<exists>as. acts' = acts @ as \<and>
    triple (sound good job s0) (\<lambda>s. sound good job s0 s \<and> s (jb_key job @ ''.gz.tmp'') = Some gz) as
      (\<lambda>s. sound good job s0 s \<and> (ok \<longrightarrow> published good n c job s))"
proof -
  let ?k = "jb_key job" and ?S = "sound good job s0"
  let ?G = "\<lambda>s. ?S s \<and> s (?k @ ''.gz.tmp'') = Some gz"
  let ?M = "\<lambda>s. ?G s \<and> s (?k @ ''.meta.tmp'') = Some (jb_identity job)"
  let ?N = "\<lambda>s. ?S s \<and> s (?k @ ''.gz'') = Some gz \<and> s (?k @ ''.meta.tmp'') = Some (jb_identity job)"
  let ?L = "\<lambda>s. ?S s \<and> s (?k @ ''.meta'') = Some (jb_identity job) \<and> s (?k @ ''.gz'') = Some gz"
  let ?Q = "\<lambda>s. ?S s \<and> (ok \<longrightarrow> published good n c job s)"
  let ?meta = "[Put (?k @ ''.meta.tmp'') (jb_identity job)]"
    and ?move = "attempt (ce_removed env 6) (Delete (?k @ ''.gz'')) @ [Move (?k @ ''.gz.tmp'') (?k @ ''.gz'')] @
      attempt (ce_removed env 7) (Delete (?k @ ''.meta''))"
    and ?last = "[Move (?k @ ''.meta.tmp'') (?k @ ''.meta'')] @ attempt (ce_removed env 9) (Delete (?k @ ''.skip''))"
  have meta: "triple ?S ?G ?meta ?M" by (rule triple_act) (auto simp: store_step)
  have giveUp: "triple ?S ?M (attempt (ce_removed env 4) (Delete (?k @ ''.gz.tmp'')) @
      attempt (ce_removed env 5) (Delete (?k @ ''.meta.tmp''))) ?S"
    by (rule triple_append [where Q = ?S]; rule triple_attempt) (auto simp: store_step)
  have old: "triple ?S ?M (attempt (ce_removed env 6) (Delete (?k @ ''.gz''))) ?M"
    by (rule triple_attempt) (auto simp: store_step)
  have move: "triple ?S ?M ?move ?N"
    by (intro triple_append [OF old] triple_append [where Q = ?N] triple_attempt triple_act)
      (auto simp: store_step assms(2))
  have undo: "triple ?S ?N (attempt (ce_removed env 8) (Delete (?k @ ''.gz''))) ?S"
    by (rule triple_attempt) (auto simp: store_step)
  have last: "triple ?S ?N ?last ?L"
    by (intro triple_append [where Q = ?L] triple_attempt triple_act) (auto simp: store_step assms(2))
  show ?thesis
  proof (cases "ce_markerWritten env")
    case False
    with assms(1) have eq: "acts' = acts @ ?meta @ attempt (ce_removed env 4) (Delete (?k @ ''.gz.tmp'')) @
        attempt (ce_removed env 5) (Delete (?k @ ''.meta.tmp''))" "\<not> ok" by (auto simp: publish_gzip_def Let_def)
    have "triple ?S ?G (?meta @ attempt (ce_removed env 4) (Delete (?k @ ''.gz.tmp'')) @
        attempt (ce_removed env 5) (Delete (?k @ ''.meta.tmp''))) ?Q"
      by (rule triple_weaken [OF triple_append [OF meta giveUp]]) (use eq(2) in blast)
    with eq(1) show ?thesis by blast
  next
    case written: True
    consider "\<not> ce_renamed env 0" | "ce_renamed env 0" "\<not> ce_renamed env 1" | "ce_renamed env 0" "ce_renamed env 1" by blast
    then show ?thesis
    proof cases
      case 1
      with assms(1) written have eq: "acts' = acts @ ?meta @ attempt (ce_removed env 6) (Delete (?k @ ''.gz''))" "\<not> ok"
        by (auto simp: publish_gzip_def Let_def)
      have "triple ?S ?G (?meta @ attempt (ce_removed env 6) (Delete (?k @ ''.gz''))) ?Q"
        by (rule triple_weaken [OF triple_append [OF meta old]]) (use eq(2) in blast)
      with eq(1) show ?thesis by blast
    next
      case 2
      with assms(1) written have eq: "acts' = acts @ ?meta @ ?move @ attempt (ce_removed env 8) (Delete (?k @ ''.gz''))"
        "\<not> ok" by (auto simp: publish_gzip_def Let_def)
      have "triple ?S ?G (?meta @ ?move @ attempt (ce_removed env 8) (Delete (?k @ ''.gz''))) ?Q"
        by (rule triple_weaken [OF triple_append [OF meta triple_append [OF move undo]]]) (use eq(2) in blast)
      with eq(1) show ?thesis by blast
    next
      case 3
      with assms(1) written have eq: "acts' = acts @ ?meta @ ?move @ ?last"
        by (auto simp: publish_gzip_def Let_def split: prod.splits)
      have "triple ?S ?G (?meta @ ?move @ ?last) ?Q"
        by (rule triple_weaken [OF triple_append [OF meta triple_append [OF move last]]])
          (use assms(2-4) in \<open>auto simp: published_def\<close>)
      with eq show ?thesis by blast
    qed
  qed
qed

lemma triple_strengthen: "triple I P as Q \<Longrightarrow> (\<And>s. P' s \<Longrightarrow> P s) \<Longrightarrow> triple I P' as Q"
  by (simp add: triple_def)

lemma publish_triple:
  assumes "publish env job before fd gz s acts c = (ok, acts', c', m)" and "good gz"
  shows "\<exists>as. acts' = acts @ as \<and>
    triple (sound good job s0) (\<lambda>s. sound good job s0 s \<and> s (jb_key job @ ''.gz.tmp'') = Some gz) as
      (\<lambda>s. sound good job s0 s \<and> (ok \<longrightarrow> published good (fi_size before) c job s))"
    (is "\<exists>as. _ \<and> triple ?S ?G as ?Q")
proof -
  let ?n = "of_nat (length gz) :: u64" and ?k = "jb_key job"
  have away: "triple ?S ?G (attempt b (Delete (?k @ ''.gz.tmp''))) ?S" for b
    by (rule triple_attempt) (auto simp: store_step)
  consider (undone) "\<not> ok" "acts' = acts @ attempt (ce_removed env 3) (Delete (?k @ ''.gz.tmp''))"
    | (unsized) "\<not> ok" "acts' = acts"
    | (skip) "publish_skip env job s acts c = (ok, acts', c', m)"
    | (gzip) "publish_gzip env job ?n acts c = (ok, acts', c', m)" "?n \<le> cc_maxBytes c"
        "?n < fi_size before - fi_size before div 20"
    using assms(1) by (auto simp: publish_def Let_def not_less not_le split: if_splits option.splits)
  then show ?thesis
  proof cases
    case undone
    have "triple ?S ?G (attempt (ce_removed env 3) (Delete (?k @ ''.gz.tmp''))) ?Q"
      by (rule triple_weaken [OF away]) (use undone(1) in blast)
    with undone(2) show ?thesis by blast
  next
    case unsized
    moreover have "triple ?S ?G [] ?Q" by (rule triple_Nil) (use unsized in blast)
    ultimately show ?thesis by (intro exI [of _ "[]"]) simp
  next
    case skip
    from skip_triple [OF this, of good s0 "fi_size before"] obtain as where as: "acts' = acts @ as" "triple ?S ?S as ?Q"
      by blast
    have "triple ?S ?G as ?Q" by (rule triple_strengthen [OF as(2)]) blast
    with as(1) show ?thesis by blast
  next
    case gzip
    from gzip_triple [where good = good, OF gzip(1) assms(2) gzip(2,3)] show ?thesis .
  qed
qed

text \<open>Whatever the files, the interruptions and the short reads: as long as the library makes progress, \<open>compress\<close>
  returns.\<close>

lemma compress_total:
  assumes "miniz_laws M taken emitted pending inflate"
  shows "\<exists>r. compress M env job s c = Some r"
proof -
  have "\<forall>fd len. \<exists>e. encode M (ce_step env) fd len = Some e" using encode_total [OF assms] by blast
  then obtain e where "encode M (ce_step env) fd len = Some (e fd len)" for fd len by metis
  then have "compress M env job s c \<noteq> None" by (simp add: compress_def Let_def del: not_None_eq split: option.splits)
  then show ?thesis by blast
qed

section \<open>Properties\<close>

text \<open>C28. Publication is all or nothing. Take a file whose content stays the same while it is read, and
  a directory where the version's representation, if there is one, decompresses to that
  content. Then at every point while \<open>compress\<close> works, and after it was interrupted anywhere, a
  \<^verbatim>\<open>.gz\<close> that stands beside the version's \<^verbatim>\<open>.meta\<close> is a complete gzip file of that content, and the files of other keys
  are untouched; when it succeeds, either such a pair is in place, within the limit and less
  than 95 % of the source's size, or the file is marked as not worth compressing.\<close>

theorem publication_sound:
  fixes M inflate bs
  defines "good \<equiv> \<lambda>gz. gunzip M inflate gz = Some bs"
  assumes "miniz_laws M taken emitted pending inflate"
    and "compress M env job s c = Some (ok, acts, c', m)"
    and "openReadFile (ce_open env) (cs_path (jb_source job)) = Some (Regular i)"
    and "st_bytes (fs_inode (ce_open env) i) = bs" "length bs < 2 ^ 64"
    and "\<forall>n. st_bytes (fs_inode (ps_fs (ce_step env n)) i) = bs"
    and "sound good job s s"
  shows "(\<forall>n. sound good job s (foldl act s (take n acts))) \<and>
    (ok \<longrightarrow> published good (fi_size (cs_info (jb_source job))) c job (foldl act s acts))"
proof -
  let ?S = "sound good job s" and ?k = "jb_key job" and ?n = "fi_size (cs_info (jb_source job))"
  let ?Q = "\<lambda>t. ?S t \<and> (ok \<longrightarrow> published good ?n c job t)"
  let ?clean = "attempt (ce_removed env 0) (Delete (?k @ ''.gz.tmp'')) @
    attempt (ce_removed env 1) (Delete (?k @ ''.meta.tmp'')) @ attempt (ce_removed env 2) (Delete (?k @ ''.skip.tmp''))"
  note clean = cleanup_triple [of good job s "ce_removed env 0" "ce_removed env 1" "ce_removed env 2"]
  have "triple ?S ?S acts ?Q"
  proof (cases "inspectReadFile (ce_open env) (Regular i) (cs_path (jb_source job))")
    case None
    with assms(3,4) show ?thesis by (auto simp: compress_def intro: triple_Nil)
  next
    case (Some before)
    have len: "unat (fi_size before) = length bs"
      using Some assms(5,6) by (auto simp: inspectReadFile_def info_of_def inode_size_def Let_def
          unsigned_of_nat take_bit_nat_eq_self split: sum.splits if_splits)
    have st: "stable (ce_step env) (Regular i) bs" using assms(7) by (auto simp: stable_def)
    obtain e where e: "encode M (ce_step env) (Regular i) (fi_size before) = Some e" "\<And>gz. e = Some gz \<Longrightarrow> good gz"
      using encode_total [OF assms(2), of "ce_step env" "Regular i" "fi_size before"] st len
      unfolding good_def by blast
    show ?thesis
    proof (cases "same_version before (cs_info (jb_source job)) \<and> ce_created env")
      case False
      with assms(3,4) Some clean show ?thesis
        by (auto simp: compress_def Let_def triple_weaken intro: triple_Nil split: if_splits)
    next
      case True
      then have n: "fi_size before = ?n" by (simp add: same_version_def)
      have tmp: "triple ?S ?S [Put (?k @ ''.gz.tmp'') b] (\<lambda>t. ?S t \<and> t (?k @ ''.gz.tmp'') = Some b)" for b
        by (rule triple_act) (auto simp: store_step)
      show ?thesis
      proof (cases e)
        case None
        have undone: "triple ?S (\<lambda>t. ?S t \<and> t (?k @ ''.gz.tmp'') = Some [])
            (attempt (ce_removed env 3) (Delete (?k @ ''.gz.tmp''))) ?S"
          by (rule triple_attempt) (auto simp: store_step)
        from assms(3,4) Some True e(1) None have "\<not> ok" "acts = ?clean @ [Put (?k @ ''.gz.tmp'') []] @
            attempt (ce_removed env 3) (Delete (?k @ ''.gz.tmp''))" by (auto simp: compress_def Let_def)
        with triple_weaken [OF triple_append [OF clean triple_append [OF tmp undone]], of ?Q] show ?thesis by simp
      next
        case gz: (Some gz)
        from assms(3,4) Some True e(1) gz
        have "publish env job before (Regular i) gz s (?clean @ [Put (?k @ ''.gz.tmp'') gz]) c = (ok, acts, c', m)"
          by (auto simp: compress_def Let_def)
        from publish_triple [where good = good, OF this e(2) [OF gz]] obtain as where "acts = (?clean @ [Put (?k @ ''.gz.tmp'') gz]) @ as"
          "triple ?S (\<lambda>t. ?S t \<and> t (?k @ ''.gz.tmp'') = Some gz) as ?Q" unfolding n by blast
        with triple_append [OF triple_append [OF clean tmp]] show ?thesis by blast
      qed
    qed
  qed
  with assms(8) show ?thesis unfolding triple_def using keeps_take by blast
qed

text \<open>A library for the examples: a run of one letter becomes its length, anything else is stored.\<close>

definition run_encode :: "string \<Rightarrow> string" where
  "run_encode bs = (if bs = replicate (length bs) CHR ''a'' then CHR ''r'' # to_string (length bs) else CHR ''s'' # bs)"

definition run_decode :: "string \<Rightarrow> string option" where
  "run_decode bs = (case bs of
       [] \<Rightarrow> None
     | b # ds \<Rightarrow> Some (if b = CHR ''r'' then replicate (dec_value 0 ds) CHR ''a'' else ds))"

definition sample_miniz :: "(string \<times> string) miniz" where
  "sample_miniz = \<lparr>
     mz_deflateInit2 = Some ([], []),
     mz_deflate = (\<lambda>(taken, emitted) bs fin.
       if emitted \<noteq> [] \<or> (bs = [] \<and> \<not> fin) then (MZ_FAILED, 0, [], (taken, emitted))
       else if \<not> fin then (MZ_OK, length bs, [], (taken @ bs, emitted))
       else (MZ_STREAM_END, length bs, run_encode (taken @ bs), (taken @ bs, emitted @ run_encode (taken @ bs)))),
     mz_crc32 = (\<lambda>c bs. c + of_nat (length bs))\<rparr>"

lemma run_decode_encode: "run_decode (run_encode bs) = Some bs"
  by (simp add: run_encode_def run_decode_def to_string_value)

lemma sample_miniz_laws: "miniz_laws sample_miniz fst snd (\<lambda>z. 0) run_decode"
proof -
  have "run_decode (emitted @ run_encode bs) = Some bs" if "emitted = []" for emitted bs
    using that by (simp add: run_decode_encode)
  then show ?thesis by (auto simp: miniz_laws_def sample_miniz_def split: if_splits)
qed

definition sample_publish_fs :: file_system where
  "sample_publish_fs = \<lparr>
     fs_tree = map_of [([], Directory (1, 2) [''m.bsp''] True), ([''m.bsp''], Regular (1, 5))],
     fs_inode = (\<lambda>i. \<lparr>st_bytes = replicate 24 CHR ''a'', st_mtim_sec = 0, st_mtim_nsec = 0, st_readable = True\<rparr>)\<rparr>"

definition sample_job :: Job where
  "sample_job = \<lparr>jb_source = \<lparr>cs_path = [''/'', ''m.bsp''], cs_extension = ''.bsp'', cs_info = info_of sample_publish_fs (1, 5)\<rparr>,
     jb_identity = ''v1'', jb_key = ''k''\<rparr>"

definition sample_env :: compress_env where
  "sample_env = \<lparr>
     ce_open = sample_publish_fs,
     ce_step = (\<lambda>n. \<lparr>ps_stopping = False, ps_fs = sample_publish_fs, ps_short = (if n = 0 then 14 else 0)\<rparr>),
     ce_last = sample_publish_fs, ce_created = True, ce_written = True, ce_sized = True, ce_oldSized = True,
     ce_markerWritten = True, ce_removed = (\<lambda>n. True), ce_renamed = (\<lambda>n. True)\<rparr>"

declare feed.simps [code] drain.simps [code] pump.simps [code]

theorem publication_sound_witness:
  "\<exists>acts c' m.
     compress sample_miniz sample_env sample_job Map.empty (cc_init\<lparr>cc_maxBytes := 100\<rparr>) = Some (True, acts, c', m) \<and>
     published (\<lambda>gz. gunzip sample_miniz run_decode gz = Some (replicate 24 CHR ''a'')) 24
       (cc_init\<lparr>cc_maxBytes := 100\<rparr>) sample_job (foldl act Map.empty acts) \<and> length acts = 10"
proof -
  let ?c = "cc_init\<lparr>cc_maxBytes := 100\<rparr>"
  let ?r = "the (compress sample_miniz sample_env sample_job Map.empty ?c)"
  have "fst ?r \<and> length (fst (snd ?r)) = 10" by code_simp
  then obtain acts c' m where r: "compress sample_miniz sample_env sample_job Map.empty ?c = Some (True, acts, c', m)"
    "length acts = 10"
    using compress_total [OF sample_miniz_laws, of sample_env sample_job Map.empty ?c] by auto
  have o: "openReadFile (ce_open sample_env) (cs_path (jb_source sample_job)) = Some (Regular (1, 5))" by code_simp
  have "fi_size (cs_info (jb_source sample_job)) = 24" by code_simp
  moreover have "sound good sample_job Map.empty Map.empty" for good by (simp add: sound_def)
  moreover have "st_bytes (fs_inode (ce_open sample_env) (1, 5)) = replicate 24 CHR ''a''"
    "st_bytes (fs_inode (ps_fs (ce_step sample_env n)) (1, 5)) = replicate 24 CHR ''a''" for n
    by (simp_all add: sample_env_def sample_publish_fs_def)
  ultimately show ?thesis
    using publication_sound [OF sample_miniz_laws r(1) o] r by simp
qed

end
