(* ===== verification/Cache_Scan.thy ===== *)
theory Cache_Scan
  imports Cache_Publish
begin

text \<open>
  Building the cache ahead of requests (\<^verbatim>\<open>compression_cache.cpp\<close>, \<open>scanAndBuild\<close>): the walk over the
  served directories, the decision per file, and the worker's steps around each compression,
  with the other threads' steps between them. The tree is at rest during the walk; every
  other call of a round sees the tree of its own moment.
\<close>

section \<open>One file\<close>

text \<open>What one round of the scan meets: the trees of its calls, and what the other threads do before
  the key is entered and while the file is compressed.\<close>

record scan_view =
  sv_canonical :: file_system
  sv_entry :: file_system
  sv_size :: file_system
  sv_open :: file_system
  sv_meta :: file_system
  sv_gz :: file_system
  sv_skip :: file_system
  sv_before :: "cc_event list"
  sv_during :: "cc_event list"
  sv_compress :: compress_env
  sv_sweep :: "(string \<times> file_system \<times> bool) list"

definition scan_job :: "scan_view \<Rightarrow> PathResolver \<Rightarrow> CompressionCache \<Rightarrow> path \<Rightarrow> Job option" where
  "scan_job v r c path =
     (let relative = u8string (lexically_relative path (pr_root r));
          resolved = resolve r (sv_canonical v) (sv_entry v) (sv_size v) (Some (''/'' @ relative)) (cc_maxFileBytes c)
      in if rf_status resolved \<noteq> Ok then None
         else (case openReadFile (sv_open v) (rf_path resolved) of
             None \<Rightarrow> None
           | Some descriptor \<Rightarrow>
               (case inspectReadFile (sv_open v) descriptor (rf_path resolved) of
                  None \<Rightarrow> None
                | Some info \<Rightarrow>
                    (let source = \<lparr>cs_path = rf_path resolved, cs_extension = rf_extension resolved, cs_info = info\<rparr>
                     in if \<not> eligible source then None
                        else
                          (let identity = sourceIdentity source;
                               key = cacheKey identity
                           in if markerMatches (sv_meta v) (cc_cachePath c @ [key @ ''.meta'']) identity \<and>
                                 regularArtifact (sv_gz v) (cc_cachePath c @ [key @ ''.gz'']) then None
                              else if markerMatches (sv_skip v) (cc_cachePath c @ [key @ ''.skip'']) (skipIdentity c source)
                              then None
                              else Some \<lparr>jb_source = source, jb_identity = identity, jb_key = key\<rparr>)))))"

text \<open>\<open>compress\<close> with the maintenance pass \<open>recordArtifact\<close> may start at its end.\<close>

definition compress_maintain ::
  "'z miniz \<Rightarrow> compress_env \<Rightarrow> (string \<times> file_system \<times> bool) list \<Rightarrow> Job \<Rightarrow> store \<Rightarrow> CompressionCache \<Rightarrow>
     (bool \<times> dir_action list \<times> CompressionCache) option" where
  "compress_maintain M env sweep job s c =
     map_option (\<lambda>(ok, acts, c, maintain).
       if maintain then (case maintainCache sweep c of (c, removed) \<Rightarrow> (ok, acts @ map Delete removed, c))
       else (ok, acts, c)) (compress M env job s c)"

text \<open>The lambda \<open>process\<close>: whether the scan goes on, the steps on the cache directory, and the cache.\<close>

definition process ::
  "'z miniz \<Rightarrow> scan_view \<Rightarrow> PathResolver \<Rightarrow> path \<Rightarrow> store \<Rightarrow> CompressionCache \<Rightarrow>
     (bool \<times> dir_action list \<times> CompressionCache) option" where
  "process M v r path s c =
     (if cc_stopping c then Some (False, [], c)
      else (case scan_job v r c path of
          None \<Rightarrow> Some (True, [], c)
        | Some job \<Rightarrow>
            (let c = foldl cc_step c (sv_before v);
                 skip = cc_stopping c \<or> jb_key job \<in> set (cc_pending c);
                 c = scan_insert (jb_key job) c
             in if skip then Some (\<not> cc_stopping c, [], c)
                else map_option (\<lambda>(succeeded, acts, c).
                    let c = scan_finish succeeded (foldl cc_step c (sv_during v))
                    in (\<not> cc_stopping c, acts, c))
                  (compress_maintain M (sv_compress v) (sv_sweep v) job s c))))"

section \<open>The walk\<close>

definition dir_entries :: "file_system \<Rightarrow> path \<Rightarrow> string list" where
  "dir_entries fs p = (case stat fs p of Inr (Directory i entries True) \<Rightarrow> entries | _ \<Rightarrow> [])"

definition root_files :: "file_system \<Rightarrow> PathResolver \<Rightarrow> path list" where
  "root_files fs r =
     filter (\<lambda>p. is_regular (lstat fs p)) (map (\<lambda>name. pr_root r @ [name]) (dir_entries fs (pr_root r)))"

text \<open>The recursive iteration, to a depth of \<open>n\<close> directories. The status is that of the entry itself, so
  a link is neither a directory nor a regular file.\<close>

fun scan_tree :: "nat \<Rightarrow> file_system \<Rightarrow> PathResolver \<Rightarrow> path \<Rightarrow> path list" where
  "scan_tree 0 fs r directory = []"
| "scan_tree (Suc n) fs r directory =
     concat (map (\<lambda>name.
       let p = directory @ [name]; status = lstat fs p
       in if is_directory_status status then (if \<not> containsPath r fs p then [] else scan_tree n fs r p)
          else if is_regular status then [p] else []) (dir_entries fs directory))"

text \<open>Targets have at most 12 components, so no file below 12 directories is ever compressed.\<close>

definition scan_depth :: nat where "scan_depth = 12"

definition scan_files :: "file_system \<Rightarrow> PathResolver \<Rightarrow> path list" where
  "scan_files fs r =
     (if servesRootFiles r then root_files fs r else []) @
     concat (map (scan_tree scan_depth fs r) (scanDirectories r fs))"

fun scan_loop ::
  "'z miniz \<Rightarrow> PathResolver \<Rightarrow> (scan_view \<times> path) list \<Rightarrow> store \<Rightarrow> CompressionCache \<Rightarrow>
     (dir_action list \<times> CompressionCache) option" where
  "scan_loop M r [] s c = Some ([], c)"
| "scan_loop M r ((v, p) # rounds) s c =
     Option.bind (process M v r p s c) (\<lambda>(proceed, acts, c).
       if \<not> proceed then Some (acts, c)
       else map_option (\<lambda>(acts', c). (acts @ acts', c)) (scan_loop M r rounds (foldl act s acts) c))"

definition scanAndBuild ::
  "'z miniz \<Rightarrow> file_system \<Rightarrow> (nat \<Rightarrow> scan_view) \<Rightarrow> (string \<times> file_system \<times> bool) list \<Rightarrow> store \<Rightarrow> CompressionCache \<Rightarrow>
     (dir_action list \<times> CompressionCache) option" where
  "scanAndBuild M fs views sweep s c =
     (case cc_resolver c of
        None \<Rightarrow> Some ([], scan_end c)
      | Some r \<Rightarrow>
          (case maintainCache sweep c of
             (c, removed) \<Rightarrow>
               (let acts = map Delete removed
                in if cc_stopping c then Some (acts, scan_end c)
                   else map_option (\<lambda>(acts', c). (acts @ acts', scan_end c))
                     (scan_loop M r (zip (map views [0..<length (scan_files fs r)]) (scan_files fs r))
                       (foldl act s acts) c))))"

section \<open>The walk finds every served file\<close>

lemma strip_common_self: "strip_common (ps @ names) ps = (names, [])"
proof (induction ps)
  case Nil
  then show ?case by (cases names) simp_all
qed simp

lemma join_names_url: "ns \<noteq> [] \<Longrightarrow> ''/'' @ join_names ns = url_of ns"
  by (induction ns rule: join_names.induct) (simp_all add: url_of_def)

lemma relative_url:
  assumes "pr_root r = ''/'' # base" "names \<noteq> []" "list_all (\<lambda>n. n \<noteq> [] \<and> CHR ''/'' \<notin> set n) names"
  shows "''/'' @ u8string (lexically_relative (pr_root r @ names) (pr_root r)) = url_of names"
proof -
  have "hd names \<noteq> []" "hd names \<noteq> ''/''" using assms(2,3) by (cases names; auto)+
  then have "lexically_relative (pr_root r @ names) (pr_root r) = names" "\<not> is_absolute names"
    using assms(1,2) by (simp_all add: lexically_relative_def is_absolute_def strip_common_self [of "''/'' # base" names, simplified] climb_def)
  with join_names_url [OF assms(2)] show ?thesis by (simp add: u8string_def)
qed

text \<open>A name below a resolved path is entered through directories.\<close>

lemma resolved_step:
  assumes "resolved fs (base @ x # y # names)"
  shows "resolved fs (base @ [x])" "\<exists>i es. tree_at fs (base @ [x]) = Some (Directory i es True)"
proof -
  have res: "resolved fs ((base @ [x]) @ y # names)" using assms by simp
  then show "resolved fs (base @ [x])" unfolding resolved_append [of fs "base @ [x]"] by blast
  from res have "\<forall>k < length (y # names). enters fs ((base @ [x]) @ take k (y # names)) ((y # names) ! k)"
    unfolding resolved_append [of fs "base @ [x]"] by blast
  from spec [OF this, of 0] have "enters fs (base @ [x]) y" by simp
  then show "\<exists>i es. tree_at fs (base @ [x]) = Some (Directory i es True)"
    by (auto simp: enters_def lookup_in_def split: option.splits node.splits if_splits)
qed

lemma lstat_at: "resolved fs names \<Longrightarrow> tree_at fs names = Some n \<Longrightarrow> lstat fs (''/'' # names) = Inr n"
  by (simp add: lstat_resolved stat_resolved)

lemma scan_tree_visits:
  assumes "pr_root r = ''/'' # base"
    and "resolved fs (base @ ds @ names)" "tree_at fs (base @ ds @ names) = Some (Regular i)"
    and "names \<noteq> []" "length names \<le> n"
    and "\<forall>k < length names. names ! k \<in> set (dir_entries fs (''/'' # base @ ds @ take k names))"
  shows "''/'' # base @ ds @ names \<in> set (scan_tree n fs r (''/'' # base @ ds))"
  using assms(2-)
proof (induction n arbitrary: ds names)
  case (Suc n)
  obtain x rest where names: "names = x # rest" using Suc.prems(3) by (cases names) auto
  have x: "x \<in> set (dir_entries fs (''/'' # base @ ds))" using Suc.prems(5) names by force
  show ?case
  proof (cases rest)
    case Nil
    then have "lstat fs (''/'' # base @ ds @ [x]) = Inr (Regular i)"
      using lstat_at [OF Suc.prems(1,2)] names by simp
    with x names Nil show ?thesis by (auto simp: Let_def intro!: bexI [of _ x])
  next
    case (Cons y ys)
    have r: "resolved fs ((base @ ds) @ x # y # ys)" using Suc.prems(1) names Cons by simp
    obtain j es where d: "tree_at fs (base @ ds @ [x]) = Some (Directory j es True)" using resolved_step(2) [OF r] by auto
    have rx: "resolved fs (base @ ds @ [x])" using resolved_step(1) [OF r] by simp
    have "lstat fs (''/'' # base @ ds @ [x]) = Inr (Directory j es True)" by (rule lstat_at [OF rx d])
    moreover have "containsPath r fs (''/'' # base @ ds @ [x])"
      using canonical_resolved [OF rx] assms(1) by (simp add: containsPath_def containedBy_iff)
    moreover have "''/'' # base @ (ds @ [x]) @ rest \<in> set (scan_tree n fs r (''/'' # base @ (ds @ [x])))"
    proof (rule Suc.IH)
      show "\<forall>k < length rest. rest ! k \<in> set (dir_entries fs (''/'' # base @ (ds @ [x]) @ take k rest))"
        using Suc.prems(5) names by (auto dest: spec [of _ "Suc _"])
    qed (use Suc.prems names Cons in auto)
    ultimately show ?thesis using x names by (auto simp: Let_def intro!: bexI [of _ x])
  qed
qed simp

text \<open>The file \<open>names\<close> below the root, listed in its directories and named so that a target can spell it.\<close>

definition listed_file :: "file_system \<Rightarrow> PathResolver \<Rightarrow> string list \<Rightarrow> inode_id \<Rightarrow> bool" where
  "listed_file fs r names i \<longleftrightarrow>
     names \<noteq> [] \<and> length names \<le> 12 \<and> list_all component_ok names \<and>
     list_all (\<lambda>n. n \<noteq> [] \<and> CHR ''/'' \<notin> set n \<and> \<not> list_ex forbidden_byte n) names \<and>
     length (url_of names) \<le> 2048 \<and>
     (\<exists>base. pr_root r = ''/'' # base \<and> resolved fs (base @ names) \<and> tree_at fs (base @ names) = Some (Regular i)) \<and>
     list_all (\<lambda>k. names ! k \<in> set (dir_entries fs (pr_root r @ take k names))) [0..<length names]"

text \<open>A round in which every call sees the same tree.\<close>

definition at_rest :: "file_system \<Rightarrow> scan_view \<Rightarrow> bool" where
  "at_rest fs v \<longleftrightarrow> sv_canonical v = fs \<and> sv_entry v = fs \<and> sv_size v = fs \<and> sv_open v = fs \<and>
     sv_meta v = fs \<and> sv_gz v = fs \<and> sv_skip v = fs"

lemma root_file_scanned:
  assumes "listed_file fs r [x] i" "allowed_place r [x]"
  shows "pr_root r @ [x] \<in> set (scan_files fs r)"
proof -
  obtain base where root: "pr_root r = ''/'' # base"
    and res: "resolved fs (base @ [x])" "tree_at fs (base @ [x]) = Some (Regular i)"
    using assms(1) by (auto simp: listed_file_def)
  have "lstat fs (pr_root r @ [x]) = Inr (Regular i)" using lstat_at [OF res] root by simp
  moreover have "x \<in> set (dir_entries fs (pr_root r))" using assms(1) by (simp add: listed_file_def)
  ultimately have "pr_root r @ [x] \<in> set (root_files fs r)" by (auto simp: root_files_def)
  moreover have "servesRootFiles r"
    using assms(2) by (auto simp: allowed_place_def allowedRootExtension_def servesRootFiles_def split: if_splits)
  ultimately show ?thesis by (simp add: scan_files_def)
qed

lemma deep_file_scanned:
  assumes "listed_file fs r (d # x # rest) i" "allowed_place r (d # x # rest)"
  shows "pr_root r @ d # x # rest \<in> set (scan_files fs r)"
proof -
  define names where "names = d # x # rest"
  obtain base where root: "pr_root r = ''/'' # base"
    and res: "resolved fs (base @ names)" "tree_at fs (base @ names) = Some (Regular i)"
    using assms(1) by (auto simp: listed_file_def names_def)
  have ent: "names ! k \<in> set (dir_entries fs (pr_root r @ take k names))" if "k < length names" for k
    using assms(1) that unfolding names_def by (simp add: listed_file_def list_all_iff del: upt.simps)
  obtain j es where st: "stat fs (pr_root r) = Inr (Directory j es True)" "d \<in> set es"
    using ent [of 0] by (cases "stat fs (pr_root r)") (auto simp: names_def dir_entries_def split: node.splits bool.splits)
  have step: "resolved fs (base @ [d])" "\<exists>i es. tree_at fs (base @ [d]) = Some (Directory i es True)"
    using resolved_step [of fs base d x rest] res(1) by (simp_all add: names_def)
  then have "canonical fs (pr_root r @ [d]) = Inr (pr_root r @ [d])" "is_directory fs (pr_root r @ [d])"
    using canonical_resolved [OF step(1)] stat_resolved [OF step(1)] root by (auto simp: is_directory_def)
  then have "pr_root r @ [d] \<in> set (scanDirectories r fs)"
    using scan_exact [OF st(1)] st(2) assms(2) by (auto simp: allowed_place_def)
  moreover have "''/'' # base @ [d] @ (x # rest) \<in> set (scan_tree scan_depth fs r (''/'' # base @ [d]))"
  proof (rule scan_tree_visits [OF root])
    show "length (x # rest) \<le> scan_depth" using assms(1) by (simp add: listed_file_def scan_depth_def)
    show "\<forall>k < length (x # rest). (x # rest) ! k \<in> set (dir_entries fs (''/'' # base @ [d] @ take k (x # rest)))"
      using ent [of "Suc _"] root by (simp add: names_def)
  qed (use res in \<open>simp_all add: names_def\<close>)
  ultimately show ?thesis using root by (auto simp: scan_files_def)
qed

lemma listed_file_scanned:
  assumes "listed_file fs r names i" "allowed_place r names"
  shows "pr_root r @ names \<in> set (scan_files fs r)"
proof -
  consider x where "names = [x]" | d x rest where "names = d # x # rest"
    using assms(1) by (cases names; cases "tl names") (auto simp: listed_file_def)
  then show ?thesis
    using assms by cases (simp_all add: root_file_scanned deep_file_scanned)
qed

lemma listed_file_resolved:
  assumes "listed_file fs r names i" "allowed_place r names"
    and "allowedExtension r (lowerAscii (extension_of (last names)))" "inode_size fs i \<le> maxBytes"
  shows "resolve r fs fs fs (Some (url_of names)) maxBytes =
    \<lparr>rf_status = Ok, rf_path = pr_root r @ names, rf_size = inode_size fs i,
     rf_extension = lowerAscii (extension_of (last names))\<rparr>"
proof -
  obtain base where root: "pr_root r = ''/'' # base"
    and res: "resolved fs (base @ names)" "tree_at fs (base @ names) = Some (Regular i)"
    using assms(1) by (auto simp: listed_file_def)
  have "names \<noteq> []" using assms(1) by (simp add: listed_file_def)
  moreover from this have "validate (Some (url_of names)) = Some names"
    using assms(1) validate_url_of [of names] by (simp add: listed_file_def)
  ultimately show ?thesis using resolve_regular [OF _ _ root res assms(2-4)] by blast
qed

lemma scan_job_at_rest:
  assumes "listed_file fs r names i" "st_readable (fs_inode fs i)" "at_rest fs v"
    and "allowed_place r names" "allowedExtension r (lowerAscii (extension_of (last names)))"
    and "inode_size fs i \<le> cc_maxFileBytes c"
    and "source = \<lparr>cs_path = pr_root r @ names, cs_extension = lowerAscii (extension_of (last names)), cs_info = info_of fs i\<rparr>"
    and "key = cacheKey (sourceIdentity source)"
  shows "scan_job v r c (pr_root r @ names) =
    (if eligible source \<and>
        \<not> (markerMatches fs (cc_cachePath c @ [key @ ''.meta'']) (sourceIdentity source) \<and>
           regularArtifact fs (cc_cachePath c @ [key @ ''.gz''])) \<and>
        \<not> markerMatches fs (cc_cachePath c @ [key @ ''.skip'']) (skipIdentity c source)
     then Some \<lparr>jb_source = source, jb_identity = sourceIdentity source, jb_key = key\<rparr> else None)"
proof -
  obtain base where root: "pr_root r = ''/'' # base"
    and res: "resolved fs (base @ names)" "tree_at fs (base @ names) = Some (Regular i)"
    using assms(1) by (auto simp: listed_file_def)
  have ne: "names \<noteq> []" "list_all (\<lambda>n. n \<noteq> [] \<and> CHR ''/'' \<notin> set n) names"
    using assms(1) by (auto simp: listed_file_def list_all_iff)
  note url = relative_url [OF root ne, unfolded append_Cons append_Nil]
  have st: "stat fs (pr_root r @ names) = Inr (Regular i)" using stat_resolved [OF res(1)] res(2) root by simp
  have op: "openReadFile fs (pr_root r @ names) = Some (Regular i)" using st assms(2) by (simp add: openReadFile_def)
  have info: "inspectReadFile fs (Regular i) (pr_root r @ names) = Some (info_of fs i)"
    using st by (simp add: inspectReadFile_def)
  note found = listed_file_resolved [OF assms(1,4,5,6)]
  show ?thesis
    using assms(3) by (auto simp: scan_job_def Let_def url found op info at_rest_def assms(7,8))
qed

section \<open>The worker's state\<close>

text \<open>Compression touches nothing of the cache but its two counts.\<close>

definition counts_only :: "CompressionCache \<Rightarrow> CompressionCache \<Rightarrow> bool" where
  "counts_only c c' \<longleftrightarrow> c' = c\<lparr>cc_entries := cc_entries c', cc_bytes := cc_bytes c'\<rparr>"

lemma counts_only_refl [simp]: "counts_only c c"
  by (simp add: counts_only_def)

lemma counts_only_inv: "counts_only c c' \<Longrightarrow> cc_inv c \<Longrightarrow> cc_inv c'"
  "counts_only c c' \<Longrightarrow> cc_worker c' = cc_worker c"
proof -
  have "cc_inv (c\<lparr>cc_entries := e, cc_bytes := b\<rparr>) = cc_inv c" "cc_worker (c\<lparr>cc_entries := e, cc_bytes := b\<rparr>) = cc_worker c"
    for e b by (simp_all add: cc_inv_def in_hand_def)
  then show "counts_only c c' \<Longrightarrow> cc_inv c \<Longrightarrow> cc_inv c'" "counts_only c c' \<Longrightarrow> cc_worker c' = cc_worker c"
    unfolding counts_only_def by metis+
qed

lemma counts_only_trans: "counts_only a b \<Longrightarrow> counts_only b c \<Longrightarrow> counts_only a c"
  by (cases a; cases b; cases c) (simp add: counts_only_def)

lemma counts_only_record: "counts_only c (snd (recordArtifact n c))"
  by (simp add: counts_only_def recordArtifact_def Let_def)

lemma counts_only_maintain: "counts_only c (fst (maintainCache es c))"
  by (simp add: counts_only_def maintainCache_def Let_def split: prod.split bool.split)

lemma counts_only_publish: "publish env job before fd gz s acts c = (ok, acts', c', m) \<Longrightarrow> counts_only c c'"
proof -
  have skip: "publish_skip env job s acts c = (ok, acts', c', m) \<Longrightarrow> counts_only c c'"
    by (auto simp: publish_skip_def counts_only_def Let_def split: if_splits)
  have gzip: "publish_gzip env job n acts c = (ok, acts', c', m) \<Longrightarrow> counts_only c c'" for n
    using counts_only_record [of c n] by (auto simp: publish_gzip_def Let_def split: if_splits prod.splits)
  assume "publish env job before fd gz s acts c = (ok, acts', c', m)"
  then show "counts_only c c'"
    using skip gzip by (auto simp: publish_def Let_def split: if_splits option.splits)
qed

lemma counts_only_compress: "compress M env job s c = Some (ok, acts, c', m) \<Longrightarrow> counts_only c c'"
proof -
  have "counts_only c c'" if "Option.bind (encode M e fd n) (\<lambda>r. case r of
      None \<Rightarrow> Some (False, as, c, False)
    | Some gz \<Rightarrow> Some (publish env job before fd gz s (bs gz) c)) = Some (ok, acts, c', m)" for e fd n as before bs
    using that counts_only_publish by (cases "encode M e fd n") (auto split: option.splits)
  then show "compress M env job s c = Some (ok, acts, c', m) \<Longrightarrow> counts_only c c'"
    by (simp only: compress_def Let_def split: option.splits if_splits) (blast | simp)+
qed

lemma counts_only_compress_maintain:
  assumes "compress_maintain M env sweep job s c = Some (ok, acts, c')"
  shows "counts_only c c'"
proof -
  obtain ok1 acts1 c1 m where c1: "compress M env job s c = Some (ok1, acts1, c1, m)"
    using assms by (cases "compress M env job s c") (auto simp: compress_maintain_def)
  with assms have "c' = (if m then fst (maintainCache sweep c1) else c1)"
    by (simp add: compress_maintain_def split: if_splits prod.splits)
  with counts_only_trans [OF counts_only_compress [OF c1] counts_only_maintain] counts_only_compress [OF c1]
  show ?thesis by simp
qed

text \<open>The steps of threads other than the worker and the one that starts and stops the cache.\<close>

fun other_thread :: "cc_event \<Rightarrow> bool" where
  "other_thread (CLookup f1 f2 f3 source) = True"
| "other_thread CRequestBuild = True"
| "other_thread CStop = True"
| "other_thread _ = False"

lemma other_thread_worker: "other_thread e \<Longrightarrow> cc_worker (cc_step c e) = cc_worker c"
  by (cases e) (auto simp: lookup_def enqueue_def requestBuild_def cc_request_stop_def Let_def split: option.splits)

lemma other_threads:
  "list_all other_thread es \<Longrightarrow> cc_worker (foldl cc_step c es) = cc_worker c"
  "cc_inv c \<Longrightarrow> cc_inv (foldl cc_step c es)"
  by (induction es arbitrary: c) (simp_all add: other_thread_worker cc_inv_step)

text \<open>Between rounds the worker is building with no key in hand; a round that ends the scan may have left it
  idle already.\<close>

definition building :: "CompressionCache \<Rightarrow> bool" where
  "building c \<longleftrightarrow> cc_inv c \<and> cc_worker c = Building None"

definition scan_over :: "CompressionCache \<Rightarrow> bool" where
  "scan_over c \<longleftrightarrow> cc_inv c \<and> (cc_worker c = Building None \<or> cc_worker c = Idle)"

lemma scan_finish_over:
  assumes "cc_inv c" "cc_worker c = Building (Some key)"
  shows "scan_over (scan_finish ok c)" "\<not> cc_stopping (scan_finish ok c) \<Longrightarrow> building (scan_finish ok c)"
proof -
  have "cc_worker (scan_finish ok c) = (if cc_stopping c then Idle else Building None)"
    "cc_stopping (scan_finish ok c) = cc_stopping c"
    using assms(2) by (simp_all add: scan_finish_def Let_def)
  with scan_inv(2) [OF assms(1), of ok]
  show "scan_over (scan_finish ok c)" "\<not> cc_stopping (scan_finish ok c) \<Longrightarrow> building (scan_finish ok c)"
    by (simp_all add: scan_over_def building_def split: if_splits)
qed

lemma process_round:
  assumes "miniz_laws M taken emitted pending inflate" "building c"
    and "list_all other_thread (sv_before v)" "list_all other_thread (sv_during v)"
  shows "\<exists>proceed acts c'. process M v r p s c = Some (proceed, acts, c') \<and> scan_over c' \<and> (proceed \<longrightarrow> building c')"
proof (cases "cc_stopping c \<or> scan_job v r c p = None")
  case True
  then show ?thesis using assms(2) by (auto simp: process_def scan_over_def building_def)
next
  case False
  then obtain job where job: "\<not> cc_stopping c" "scan_job v r c p = Some job" by auto
  let ?c = "foldl cc_step c (sv_before v)" and ?k = "jb_key job"
  have b: "cc_inv ?c" "cc_worker ?c = Building None"
    using assms(2,3) by (simp_all add: building_def other_threads)
  let ?i = "scan_insert ?k ?c"
  show ?thesis
  proof (cases "cc_stopping ?c \<or> ?k \<in> set (cc_pending ?c)")
    case True
    then have "process M v r p s c = Some (\<not> cc_stopping ?i, [], ?i)" using job by (simp add: process_def Let_def)
    moreover have "scan_over ?i" "\<not> cc_stopping ?i \<longrightarrow> building ?i"
      using b True scan_inv(1) [OF b(1), of ?k] by (auto simp: scan_insert_def scan_over_def building_def)
    ultimately show ?thesis by blast
  next
    case fresh: False
    have i: "cc_inv ?i" "cc_worker ?i = Building (Some ?k)"
      using b fresh scan_inv(1) [OF b(1), of ?k] by (auto simp: scan_insert_def)
    obtain ok acts c1 where c1: "compress_maintain M (sv_compress v) (sv_sweep v) job s ?i = Some (ok, acts, c1)"
    proof -
      obtain r where "compress M (sv_compress v) job s ?i = Some r" using compress_total [OF assms(1)] by blast
      then have "compress_maintain M (sv_compress v) (sv_sweep v) job s ?i \<noteq> None" by (simp add: compress_maintain_def)
      with that show thesis by (metis not_Some_eq prod_cases3)
    qed
    let ?e = "foldl cc_step c1 (sv_during v)"
    let ?f = "scan_finish ok ?e"
    have e: "cc_inv ?e" "cc_worker ?e = Building (Some ?k)"
      using i counts_only_inv [OF counts_only_compress_maintain [OF c1]] assms(4) by (simp_all add: other_threads)
    have "process M v r p s c = Some (\<not> cc_stopping ?f, acts, ?f)"
      using job fresh c1 by (simp add: process_def Let_def)
    moreover note scan_finish_over [OF e, of ok]
    ultimately show ?thesis by blast
  qed
qed

lemma scan_loop_rounds:
  assumes "miniz_laws M taken emitted pending inflate" "building c"
    and "list_all (\<lambda>(v, p). list_all other_thread (sv_before v) \<and> list_all other_thread (sv_during v)) rounds"
  shows "\<exists>acts c'. scan_loop M r rounds s c = Some (acts, c') \<and> scan_over c'"
  using assms(2,3)
proof (induction rounds arbitrary: s c)
  case Nil
  then show ?case by (simp add: building_def scan_over_def)
next
  case (Cons round rounds)
  obtain v p where round: "round = (v, p)" by fastforce
  with Cons.prems obtain proceed acts c1 where p: "process M v r p s c = Some (proceed, acts, c1)"
    "scan_over c1" "proceed \<longrightarrow> building c1"
    using process_round [OF assms(1) Cons.prems(1), of v r p s] by auto
  show ?case
  proof (cases proceed)
    case True
    with Cons.IH [of c1 "foldl act s acts"] Cons.prems(2) p(3) obtain acts' c' where
      "scan_loop M r rounds (foldl act s acts) c1 = Some (acts', c')" "scan_over c'" by auto
    with p(1) True round show ?thesis by simp
  next
    case False
    with p round show ?thesis by simp
  qed
qed

section \<open>Properties\<close>

text \<open>C29. Building ahead prepares requests. In a tree at rest, every listed file below the root that the
  resolver serves to the target spelling its path (directly in the root with an allowed root
  level extension, or below an allowed directory) is visited by the scan, as the same file. For
  it the scan makes the job of this version exactly when the file is eligible, the artifact of
  this version is not published and no skip marker of this version and size limit stands. And a
  running cache whose queue has room and does not hold the key queues on a look-up exactly the
  job the scan would do, unless the artifact is too short to be a gzip file.\<close>

theorem build_prepares_requests:
  fixes fs r names i c v
  defines "path \<equiv> pr_root r @ names"
    and "source \<equiv> \<lparr>cs_path = pr_root r @ names, cs_extension = lowerAscii (extension_of (last names)), cs_info = info_of fs i\<rparr>"
  defines "key \<equiv> cacheKey (sourceIdentity source)"
  assumes "listed_file fs r names i" "st_readable (fs_inode fs i)" "at_rest fs v"
    and "if length names = 1 then allowedRootExtension r (lowerAscii (extension_of (last names)))
      else allowedDirectory r (lowerAscii (hd names))"
    and "allowedExtension r (lowerAscii (extension_of (last names)))"
    and "inode_size fs i \<le> cc_maxFileBytes c"
  shows "path \<in> set (scan_files fs r) \<and>
    resolve r fs fs fs (Some (url_of names)) (cc_maxFileBytes c) =
      \<lparr>rf_status = Ok, rf_path = path, rf_size = inode_size fs i, rf_extension = cs_extension source\<rparr> \<and>
    scan_job v r c path =
      (if eligible source \<and>
          \<not> (markerMatches fs (cc_cachePath c @ [key @ ''.meta'']) (sourceIdentity source) \<and>
             regularArtifact fs (cc_cachePath c @ [key @ ''.gz''])) \<and>
          \<not> markerMatches fs (cc_cachePath c @ [key @ ''.skip'']) (skipIdentity c source)
       then Some \<lparr>jb_source = source, jb_identity = sourceIdentity source, jb_key = key\<rparr> else None) \<and>
    (cc_running c \<and> \<not> cc_stopping c \<and> length (cc_jobs c) < kMaximumQueuedJobs \<and> key \<notin> set (cc_pending c) \<and>
     (regularArtifact fs (cc_cachePath c @ [key @ ''.gz'']) \<longrightarrow>
        (\<exists>n \<ge> 18. file_size fs (cc_cachePath c @ [key @ ''.gz'']) = Inr n)) \<longrightarrow>
     cc_jobs (snd (lookup fs fs fs source c)) =
       cc_jobs c @ (case scan_job v r c path of None \<Rightarrow> [] | Some job \<Rightarrow> [job]))"
proof -
  have place: "allowed_place r names" using assms(7) unfolding allowed_place_def .
  note job = scan_job_at_rest [OF assms(4-6) place assms(8,9) source_def [THEN meta_eq_to_obj_eq] key_def [THEN meta_eq_to_obj_eq]]
  have skip: "skipIdentity (c\<lparr>cc_misses := m\<rparr>) source = skipIdentity c source" for m by (simp add: skipIdentity_def)
  have "cc_jobs (snd (lookup fs fs fs source c)) = cc_jobs c @ (case scan_job v r c path of None \<Rightarrow> [] | Some job \<Rightarrow> [job])"
    if "cc_running c" "\<not> cc_stopping c" "length (cc_jobs c) < kMaximumQueuedJobs" "key \<notin> set (cc_pending c)"
      "regularArtifact fs (cc_cachePath c @ [key @ ''.gz'']) \<longrightarrow>
        (\<exists>n \<ge> 18. file_size fs (cc_cachePath c @ [key @ ''.gz'']) = Inr n)"
    unfolding path_def job using that
    by (auto simp: lookup_def enqueue_def skip Let_def key_def split: if_splits sum.splits option.splits)
  with listed_file_scanned [OF assms(4) place] listed_file_resolved [OF assms(4) place assms(8,9)] job
  show ?thesis by (simp add: path_def source_def)
qed

text \<open>C30. A build ends and leaves the queue in order: whatever the tree, the files and the other threads'
  look-ups, build requests and stop in between, and as long as the library makes progress,
  \<open>scanAndBuild\<close> returns, the worker is idle again with no key in hand, and the keys that
  remain pending are exactly those of the queued jobs.\<close>

theorem build_returns:
  assumes "miniz_laws M taken emitted pending inflate" "cc_inv c" "cc_worker c = Building None"
    and "\<forall>n. list_all other_thread (sv_before (views n) @ sv_during (views n))"
  shows "\<exists>acts c'. scanAndBuild M fs views sweep s c = Some (acts, c') \<and> cc_worker c' = Idle \<and>
    mset (cc_pending c') = mset (map jb_key (cc_jobs c')) \<and> cc_inv c'"
proof -
  have over: "cc_worker (scan_end c) = Idle \<and> mset (cc_pending (scan_end c)) = mset (map jb_key (cc_jobs (scan_end c))) \<and>
      cc_inv (scan_end c)" if "scan_over c" for c
    using that scan_inv(3) [of c] by (auto simp: scan_over_def scan_end_def cc_inv_def in_hand_def)
  show ?thesis
  proof (cases "cc_resolver c")
    case None
    with over [of c] assms(2,3) show ?thesis by (simp add: scanAndBuild_def scan_over_def)
  next
    case (Some r)
    obtain c1 removed where m: "maintainCache sweep c = (c1, removed)" by fastforce
    have b: "building c1"
      using counts_only_inv [OF counts_only_maintain [where c = c and es = sweep]] m assms(2,3) by (simp add: building_def)
    show ?thesis
    proof (cases "cc_stopping c1")
      case True
      with Some m over [of c1] b show ?thesis by (simp add: scanAndBuild_def scan_over_def building_def)
    next
      case False
      let ?rounds = "zip (map views [0..<length (scan_files fs r)]) (scan_files fs r)"
      have "list_all (\<lambda>(v, p). list_all other_thread (sv_before v) \<and> list_all other_thread (sv_during v)) ?rounds"
        unfolding list_all_iff [of _ ?rounds]
      proof
        fix round
        assume "round \<in> set ?rounds"
        then obtain n where "views n = fst round" by (auto simp: in_set_zip)
        with spec [OF assms(4), of n] show "case round of (v, p) \<Rightarrow> list_all other_thread (sv_before v) \<and> list_all other_thread (sv_during v)"
          by (simp add: split_beta)
      qed
      from scan_loop_rounds [OF assms(1) b this, of r "foldl act s (map Delete removed)"] obtain acts c' where
        "scan_loop M r ?rounds (foldl act s (map Delete removed)) c1 = Some (acts, c')" "scan_over c'" by blast
      with Some m False over show ?thesis by (simp add: scanAndBuild_def)
    qed
  qed
qed

section \<open>Witnesses\<close>

text \<open>The sample tree has a map below the served directory; the cache lies beside it.\<close>

definition rest_view :: scan_view where
  "rest_view = \<lparr>sv_canonical = sample_fs, sv_entry = sample_fs, sv_size = sample_fs, sv_open = sample_fs,
     sv_meta = sample_fs, sv_gz = sample_fs, sv_skip = sample_fs, sv_before = [], sv_during = [],
     sv_compress = sample_env, sv_sweep = []\<rparr>"

definition sample_building :: CompressionCache where
  "sample_building = cc_init\<lparr>cc_cachePath := [''/'', ''c''], cc_maxFileBytes := 10, cc_maxBytes := 100,
     cc_resolver := Some sample_resolver, cc_stopping := False, cc_worker := Building None, cc_running := True\<rparr>"

text \<open>The same tree, whatever its files hold.\<close>

abbreviation filled :: "(inode_id \<Rightarrow> inode) \<Rightarrow> file_system" where
  "filled content \<equiv> sample_fs\<lparr>fs_inode := content\<rparr>"

lemma filled_listed:
  "listed_file (filled content) sample_resolver [''maps'', ''a.bsp''] (1, 5)"
  "listed_file (filled content) sample_resolver [''x.wad''] (1, 6)"
proof -
  let ?m = "[''maps'', ''a.bsp'']" and ?x = "[''x.wad'']"
  let ?ok = "list_all (\<lambda>n. n \<noteq> [] \<and> CHR ''/'' \<notin> set n \<and> \<not> list_ex forbidden_byte n)"
  let ?in = "\<lambda>names. list_all (\<lambda>k. names ! k \<in> set (dir_entries (filled content) (pr_root sample_resolver @ take k names)))
      [0..<length names]"
  have "pr_root sample_resolver = [''/'', ''srv'']"
    "resolved (filled content) ([''srv''] @ ?m)" "resolved (filled content) ([''srv''] @ ?x)"
    "tree_at (filled content) ([''srv''] @ ?m) = Some (Regular (1, 5))"
    "tree_at (filled content) ([''srv''] @ ?x) = Some (Regular (1, 6))"
    "list_all component_ok ?m" "list_all component_ok ?x" "?ok ?m" "?ok ?x"
    "length (url_of ?m) \<le> 2048" "length (url_of ?x) \<le> 2048" "?in ?m" "?in ?x" by code_simp+
  then show "listed_file (filled content) sample_resolver ?m (1, 5)" "listed_file (filled content) sample_resolver ?x (1, 6)"
    unfolding listed_file_def
    by (intro conjI exI [of _ "[''srv'']"]; (assumption | simp))+
qed

lemma filled_no_artifact:
  "\<not> regularArtifact (filled content) [''/'', ''c'', k]" "\<not> markerMatches (filled content) [''/'', ''c'', k] m"
proof -
  have "canonical (filled content) [''/'', ''c''] = Inl ENOENT" by code_simp
  then show "\<not> regularArtifact (filled content) [''/'', ''c'', k]" by (simp add: regularArtifact_def lstat_def)
  then show "\<not> markerMatches (filled content) [''/'', ''c'', k] m" by (simp add: markerMatches_def)
qed

text \<open>With a map of 2000 bytes: the scan meets the map and the root level archive, and a look-up of the
  map queues the scan's job.\<close>

definition long_content :: "inode_id \<Rightarrow> inode" where
  "long_content i = \<lparr>st_bytes = replicate 2000 CHR ''a'', st_mtim_sec = 1000, st_mtim_nsec = 0, st_readable = True\<rparr>"

theorem build_prepares_requests_witness:
  defines "fs \<equiv> filled long_content"
    and "c \<equiv> sample_building\<lparr>cc_maxFileBytes := 4000\<rparr>"
  shows "{[''/'', ''srv'', ''maps'', ''a.bsp''], [''/'', ''srv'', ''x.wad'']} \<subseteq> set (scan_files fs sample_resolver) \<and>
    (\<exists>job. cc_jobs (snd (lookup fs fs fs (jb_source job) c)) = [job] \<and> cs_path (jb_source job) = [''/'', ''srv'', ''maps'', ''a.bsp''])"
proof -
  let ?m = "[''maps'', ''a.bsp'']" and ?x = "[''x.wad'']"
  let ?v = "rest_view\<lparr>sv_canonical := fs, sv_entry := fs, sv_size := fs, sv_open := fs, sv_meta := fs, sv_gz := fs, sv_skip := fs\<rparr>"
  let ?s = "\<lparr>cs_path = pr_root sample_resolver @ ?m, cs_extension = lowerAscii (extension_of (last ?m)), cs_info = info_of fs (1, 5)\<rparr>"
  have p: "pr_root sample_resolver = [''/'', ''srv'']" by code_simp
  have ext: "lowerAscii (extension_of ''a.bsp'') = ''.bsp''" by code_simp
  have allowed: "allowedDirectory sample_resolver (lowerAscii (hd ?m))"
    "allowedRootExtension sample_resolver (lowerAscii (extension_of (last ?x)))"
    "allowedExtension sample_resolver (lowerAscii (extension_of (last ?m)))"
    "allowedExtension sample_resolver (lowerAscii (extension_of (last ?x)))" by code_simp+
  have small: "inode_size fs i = 2000" "fi_size (info_of fs i) = 2000" "st_readable (fs_inode fs i)" for i
    by (simp_all add: fs_def long_content_def inode_size_def info_of_def)
  have cache: "cc_maxFileBytes c = 4000" "cc_running c" "\<not> cc_stopping c" "cc_jobs c = []" "cc_pending c = []"
    "cc_cachePath c = [''/'', ''c'']" by (simp_all add: c_def sample_building_def cc_init_def)
  have rest: "at_rest fs ?v" by (simp add: at_rest_def)
  have el: "eligible ?s" by (simp add: eligible_def small ext)
  have none: "\<not> regularArtifact fs [''/'', ''c'', k]" "\<not> markerMatches fs [''/'', ''c'', k] t" for k t
    unfolding fs_def by (rule filled_no_artifact)+
  note m = build_prepares_requests [OF filled_listed(1) [of long_content, folded fs_def] small(3) rest, of c]
  note x = build_prepares_requests [OF filled_listed(2) [of long_content, folded fs_def] small(3) rest, of c]
  have "pr_root sample_resolver @ ?m \<in> set (scan_files fs sample_resolver)" using m allowed small(1) cache(1) by simp
  moreover have "pr_root sample_resolver @ ?x \<in> set (scan_files fs sample_resolver)" using x allowed small(1) cache(1) by simp
  moreover have "cc_jobs (snd (lookup fs fs fs ?s c)) =
      [\<lparr>jb_source = ?s, jb_identity = sourceIdentity ?s, jb_key = cacheKey (sourceIdentity ?s)\<rparr>]"
    using m allowed small(1) cache el none by (simp add: kMaximumQueuedJobs_def)
  moreover have "cs_path ?s = [''/'', ''srv'', ''maps'', ''a.bsp'']" by (simp add: p)
  ultimately show ?thesis unfolding p
    by (intro conjI exI [of _ "\<lparr>jb_source = ?s, jb_identity = sourceIdentity ?s, jb_key = cacheKey (sourceIdentity ?s)\<rparr>"])
      (simp_all add: p)
qed

theorem build_returns_witness:
  "\<exists>acts c'. scanAndBuild sample_miniz sample_fs (\<lambda>n. rest_view) [] Map.empty sample_building = Some (acts, c') \<and>
     cc_worker c' = Idle \<and> mset (cc_pending c') = mset (map jb_key (cc_jobs c'))"
proof -
  have "cc_inv sample_building" "cc_worker sample_building = Building None" "cc_jobs sample_building = []"
    by (simp_all add: cc_inv_def in_hand_def sample_building_def cc_init_def)
  moreover have "\<forall>n. list_all other_thread (sv_before ((\<lambda>n. rest_view) n) @ sv_during ((\<lambda>n. rest_view) n))"
    by (simp add: rest_view_def)
  ultimately show ?thesis
    using build_returns [OF sample_miniz_laws, of sample_building "\<lambda>n. rest_view" sample_fs "[]" Map.empty] by auto
qed

end
