(* ===== verification/Spec2Isabelle.thy ===== *)
theory Spec2Isabelle
  imports Rate_Limiter Transfer_Metrics Bandwidth_Limiter Config_Parser Path_Resolver Http_Fields
    Logger Compression_Cache Server_System Cache_Start Server_Lifecycle Plugin_Config Config_File Meta_Plugin Cache_Maintenance
    Cache_Publish Cache_Scan
begin

text \<open>
  \<^bold>\<open>FastDL for Metamod: a verification library.\<close>

  \<^bold>\<open>The program.\<close> A plugin for a game server (\<^verbatim>\<open>src/src\<close>) that serves the server's content
  over HTTP inside the game process. \<^verbatim>\<open>meta_plugin.cpp\<close> registers console variables and
  commands, reads the configuration file through \<^verbatim>\<open>config_parser.cpp\<close>, and starts and stops one
  \<open>FastdlServer\<close> (\<^verbatim>\<open>fastdl_server.cpp\<close>). libmicrohttpd calls the server's handlers; a request passes
  the rate limiter (\<^verbatim>\<open>rate_limiter.cpp\<close>), the path resolver (\<^verbatim>\<open>path_resolver.cpp\<close>), is opened
  and inspected (\<^verbatim>\<open>secure_file.cpp\<close>), may be answered from the gzip cache
  (\<^verbatim>\<open>compression_cache.cpp\<close>), and its body is read in pieces the bandwidth limiter grants
  (\<^verbatim>\<open>bandwidth_limiter.cpp\<close>). \<^verbatim>\<open>transfer_metrics.cpp\<close> counts, \<^verbatim>\<open>logger.cpp\<close> writes the access log in a
  thread of its own. The POSIX branch on a 32-bit target is modelled: \<open>size_t\<close> is a word of 32
  bits, \<open>off_t\<close> of 64.

  \<^bold>\<open>Conventions.\<close> A class is a record of its members, an enumeration a datatype, an integer a word of
  its width; a clock reading, a tree of files and the result of a system call are arguments of
  the operation that takes them, so that nothing is assumed about what happens between two
  calls. A path is the list of its components. Critical sections are single operations; what
  runs without a lock is an interleaving relation (\<open>cas_step\<close>) or takes the other threads' steps
  as an argument. An error return is a value; every early return is a branch. In \<open>Server_System\<close> one
  call of a handler (\<open>handleRequest\<close>, \<open>fileReader\<close>, \<open>requestCompleted\<close>) is one step, although the code locks only
  the sections inside it that touch the limiters, the cache and the logger: the properties of
  the whole system (C3, C8, C9, C36, C37) are about interleavings of whole calls, those of the
  limiters, the cache and the counters (C15 to C24, C27) about interleavings of their own
  critical sections.

  \<^bold>\<open>The theories\<close>, in the order they build on each other:

  \<^item> \<open>FastDL_Prelude\<close>: machine types, byte strings, saturating addition, association lists, and the
    locale \<open>transition_system\<close> (an initial state, steps, an invariant; its lemmas give reachability
    by histories), interpreted for the limiters, the logger, the cache and the server.
  \<^item> \<open>Cas_Loop\<close>: compare-and-exchange loops of any number of threads as the relation \<open>cas_step\<close>; the
    locales \<open>cas_cell\<close> and \<open>commuting_cell\<close> are interpreted for the arrival times of the bandwidth limiter
    and for the counters.
  \<^item> \<open>Secure_File\<close>: the file system (a tree of names with links, inodes with bytes and times), \<open>canonical\<close>,
    \<open>stat\<close>, \<open>lstat\<close>, and \<open>openReadFile\<close>, \<open>inspectReadFile\<close>, \<open>readFileAt\<close>. \<open>Lexical_Paths\<close>: the lexical path
    operations, \<open>weakly_canonical\<close>, and \<open>resolveAgainstBase\<close> of the server.
  \<^item> \<open>Path_Resolver\<close>: \<open>configure\<close>, \<open>validate\<close>, \<open>resolve\<close>, \<open>scanDirectories\<close>. The resolver's answers are safe (C1),
    the validator is exact (C10), what should be served is found (C11), the lists mean what
    they say (C12).
  \<^item> \<open>Http_Fields\<close>: ranges, dates, entity tags, content codings and log fields of \<^verbatim>\<open>fastdl_server.cpp\<close>; ranges
    refine RFC 7233 (C13), dates are read back (C14). \<open>put_time\<close> and \<open>get_time\<close> interpret the format strings
    of the code as the standard library does.
  \<^item> \<open>Rate_Limiter\<close>, \<open>Bandwidth_Limiter\<close>, \<open>Transfer_Metrics\<close>, \<open>Logger\<close>: one theory per class, every
    operation, with invariants over all histories, the window and rate bounds (C15 to C20), exact
    counts (C21 to C23), and the accounting of log lines and purged files (C24, C25). The worker's
    output may fail after any number of lines (\<open>lg_emit\<close>).
  \<^item> \<open>Server\<close>: the handlers from \<open>handleRequest\<close> to \<open>logCompleted\<close>. \<open>Server_Requests\<close>: what one request may get (C2, C6,
    C7). \<open>Server_Transfers\<close>: what the reader delivers (C4, C5), over the locale \<open>byte_supply\<close>.
    \<open>Server_System\<close>: the server and the requests libmicrohttpd has open as one transition system (C8,
    C9). \<open>Server_Lifecycle\<close>: \<open>start\<close> and \<open>stop\<close>, and the accounting of descriptors, leases and active
    transfers over all of them (C3, C31).
  \<^item> \<open>Compression_Cache\<close>: identities, markers, \<open>lookup\<close>, the job queue and the worker's critical sections (C26, C27).
    \<open>Cache_Publish\<close>: \<open>compress\<close>, with miniz as a parameter; the steps on the cache directory are listed
    one by one, and an assertion is shown to hold before, between and after them (C28). \<open>compress\<close>
    returns whether \<open>recordArtifact\<close> has to run \<open>maintainCache\<close>; \<open>compress_maintain\<close> in \<open>Cache_Scan\<close> runs it.
    \<open>Cache_Scan\<close>: \<open>scanAndBuild\<close> (C29, C30). \<open>Cache_Maintenance\<close>: \<open>markerCurrent\<close> and \<open>maintainCache\<close> (C39,
    C40). \<open>Cache_Start\<close>: \<open>start\<close> and \<open>stop\<close> of the cache (C32).
  \<^item> \<open>Config_Parser\<close>: comments and assignments. \<open>Plugin_Config\<close>: the table of settings, \<open>readConfig\<close>, the texts, the
    public URL and the configuration file, over an engine given by its functions (\<open>engine_laws\<close>
    states what setting a variable does). \<open>Config_File\<close>: the generated file is read back (C34, and C33,
    C35 for the configuration). \<open>Meta_Plugin\<close>: the plugin's state, its commands and entry points as a
    transition system (C36 to C38).

  \<^bold>\<open>Bounds and fuel.\<close> \<open>symlink_limit\<close> is the kernel's 40. \<open>scan_depth\<close> is 12: a target has at most 12
  components (\<open>validate\<close>), so files in deeper directories are never compressed, whether the walk
  visits them or not. The loops of \<open>compress\<close> are partial functions, since they end only if miniz
  makes progress; \<open>compress_total\<close> and C30 show that they do under \<open>miniz_laws\<close>. All other loops are
  recursive functions with their termination proofs. The bounds of the code (1024 clients and
  131072 events, 1024 queued jobs, 16384 artifacts, 8 to 128 connections) are definitions with
  the values of the source.

  \<^bold>\<open>Parameters and hypotheses.\<close> miniz (\<open>miniz_laws\<close>: what \<open>deflate\<close> documents about bytes consumed and produced,
  and that its decoder inverts the finished stream), the engine (\<open>engine_laws\<close>), libmicrohttpd as the
  caller of the handlers with the results of its functions as arguments, the file system, and
  \<open>std::mktime\<close> with the local time zone. Each law is shown to hold for a concrete instance where a
  property uses it.

  \<^bold>\<open>Not modelled.\<close> Exceptions and \<open>std::bad_alloc\<close> (the handlers' \<open>catch\<close> blocks, and those of the plugin's
  entry points); the Windows branches; the bytes of temporary files whose writing failed;
  rounding in \<open>float\<close> and \<open>double\<close> (values are rationals or not finite); locks other than as
  atomic operations; the registration tables handed to the engine; the vendored libraries.
\<close>

end
